(* ===== verification/Prelude.thy ===== *)
theory Prelude
  imports Main "HOL-Library.Word"
begin

text \<open>
  The vocabulary the component theories share: machine integers and byte strings, the result
  type \<open>run\<close> of Rust code that can return, return early with an error, or panic, indexing and
  slicing as Rust does them, network byte order, and two interfaces that recur in the program:
  a self-delimiting byte codec and a state machine with an invariant.
\<close>

unbundle bit_operations_syntax

named_theorems run_simps \<open>evaluation of the result type\<close>
named_theorems byte_simps \<open>byte order and slicing\<close>
named_theorems safe_intros \<open>rules that show a computation does not panic\<close>

section \<open>Types\<close>

type_synonym u8 = "8 word"
type_synonym u16 = "16 word"
type_synonym u32 = "32 word"
type_synonym u64 = "64 word"
type_synonym u128 = "128 word"
type_synonym bytes = "u8 list"

section \<open>Results of Rust code\<close>

text \<open>
  \<open>Ok a\<close> is a returned value, \<open>Err e\<close> an early return through \<^verbatim>\<open>?\<close> or an explicit error,
  \<open>Panic\<close> a panic: an index or slice out of range, a failed \<^verbatim>\<open>unreachable!\<close>. A Rust
  \<^verbatim>\<open>Option\<close> that may also panic has \<open>unit\<close> as its error type.
\<close>

datatype ('e, 'a) run = Ok 'a | Err 'e | Panic

type_synonym 'a opt = "(unit, 'a) run"

primrec bnd :: "('e, 'a) run \<Rightarrow> ('a \<Rightarrow> ('e, 'b) run) \<Rightarrow> ('e, 'b) run" where
  "bnd (Ok a) f = f a"
| "bnd (Err e) f = Err e"
| "bnd Panic f = Panic"

primrec ok_or :: "'e \<Rightarrow> 'a option \<Rightarrow> ('e, 'a) run" where
  "ok_or e None = Err e"
| "ok_or e (Some a) = Ok a"

primrec map_err :: "('e \<Rightarrow> 'f) \<Rightarrow> ('e, 'a) run \<Rightarrow> ('f, 'a) run" where
  "map_err g (Ok a) = Ok a"
| "map_err g (Err e) = Err (g e)"
| "map_err g Panic = Panic"

definition safe :: "('e, 'a) run \<Rightarrow> bool" where
  "safe r \<longleftrightarrow> r \<noteq> Panic"

text \<open>\<^verbatim>\<open>xs[i]\<close> and \<^verbatim>\<open>&xs[a..b]\<close> panic out of range; \<^verbatim>\<open>xs.get(i)\<close> and
  \<^verbatim>\<open>xs.get(a..b)\<close> return \<^verbatim>\<open>None\<close>.\<close>

definition ix :: "'a list \<Rightarrow> nat \<Rightarrow> ('e, 'a) run" where
  "ix xs i = (if i < length xs then Ok (xs ! i) else Panic)"

definition sl :: "'a list \<Rightarrow> nat \<Rightarrow> nat \<Rightarrow> ('e, 'a list) run" where
  "sl xs a b = (if a \<le> b \<and> b \<le> length xs then Ok (take (b - a) (drop a xs)) else Panic)"

definition get :: "'a list \<Rightarrow> nat \<Rightarrow> 'a option" where
  "get xs i = (if i < length xs then Some (xs ! i) else None)"

definition get_range :: "'a list \<Rightarrow> nat \<Rightarrow> nat \<Rightarrow> 'a list option" where
  "get_range xs a b = (if a \<le> b \<and> b \<le> length xs then Some (take (b - a) (drop a xs)) else None)"

section \<open>Network byte order\<close>

primrec to_be :: "nat \<Rightarrow> nat \<Rightarrow> bytes" where
  "to_be 0 v = []"
| "to_be (Suc n) v = to_be n (v div 256) @ [of_nat v]"

definition from_be :: "bytes \<Rightarrow> nat" where
  "from_be bs = foldl (\<lambda>acc b. acc * 256 + unat b) 0 bs"

text \<open>\<^verbatim>\<open>w.to_be_bytes()\<close> and \<^verbatim>\<open>uN::from_be_bytes\<close> at the widths the sources use.\<close>

definition be16 :: "u16 \<Rightarrow> bytes" where "be16 w = to_be 2 (unat w)"
definition be32 :: "u32 \<Rightarrow> bytes" where "be32 w = to_be 4 (unat w)"
definition be64 :: "u64 \<Rightarrow> bytes" where "be64 w = to_be 8 (unat w)"
definition be128 :: "u128 \<Rightarrow> bytes" where "be128 w = to_be 16 (unat w)"

definition u16_be :: "u8 \<Rightarrow> u8 \<Rightarrow> u16" where
  "u16_be a b = of_nat (from_be [a, b])"

section \<open>Lemmas: results\<close>

lemma bnd_assoc [simp]: "bnd (bnd m f) g = bnd m (\<lambda>x. bnd (f x) g)"
  by (cases m) auto

lemma bnd_Ok_iff [run_simps]: "bnd m f = Ok b \<longleftrightarrow> (\<exists>a. m = Ok a \<and> f a = Ok b)"
  by (cases m) auto

lemma bnd_Panic_iff [run_simps]: "bnd m f = Panic \<longleftrightarrow> m = Panic \<or> (\<exists>a. m = Ok a \<and> f a = Panic)"
  by (cases m) auto

lemma bnd_Err_iff [run_simps]: "bnd m f = Err e \<longleftrightarrow> m = Err e \<or> (\<exists>a. m = Ok a \<and> f a = Err e)"
  by (cases m) auto

lemma bnd_cong [fundef_cong]:
  "m = m' \<Longrightarrow> (\<And>a. m' = Ok a \<Longrightarrow> f a = f' a) \<Longrightarrow> bnd m f = bnd m' f'"
  by (cases m') auto

lemma ok_or_iff [run_simps]:
  "ok_or e x = Ok a \<longleftrightarrow> x = Some a" "ok_or e x = Err e' \<longleftrightarrow> x = None \<and> e' = e"
  "ok_or e x \<noteq> Panic"
  by (cases x; auto)+

lemma map_err_iff [run_simps]:
  "map_err g r = Ok a \<longleftrightarrow> r = Ok a" "map_err g r = Panic \<longleftrightarrow> r = Panic"
  by (cases r; auto)+

lemma safe_simps [simp]: "safe (Ok a)" "safe (Err e)" "\<not> safe Panic"
  by (auto simp: safe_def)

lemma safe_ok_or [simp]: "safe (ok_or e x)"
  by (cases x) auto

lemma safe_map_err [simp]: "safe (map_err g r) = safe r"
  by (cases r) auto

lemma safe_bnd [safe_intros]:
  "safe m \<Longrightarrow> (\<And>a. m = Ok a \<Longrightarrow> safe (f a)) \<Longrightarrow> safe (bnd m f)"
  by (cases m) auto

lemma safe_ix [simp]: "safe (ix xs i) \<longleftrightarrow> i < length xs"
  by (simp add: ix_def)

lemma safe_sl [simp]: "safe (sl xs a b) \<longleftrightarrow> a \<le> b \<and> b \<le> length xs"
  by (simp add: sl_def)

lemma ix_Ok [simp]: "i < length xs \<Longrightarrow> ix xs i = Ok (xs ! i)"
  by (simp add: ix_def)

lemma sl_Ok [simp]: "a \<le> b \<Longrightarrow> b \<le> length xs \<Longrightarrow> sl xs a b = Ok (take (b - a) (drop a xs))"
  by (simp add: sl_def)

lemma get_Some [run_simps]: "get xs i = Some x \<longleftrightarrow> i < length xs \<and> x = xs ! i"
  by (auto simp: get_def)

lemma get_range_Some [run_simps]:
  "get_range xs a b = Some ys \<longleftrightarrow> a \<le> b \<and> b \<le> length xs \<and> ys = take (b - a) (drop a xs)"
  by (auto simp: get_range_def)

section \<open>Lemmas: byte order\<close>

lemma length_to_be [simp]: "length (to_be n v) = n"
  by (induction n arbitrary: v) auto

lemma from_be_Nil [simp]: "from_be [] = 0"
  by (simp add: from_be_def)

lemma from_be_snoc [simp]: "from_be (bs @ [b]) = from_be bs * 256 + unat b"
  by (simp add: from_be_def)

lemma from_be_one [simp]: "from_be [a] = unat a"
  using from_be_snoc [of "[]" a] by simp

lemma from_be_two: "from_be [a, b] = unat a * 256 + unat b"
  using from_be_snoc [of "[a]" b] by simp

lemma u8_256 [simp]: "(256 :: u8) = 0"
  by simp

lemma unat_u8_of_nat: "unat (of_nat v :: u8) = v mod 256"
  by (simp add: unat_of_nat)

lemma unat_u8_less [simp]: "unat (b :: u8) < 256"
  using unsigned_less [of b] by simp

lemma from_be_to_be: "from_be (to_be n v) = v mod 256 ^ n"
proof (induction n arbitrary: v)
  case 0
  show ?case by simp
next
  case (Suc n)
  have "from_be (to_be (Suc n) v) = (v div 256 mod 256 ^ n) * 256 + v mod 256"
    by (simp add: Suc.IH unat_u8_of_nat)
  also have "\<dots> = v mod (256 * 256 ^ n)"
    by (simp add: mod_mult2_eq mult.commute)
  finally show ?case by simp
qed

lemma from_be_less: "from_be bs < 256 ^ length bs"
proof (induction bs rule: rev_induct)
  case Nil
  show ?case by simp
next
  case (snoc b bs)
  have "from_be bs * 256 + unat b < (from_be bs + 1) * 256" by simp
  also have "\<dots> \<le> 256 ^ length bs * 256" using snoc.IH by (intro mult_right_mono) auto
  finally show ?case by (simp add: mult.commute)
qed

lemma to_be_from_be: "length bs = n \<Longrightarrow> to_be n (from_be bs) = bs"
proof (induction bs arbitrary: n rule: rev_induct)
  case Nil
  then show ?case by simp
next
  case (snoc b bs)
  have d: "(from_be bs * 256 + unat b) div 256 = from_be bs"
    by simp
  have m: "(of_nat (from_be bs * 256 + unat b) :: u8) = b"
  proof -
    have "unat (of_nat (from_be bs * 256 + unat b) :: u8) = unat b"
      by (subst unat_u8_of_nat) simp
    then show ?thesis by (simp add: word_unat_eq_iff)
  qed
  from snoc show ?case by (auto simp: d m)
qed

lemma to_be_mod: "to_be n (v mod 256 ^ n) = to_be n v"
  using to_be_from_be [of "to_be n v" n] by (simp add: from_be_to_be)

lemma to_be_add [simp]: "to_be n (v + k * 256 ^ n) = to_be n v"
  by (metis mod_mult_self1 to_be_mod)

lemma to_be_Cons: "to_be (Suc n) v = of_nat (v div 256 ^ n) # to_be n v"
  by (induction n arbitrary: v) (simp_all add: div_mult2_eq)

lemma unat_less_pow: "unat (w :: 'a::len word) < 2 ^ LENGTH('a)"
  by (rule unsigned_less)

lemma unat_bounds [simp]:
  "unat (a :: u16) < 65536" "unat (b :: u32) < 4294967296"
  "unat (c :: u64) < 18446744073709551616"
  "unat (d :: u128) < 340282366920938463463374607431768211456"
  using unat_less_pow [of a] unat_less_pow [of b] unat_less_pow [of c] unat_less_pow [of d]
  by simp_all

lemma length_be [simp]:
  "length (be16 a) = 2" "length (be32 b) = 4" "length (be64 c) = 8" "length (be128 d) = 16"
  by (simp_all add: be16_def be32_def be64_def be128_def)

lemma from_be_be [byte_simps]:
  "from_be (be16 a) = unat a" "from_be (be32 b) = unat b"
  "from_be (be64 c) = unat c" "from_be (be128 d) = unat d"
  by (simp_all add: be16_def be32_def be64_def be128_def from_be_to_be)

lemma unat_u16_be [byte_simps]: "unat (u16_be a b) = unat a * 256 + unat b"
proof -
  have "from_be [a, b] < 65536" using from_be_less [of "[a, b]"] by simp
  then have "unat (of_nat (from_be [a, b]) :: u16) = from_be [a, b]"
    by (subst unat_of_nat) simp
  then show ?thesis by (simp only: u16_be_def from_be_two)
qed

lemma be16_eq: "be16 w = [of_nat (unat w div 256), of_nat (unat w)]"
  by (simp add: be16_def numeral_2_eq_2)

lemma u16_be_be16 [byte_simps]: "u16_be (be16 w ! 0) (be16 w ! 1) = w"
proof -
  have "[be16 w ! 0, be16 w ! 1] = be16 w" by (simp add: be16_eq)
  then show ?thesis by (simp add: u16_be_def from_be_be)
qed

lemma u16_be_parts [simp]: "u16_be (of_nat (unat w div 256)) (of_nat (unat w)) = w"
  using u16_be_be16 [of w] by (simp add: be16_eq)

lemma be16_u16_be [byte_simps]: "be16 (u16_be a b) = [a, b]"
proof -
  have "to_be 2 (from_be [a, b]) = [a, b]" by (rule to_be_from_be) simp
  moreover have "unat (u16_be a b) = from_be [a, b]" by (simp add: unat_u16_be from_be_two)
  ultimately show ?thesis by (simp add: be16_def)
qed

lemma be16_inject [simp]: "be16 v = be16 w \<longleftrightarrow> v = w"
  by (metis u16_be_be16)

section \<open>Interface: a self-delimiting byte codec\<close>

text \<open>
  An encoder whose output a decoder takes off the front of any input, leaving the rest. A client
  may then lay values end to end and read them back one by one, whatever follows them.
\<close>

fun dec_many :: "(bytes \<Rightarrow> ('a \<times> bytes) option) \<Rightarrow> nat \<Rightarrow> bytes \<Rightarrow> ('a list \<times> bytes) option" where
  "dec_many dec 0 bs = Some ([], bs)"
| "dec_many dec (Suc n) bs =
     (case dec bs of None \<Rightarrow> None
      | Some (x, rest) \<Rightarrow> map_option (\<lambda>(xs, r). (x # xs, r)) (dec_many dec n rest))"

locale codec =
  fixes enc :: "'a \<Rightarrow> bytes" and dec :: "bytes \<Rightarrow> ('a \<times> bytes) option" and valid :: "'a \<Rightarrow> bool"
  assumes dec_enc: "valid x \<Longrightarrow> dec (enc x @ rest) = Some (x, rest)"
begin

lemma prefix_free:
  assumes "valid x" "valid y" "enc x @ r = enc y @ s"
  shows "x = y \<and> r = s"
proof -
  have "Some (x, r) = Some (y, s)"
    unfolding dec_enc [OF assms(1), symmetric] dec_enc [OF assms(2), symmetric] assms(3) ..
  then show ?thesis by simp
qed

lemma many:
  "list_all valid xs \<Longrightarrow> dec_many dec (length xs) (concat (map enc xs) @ rest) = Some (xs, rest)"
  by (induction xs) (auto simp: dec_enc)

lemma enc_inj: "valid x \<Longrightarrow> valid y \<Longrightarrow> enc x = enc y \<Longrightarrow> x = y"
  using prefix_free [of x y "[]" "[]"] by simp

end

text \<open>A codec whose decoder can run on a growing buffer: more input does not change what it has
  already recognised, and each item takes bytes. \<open>dec_all\<close> takes every complete item off a
  buffer and returns the unfinished rest.\<close>

function dec_all :: "(bytes \<Rightarrow> ('a \<times> bytes) option) \<Rightarrow> bytes \<Rightarrow> 'a list \<times> bytes" where
  "dec_all dec bs = (case dec bs of
     Some (x, r) \<Rightarrow>
       if length r < length bs then (let (xs, s) = dec_all dec r in (x # xs, s)) else ([], bs)
   | None \<Rightarrow> ([], bs))"
  by pat_completeness auto
termination
  by (relation "measure (\<lambda>(_, bs). length bs)") auto

declare dec_all.simps [simp del]

locale stream_codec = codec +
  assumes dec_more: "dec bs = Some (x, r) \<Longrightarrow> dec (bs @ y) = Some (x, r @ y)"
      and dec_less: "dec bs = Some (x, r) \<Longrightarrow> length r < length bs"
begin

lemma dec_all_None: "dec bs = None \<Longrightarrow> dec_all dec bs = ([], bs)"
  by (simp add: dec_all.simps)

lemma dec_all_Some:
  "dec bs = Some (x, r) \<Longrightarrow> dec_all dec bs = (x # fst (dec_all dec r), snd (dec_all dec r))"
  by (subst dec_all.simps) (simp add: dec_less split_beta Let_def)

lemma unfinished: "valid x \<Longrightarrow> enc x = p @ y \<Longrightarrow> y \<noteq> [] \<Longrightarrow> dec p = None"
  using dec_enc [of x "[]"] dec_more [of p _ _ y] by (cases "dec p") auto

lemma dec_all_rest: "dec (snd (dec_all dec bs)) = None"
proof (induction bs rule: measure_induct_rule [of length])
  case (less bs)
  show ?case
  proof (cases "dec bs")
    case (Some a)
    then show ?thesis using less [of "snd a"] by (cases a) (simp add: dec_all_Some dec_less)
  qed (simp add: dec_all_None)
qed

lemma dec_all_more:
  "dec_all dec (bs @ y) =
     (fst (dec_all dec bs) @ fst (dec_all dec (snd (dec_all dec bs) @ y)),
      snd (dec_all dec (snd (dec_all dec bs) @ y)))"
proof (induction bs rule: measure_induct_rule [of length])
  case (less bs)
  show ?case
  proof (cases "dec bs")
    case (Some a)
    then show ?thesis
      using less [of "snd a"] by (cases a) (simp add: dec_all_Some dec_less dec_more)
  qed (simp add: dec_all_None)
qed

lemma dec_all_encoded:
  "list_all valid xs \<Longrightarrow>
     dec_all dec (concat (map enc xs) @ r) = (xs @ fst (dec_all dec r), snd (dec_all dec r))"
  by (induction xs) (simp_all add: dec_all_Some dec_enc)

lemma residue:
  assumes "list_all valid xs" "bs @ y = concat (map enc xs)"
  shows "snd (dec_all dec bs) = [] \<or> (\<exists>x \<in> set xs. length (snd (dec_all dec bs)) < length (enc x))"
  using assms
proof (induction xs arbitrary: bs)
  case Nil
  then have "bs = []" by simp
  then show ?case by (cases "dec []") (auto simp: dec_all_None dest: dec_less)
next
  case (Cons x xs)
  then have v: "valid x" and e: "bs @ y = enc x @ concat (map enc xs)" by auto
  then obtain p where p: "bs = enc x @ p \<and> p @ y = concat (map enc xs) \<or>
      enc x = bs @ p \<and> y = p @ concat (map enc xs)"
    using append_eq_append_conv2 [of bs y "enc x"] by metis
  then consider "enc x = bs @ p" "p \<noteq> []" | q where "bs = enc x @ q" "q @ y = concat (map enc xs)"
    by (cases "p = []") auto
  then show ?case
  proof cases
    case 1
    then show ?thesis using unfinished [OF v] by (simp add: dec_all_None)
  next
    case 2
    then show ?thesis using Cons dec_enc [OF v] by (auto simp: dec_all_Some)
  qed
qed

end

section \<open>Interface: a state machine with an invariant\<close>

fun run_all :: "('s \<Rightarrow> 'i \<Rightarrow> 's \<times> 'o list) \<Rightarrow> 's \<Rightarrow> 'i list \<Rightarrow> 's \<times> 'o list" where
  "run_all step s [] = (s, [])"
| "run_all step s (i # is) =
     (let (s', out) = step s i; (s'', outs) = run_all step s' is in (s'', out @ outs))"

lemma run_all_append:
  "run_all step s (is @ js) =
     (let (s', out) = run_all step s is; (s'', outs) = run_all step s' js in (s'', out @ outs))"
  by (induction "is" arbitrary: s) (auto simp: Let_def split_beta)

locale machine =
  fixes step :: "'s \<Rightarrow> 'i \<Rightarrow> 's \<times> 'o list" and inv :: "'s \<Rightarrow> bool" and good :: "'o \<Rightarrow> bool"
  assumes step_inv: "inv s \<Longrightarrow> inv (fst (step s i))"
      and step_good: "inv s \<Longrightarrow> out \<in> set (snd (step s i)) \<Longrightarrow> good out"
begin

lemma run_inv: "inv s \<Longrightarrow> inv (fst (run_all step s is))"
  by (induction "is" arbitrary: s) (auto simp: Let_def split_beta step_inv)

lemma run_good: "inv s \<Longrightarrow> out \<in> set (snd (run_all step s is)) \<Longrightarrow> good out"
proof (induction "is" arbitrary: s)
  case Nil
  then show ?case by simp
next
  case (Cons i "is")
  then show ?case
    using step_good [OF Cons.prems(1)] step_inv [OF Cons.prems(1)]
    by (auto simp: Let_def split_beta)
qed

lemma run_from:
  "inv s \<Longrightarrow> out \<in> set (snd (run_all step s is)) \<Longrightarrow> \<exists>s' i. inv s' \<and> i \<in> set is \<and> out \<in> set (snd (step s' i))"
proof (induction "is" arbitrary: s)
  case Nil
  then show ?case by simp
next
  case (Cons i "is")
  show ?case
  proof (cases "out \<in> set (snd (step s i))")
    case True
    then show ?thesis using Cons.prems(1) by auto
  next
    case False
    then have "out \<in> set (snd (run_all step (fst (step s i)) is))"
      using Cons.prems(2) by (auto simp: Let_def split_beta)
    then show ?thesis using Cons.IH [OF step_inv [OF Cons.prems(1)]] by fastforce
  qed
qed

end

end
