(* ===== verification/RustStd.thy ===== *)
theory RustStd
  imports Prelude "HOL-Library.Sublist"
begin

text \<open>
  The part of the Rust standard library the sources call on strings and numbers. A \<^verbatim>\<open>str\<close> is
  its UTF-8 bytes, as in Rust, so \<^verbatim>\<open>len\<close>, \<^verbatim>\<open>as_bytes\<close> and the searches for ASCII characters and
  for substrings are byte-wise and exact. White space is Unicode's \<^verbatim>\<open>White_Space\<close> set, whose
  members have encodings of one to three bytes. Lower-casing of a string with non-ASCII
  characters rests on the Unicode tables, which are a parameter (\<open>ul\<close>); on ASCII strings it is
  computed here.
\<close>

section \<open>Characters\<close>

type_synonym str = bytes

definition lit :: "string \<Rightarrow> str" where
  "lit s = map of_char s"

definition is_ascii :: "str \<Rightarrow> bool" where
  "is_ascii s \<longleftrightarrow> list_all (\<lambda>b. b < 128) s"

definition is_digit :: "u8 \<Rightarrow> bool" where
  "is_digit b \<longleftrightarrow> 48 \<le> b \<and> b \<le> 57"

definition is_upper :: "u8 \<Rightarrow> bool" where
  "is_upper b \<longleftrightarrow> 65 \<le> b \<and> b \<le> 90"

definition is_lower :: "u8 \<Rightarrow> bool" where
  "is_lower b \<longleftrightarrow> 97 \<le> b \<and> b \<le> 122"

definition is_alnum :: "u8 \<Rightarrow> bool" where
  "is_alnum b \<longleftrightarrow> is_digit b \<or> is_upper b \<or> is_lower b"

definition is_hexdigit :: "u8 \<Rightarrow> bool" where
  "is_hexdigit b \<longleftrightarrow> is_digit b \<or> (65 \<le> b \<and> b \<le> 70) \<or> (97 \<le> b \<and> b \<le> 102)"

definition lower :: "u8 \<Rightarrow> u8" where
  "lower b = (if is_upper b then b + 32 else b)"

definition upper :: "u8 \<Rightarrow> u8" where
  "upper b = (if is_lower b then b - 32 else b)"

definition eq_ignore_ascii_case :: "str \<Rightarrow> str \<Rightarrow> bool" where
  "eq_ignore_ascii_case a b \<longleftrightarrow> map lower a = map lower b"

definition to_lowercase :: "(str \<Rightarrow> str) \<Rightarrow> str \<Rightarrow> str" where
  "to_lowercase ul s = (if is_ascii s then map lower s else ul s)"

section \<open>White space and trimming\<close>

definition ascii_ws :: "u8 \<Rightarrow> bool" where
  "ascii_ws b \<longleftrightarrow> (9 \<le> b \<and> b \<le> 13) \<or> b = 32"

definition ws2 :: "u8 \<Rightarrow> u8 \<Rightarrow> bool" where
  "ws2 a b \<longleftrightarrow> a = 0xC2 \<and> (b = 0x85 \<or> b = 0xA0)"

definition ws3 :: "u8 \<Rightarrow> u8 \<Rightarrow> u8 \<Rightarrow> bool" where
  "ws3 a b c \<longleftrightarrow>
     (a = 0xE1 \<and> b = 0x9A \<and> c = 0x80) \<or>
     (a = 0xE2 \<and> b = 0x80 \<and> ((0x80 \<le> c \<and> c \<le> 0x8A) \<or> c = 0xA8 \<or> c = 0xA9 \<or> c = 0xAF)) \<or>
     (a = 0xE2 \<and> b = 0x81 \<and> c = 0x9F) \<or>
     (a = 0xE3 \<and> b = 0x80 \<and> c = 0x80)"

text \<open>The bytes taken by a white space character at the front of a string, 0 if there is none;
  \<open>ws_end\<close> reads a reversed string.\<close>

fun ws_front :: "str \<Rightarrow> nat" where
  "ws_front [] = 0"
| "ws_front [a] = (if ascii_ws a then 1 else 0)"
| "ws_front [a, b] = (if ascii_ws a then 1 else if ws2 a b then 2 else 0)"
| "ws_front (a # b # c # s) =
     (if ascii_ws a then 1 else if ws2 a b then 2 else if ws3 a b c then 3 else 0)"

fun ws_end :: "str \<Rightarrow> nat" where
  "ws_end [] = 0"
| "ws_end [a] = (if ascii_ws a then 1 else 0)"
| "ws_end [b, a] = (if ascii_ws b then 1 else if ws2 a b then 2 else 0)"
| "ws_end (c # b # a # s) =
     (if ascii_ws c then 1 else if ws2 b c then 2 else if ws3 a b c then 3 else 0)"

function strip :: "(str \<Rightarrow> nat) \<Rightarrow> str \<Rightarrow> str" where
  "strip w s = (if s = [] \<or> w s = 0 then s else strip w (drop (w s) s))"
  by pat_completeness auto
termination
  by (relation "measure (\<lambda>(w, s). length s)") auto

declare strip.simps [simp del]

definition trim_start :: "str \<Rightarrow> str" where
  "trim_start s = strip ws_front s"

definition trim_end :: "str \<Rightarrow> str" where
  "trim_end s = rev (strip ws_end (rev s))"

definition trim :: "str \<Rightarrow> str" where
  "trim s = trim_end (trim_start s)"

text \<open>\<^verbatim>\<open>trim_start_matches(c)\<close> and \<^verbatim>\<open>trim_end_matches(c)\<close> for an ASCII character.\<close>

definition trim_start_matches :: "u8 \<Rightarrow> str \<Rightarrow> str" where
  "trim_start_matches c s = dropWhile (\<lambda>b. b = c) s"

definition trim_end_matches :: "u8 \<Rightarrow> str \<Rightarrow> str" where
  "trim_end_matches c s = rev (dropWhile (\<lambda>b. b = c) (rev s))"

section \<open>Searching and splitting\<close>

definition starts_with :: "str \<Rightarrow> str \<Rightarrow> bool" where
  "starts_with s p \<longleftrightarrow> take (length p) s = p"

definition ends_with :: "str \<Rightarrow> str \<Rightarrow> bool" where
  "ends_with s p \<longleftrightarrow> length p \<le> length s \<and> drop (length s - length p) s = p"

definition strip_prefix :: "str \<Rightarrow> str \<Rightarrow> str option" where
  "strip_prefix s p = (if starts_with s p then Some (drop (length p) s) else None)"

definition strip_suffix :: "str \<Rightarrow> str \<Rightarrow> str option" where
  "strip_suffix s p = (if ends_with s p then Some (take (length s - length p) s) else None)"

fun find_sub :: "str \<Rightarrow> str \<Rightarrow> nat option" where
  "find_sub p [] = (if p = [] then Some 0 else None)"
| "find_sub p (b # s) =
     (if starts_with (b # s) p then Some 0 else map_option Suc (find_sub p s))"

definition contains :: "str \<Rightarrow> str \<Rightarrow> bool" where
  "contains s p \<longleftrightarrow> find_sub p s \<noteq> None"

text \<open>\<^verbatim>\<open>split\<close> on the ASCII characters a predicate accepts: always at least one piece.\<close>

fun split_by :: "(u8 \<Rightarrow> bool) \<Rightarrow> str \<Rightarrow> str list" where
  "split_by p [] = [[]]"
| "split_by p (b # s) =
     (if p b then [] # split_by p s
      else (case split_by p s of [] \<Rightarrow> [[b]] | w # ws \<Rightarrow> (b # w) # ws))"

abbreviation split_on :: "u8 \<Rightarrow> str \<Rightarrow> str list" where
  "split_on c \<equiv> split_by (\<lambda>b. b = c)"

text \<open>\<^verbatim>\<open>split\<close> on a non-empty string.\<close>

function split_str :: "str \<Rightarrow> str \<Rightarrow> str list" where
  "split_str p s = (case find_sub p s of
     None \<Rightarrow> [s]
   | Some i \<Rightarrow> if p = [] \<or> s = [] then [s] else take i s # split_str p (drop (i + length p) s))"
  by pat_completeness auto
termination
  by (relation "measure (\<lambda>(p, s). length s)") auto

declare split_str.simps [simp del]

fun split_once :: "u8 \<Rightarrow> str \<Rightarrow> (str \<times> str) option" where
  "split_once c [] = None"
| "split_once c (b # s) =
     (if b = c then Some ([], s) else map_option (\<lambda>(x, y). (b # x, y)) (split_once c s))"

definition rsplit_once :: "u8 \<Rightarrow> str \<Rightarrow> (str \<times> str) option" where
  "rsplit_once c s = map_option (\<lambda>(x, y). (rev y, rev x)) (split_once c (rev s))"

text \<open>\<^verbatim>\<open>lines\<close>: split on newlines, a final newline opens no line, a carriage return before the
  newline is dropped (and only there: an unterminated last line keeps its own).\<close>

definition chomp :: "str \<Rightarrow> str" where
  "chomp l = (if l \<noteq> [] \<and> last l = 13 then butlast l else l)"

definition lines :: "str \<Rightarrow> str list" where
  "lines s = (let ps = split_on 10 s
     in map chomp (butlast ps) @ (if last ps = [] then [] else [last ps]))"

fun split_ws_acc :: "nat \<Rightarrow> str \<Rightarrow> str \<Rightarrow> str list" where
  "split_ws_acc 0 acc s = []"
| "split_ws_acc (Suc n) acc [] = (if acc = [] then [] else [acc])"
| "split_ws_acc (Suc n) acc (b # s) =
     (if ws_front (b # s) = 0 then split_ws_acc n (acc @ [b]) s
      else (if acc = [] then [] else [acc]) @ split_ws_acc n [] (drop (ws_front (b # s)) (b # s)))"

definition split_whitespace :: "str \<Rightarrow> str list" where
  "split_whitespace s = split_ws_acc (Suc (length s)) [] s"

section \<open>Numbers\<close>

text \<open>\<^verbatim>\<open>parse::<uN>()\<close> and \<^verbatim>\<open>from_str_radix\<close>: an optional plus sign, then one or more digits,
  with a value that fits.\<close>

definition digit_val :: "nat \<Rightarrow> u8 \<Rightarrow> nat option" where
  "digit_val radix b =
     (let v = (if is_digit b then unat b - 48
               else if 97 \<le> b \<and> b \<le> 122 then unat b - 87
               else if 65 \<le> b \<and> b \<le> 90 then unat b - 55 else 255)
      in if v < radix then Some v else None)"

fun digits_val :: "nat \<Rightarrow> nat \<Rightarrow> str \<Rightarrow> nat option" where
  "digits_val radix acc [] = Some acc"
| "digits_val radix acc (b # s) =
     (case digit_val radix b of None \<Rightarrow> None | Some d \<Rightarrow> digits_val radix (acc * radix + d) s)"

definition parse_radix :: "nat \<Rightarrow> nat \<Rightarrow> str \<Rightarrow> nat option" where
  "parse_radix radix bits s =
     (let d = (case s of [] \<Rightarrow> [] | b # r \<Rightarrow> if b = 43 then r else s)
      in if d = [] then None
         else case digits_val radix 0 d of None \<Rightarrow> None
              | Some v \<Rightarrow> if v < 2 ^ bits then Some v else None)"

definition parse_u16 :: "str \<Rightarrow> u16 option" where
  "parse_u16 s = map_option of_nat (parse_radix 10 16 s)"

definition parse_u8 :: "str \<Rightarrow> u8 option" where
  "parse_u8 s = map_option of_nat (parse_radix 10 8 s)"

text \<open>\<^verbatim>\<open>to_string\<close> of an unsigned number.\<close>

fun show_nat :: "nat \<Rightarrow> str" where
  "show_nat n = (if n < 10 then [of_nat (48 + n)] else show_nat (n div 10) @ [of_nat (48 + n mod 10)])"

declare show_nat.simps [simp del]

section \<open>UTF-8\<close>

text \<open>
  One step of the standard library's decoder at the front of a non-empty string: how many bytes
  it takes and whether they are a character. Bytes that are none are taken as the longest
  prefix of a character there is, at least one, as \<^verbatim>\<open>from_utf8_lossy\<close> replaces them.
\<close>

definition cont :: "u8 \<Rightarrow> bool" where
  "cont b \<longleftrightarrow> 0x80 \<le> b \<and> b \<le> 0xBF"

definition second3 :: "u8 \<Rightarrow> u8 \<Rightarrow> bool" where
  "second3 a b \<longleftrightarrow>
     (if a = 0xE0 then 0xA0 \<le> b \<and> b \<le> 0xBF
      else if a = 0xED then 0x80 \<le> b \<and> b \<le> 0x9F else cont b)"

definition second4 :: "u8 \<Rightarrow> u8 \<Rightarrow> bool" where
  "second4 a b \<longleftrightarrow>
     (if a = 0xF0 then 0x90 \<le> b \<and> b \<le> 0xBF
      else if a = 0xF4 then 0x80 \<le> b \<and> b \<le> 0x8F else cont b)"

definition utf8_step :: "bytes \<Rightarrow> nat \<times> bool" where
  "utf8_step bs =
     (let a = bs ! 0 in
      if a < 0x80 then (1, True)
      else if 0xC2 \<le> a \<and> a \<le> 0xDF then
        (if 1 < length bs \<and> cont (bs ! 1) then (2, True) else (1, False))
      else if 0xE0 \<le> a \<and> a \<le> 0xEF then
        (if \<not> (1 < length bs \<and> second3 a (bs ! 1)) then (1, False)
         else if \<not> (2 < length bs \<and> cont (bs ! 2)) then (2, False) else (3, True))
      else if 0xF0 \<le> a \<and> a \<le> 0xF4 then
        (if \<not> (1 < length bs \<and> second4 a (bs ! 1)) then (1, False)
         else if \<not> (2 < length bs \<and> cont (bs ! 2)) then (2, False)
         else if \<not> (3 < length bs \<and> cont (bs ! 3)) then (3, False) else (4, True))
      else (1, False))"

function utf8_lossy :: "bytes \<Rightarrow> str" where
  "utf8_lossy bs =
     (if bs = [] then []
      else let (n, ok) = utf8_step bs
           in (if ok then take n bs else [0xEF, 0xBF, 0xBD]) @ utf8_lossy (drop n bs))"
  by pat_completeness auto
termination
  by (relation "measure length") (auto simp: utf8_step_def Let_def split: if_splits)

function utf8_valid :: "bytes \<Rightarrow> bool" where
  "utf8_valid bs =
     (if bs = [] then True
      else let (n, ok) = utf8_step bs in if ok then utf8_valid (drop n bs) else False)"
  by pat_completeness auto
termination
  by (relation "measure length") (auto simp: utf8_step_def Let_def split: if_splits)

declare utf8_lossy.simps [simp del] utf8_valid.simps [simp del]

definition from_utf8 :: "bytes \<Rightarrow> str option" where
  "from_utf8 bs = (if utf8_valid bs then Some bs else None)"

section \<open>Lemmas: splitting and trimming\<close>

lemma split_by_nonempty [simp]: "split_by p s \<noteq> []"
  by (induction s) (auto split: list.splits)

lemma split_by_append: "p c \<Longrightarrow> split_by p (a @ c # b) = split_by p a @ split_by p b"
  by (induction a) (auto split: list.splits)

lemma split_by_none: "\<not> list_ex p s \<Longrightarrow> split_by p s = [s]"
  by (induction s) auto

fun join :: "u8 \<Rightarrow> str list \<Rightarrow> str" where
  "join c [] = []"
| "join c [w] = w"
| "join c (w # ws) = w @ c # join c ws"

lemma join_Cons: "ws \<noteq> [] \<Longrightarrow> join c (w # ws) = w @ c # join c ws"
  by (cases ws) auto

lemma join_append: "xs \<noteq> [] \<Longrightarrow> ys \<noteq> [] \<Longrightarrow> join c (xs @ ys) = join c xs @ c # join c ys"
proof (induction xs)
  case (Cons x xs)
  then show ?case by (cases "xs = []") (simp_all add: join_Cons)
qed simp

lemma join_split: "join c (split_on c s) = s"
proof (induction s)
  case (Cons b s)
  obtain w ws where w: "split_on c s = w # ws" using split_by_nonempty by (metis list.exhaust)
  show ?case using Cons w by (cases "ws = []") (auto simp: join_Cons)
qed simp

text \<open>A dot-separated name ends with another at a dot, or is it, exactly when its labels end with the
  other's labels.\<close>

lemma labels_suffix:
  "name = sfx \<or> ends_with name (c # sfx) \<longleftrightarrow> suffix (split_on c sfx) (split_on c name)"
proof
  assume "name = sfx \<or> ends_with name (c # sfx)"
  then consider "name = sfx" | a where "name = a @ c # sfx"
    by (metis append_take_drop_id ends_with_def)
  then show "suffix (split_on c sfx) (split_on c name)"
    by cases (auto simp: split_by_append suffix_def)
next
  assume "suffix (split_on c sfx) (split_on c name)"
  then obtain xs where xs: "split_on c name = xs @ split_on c sfx" by (auto simp: suffix_def)
  show "name = sfx \<or> ends_with name (c # sfx)"
  proof (cases "xs = []")
    case True
    then show ?thesis using xs join_split by (metis append_Nil)
  next
    case False
    then have "name = join c xs @ c # sfx" using xs join_append join_split by (metis split_by_nonempty)
    then show ?thesis by (simp add: ends_with_def)
  qed
qed

definition visible :: "u8 \<Rightarrow> bool" where
  "visible b \<longleftrightarrow> b < 128 \<and> \<not> ascii_ws b"

lemma visible_ws:
  assumes "visible x"
  shows "\<not> ascii_ws x" "\<not> ws2 x y" "\<not> ws2 y x" "\<not> ws3 x y z" "\<not> ws3 y z x"
proof -
  have "x \<noteq> 0xC2" "x \<noteq> 0x85" "x \<noteq> 0xA0" "x \<noteq> 0xE1" "x \<noteq> 0xE2" "x \<noteq> 0xE3" "\<not> 0x80 \<le> x" "\<not> ascii_ws x"
    using assms by (auto simp: visible_def)
  moreover from this have "x \<noteq> 0xA8" "x \<noteq> 0xA9" "x \<noteq> 0xAF" "x \<noteq> 0x9F" "x \<noteq> 0x80" by auto
  ultimately show "\<not> ascii_ws x" "\<not> ws2 x y" "\<not> ws2 y x" "\<not> ws3 x y z" "\<not> ws3 y z x"
    by (simp_all add: ws2_def ws3_def)
qed

lemma ws_front_visible: "s \<noteq> [] \<Longrightarrow> visible (hd s) \<Longrightarrow> ws_front s = 0"
  by (cases s rule: ws_front.cases) (simp_all add: visible_ws)

lemma ws_end_visible: "s \<noteq> [] \<Longrightarrow> visible (hd s) \<Longrightarrow> ws_end s = 0"
  by (cases s rule: ws_end.cases) (simp_all add: visible_ws)

lemma trim_visible: "s \<noteq> [] \<Longrightarrow> visible (hd s) \<Longrightarrow> visible (last s) \<Longrightarrow> trim s = s"
  using ws_end_visible [of "rev s"]
  by (simp add: trim_def trim_start_def trim_end_def strip.simps ws_front_visible hd_rev)

section \<open>Lemmas: searching\<close>

lemma find_sub_Some:
  "p \<noteq> [] \<Longrightarrow> find_sub p s = Some n \<longleftrightarrow> starts_with (drop n s) p \<and> (\<forall>m < n. \<not> starts_with (drop m s) p)"
proof (induction s arbitrary: n)
  case Nil
  then show ?case by (simp add: starts_with_def)
next
  case (Cons b s)
  show ?case
  proof (cases n)
    case 0
    then show ?thesis by auto
  next
    case (Suc k)
    have "(\<forall>m < Suc k. \<not> starts_with (drop m (b # s)) p) \<longleftrightarrow>
        \<not> starts_with (b # s) p \<and> (\<forall>m < k. \<not> starts_with (drop m s) p)"
      by (auto simp: less_Suc_eq_0_disj)
    then show ?thesis using Cons Suc by auto
  qed
qed

lemma find_sub_None: "p \<noteq> [] \<Longrightarrow> find_sub p s = None \<longleftrightarrow> (\<forall>m. \<not> starts_with (drop m s) p)"
proof (induction s)
  case Nil
  then show ?case by (auto simp: starts_with_def)
next
  case (Cons b s)
  have "(\<forall>m. \<not> starts_with (drop m (b # s)) p) \<longleftrightarrow> \<not> starts_with (b # s) p \<and> (\<forall>m. \<not> starts_with (drop m s) p)"
    by (metis drop0 drop_Suc_Cons not0_implies_Suc)
  then show ?case using Cons by auto
qed

lemma starts_with_length: "starts_with s p \<Longrightarrow> length p \<le> length s"
  unfolding starts_with_def by (metis length_take min.cobounded1 min.commute)

lemma starts_with_append: "length p \<le> length s \<Longrightarrow> starts_with (s @ t) p = starts_with s p"
  by (simp add: starts_with_def)

lemma find_sub_drop: "p \<noteq> [] \<Longrightarrow> find_sub p s = None \<Longrightarrow> find_sub p (drop k s) = None"
  by (simp add: find_sub_None)

lemma find_sub_front:
  assumes "p \<noteq> []" "find_sub p (s @ t) = None"
  shows "find_sub p s = None"
  unfolding find_sub_None [OF assms(1)]
proof (intro allI notI)
  fix m
  assume m: "starts_with (drop m s) p"
  then have l: "length p \<le> length (drop m s)" by (rule starts_with_length)
  then have "starts_with (drop m s @ drop (m - length s) t) p" using m by (simp add: starts_with_append)
  then show False using assms by (simp add: find_sub_None)
qed

text \<open>Searching only behind what has been searched is searching everything.\<close>

lemma find_sub_skip:
  assumes p: "p \<noteq> []" and before: "\<And>m. m < k \<Longrightarrow> \<not> starts_with (drop m s) p"
  shows "find_sub p s = map_option ((+) k) (find_sub p (drop k s))"
proof (cases "find_sub p (drop k s)")
  case None
  then have later: "\<not> starts_with (drop (m + k) s) p" for m using p by (simp add: find_sub_None)
  have "\<not> starts_with (drop m s) p" for m
    using later [of "m - k"] before [of m] by (cases "m < k") auto
  then have "find_sub p s = None" using p by (simp add: find_sub_None)
  then show ?thesis using None by simp
next
  case (Some n)
  then have hit: "starts_with (drop (n + k) s) p" and later: "\<And>m. m < n \<Longrightarrow> \<not> starts_with (drop (m + k) s) p"
    using p by (auto simp: find_sub_Some)
  have "\<not> starts_with (drop m s) p" if "m < k + n" for m
    using that later [of "m - k"] before [of m] by (cases "m < k") auto
  then have "find_sub p s = Some (k + n)" using hit p by (simp add: find_sub_Some add.commute)
  then show ?thesis using Some by simp
qed

lemma find_sub_resume:
  assumes "p \<noteq> []" "find_sub p buf = None"
  shows "find_sub p (buf @ c) = map_option ((+) (length buf - (length p - 1))) (find_sub p (drop (length buf - (length p - 1)) (buf @ c)))"
proof (rule find_sub_skip [OF assms(1)])
  fix m
  assume "m < length buf - (length p - 1)"
  then have "length p \<le> length (drop m buf)" "m < length buf" using assms(1) by (cases p; auto)+
  then show "\<not> starts_with (drop m (buf @ c)) p"
    using assms by (simp add: find_sub_None starts_with_append)
qed

lemma find_sub_prefix:
  assumes "p \<noteq> []" "find_sub p (s @ t) = Some n" "n + length p \<le> length s"
  shows "find_sub p s = Some n"
  using assms starts_with_append [of p "drop m s" t for m]
  by (auto simp: find_sub_Some)

lemma find_sub_before:
  assumes "p \<noteq> []" "find_sub p (s @ t) = Some n" "length s < n + length p"
  shows "find_sub p s = None"
  unfolding find_sub_None [OF assms(1)]
proof (intro allI notI)
  fix m
  assume m: "starts_with (drop m s) p"
  then have l: "length p \<le> length (drop m s)" by (rule starts_with_length)
  then have "starts_with (drop m (s @ t)) p" using m assms(1) by (auto simp: starts_with_append)
  moreover have "m < n" using l assms(1,3) by (cases p) auto
  ultimately show False using assms(1,2) by (auto simp: find_sub_Some)
qed

lemma find_sub_at: "p \<noteq> [] \<Longrightarrow> hd p \<notin> set a \<Longrightarrow> find_sub p (a @ p @ b) = Some (length a)"
proof (induction a)
  case Nil
  then show ?case by (cases p) (simp_all add: starts_with_def)
next
  case (Cons c a)
  then show ?case by (cases p) (auto simp: starts_with_def)
qed

lemma ends_with_append: "ends_with (a @ p) p"
  by (simp add: ends_with_def)

lemma split_once_at: "c \<notin> set a \<Longrightarrow> split_once c (a @ c # b) = Some (a, b)"
  by (induction a) auto

lemma split_once_absent: "c \<notin> set a \<Longrightarrow> split_once c a = None"
  by (induction a) auto

lemma rsplit_once_at: "c \<notin> set b \<Longrightarrow> rsplit_once c (a @ c # b) = Some (a, b)"
  using split_once_at [of c "rev b" "rev a"] by (simp add: rsplit_once_def)

lemma rsplit_once_absent: "c \<notin> set a \<Longrightarrow> rsplit_once c a = None"
  by (simp add: rsplit_once_def split_once_absent)

lemma trim_end_matches_keep: "s \<noteq> [] \<Longrightarrow> last s \<noteq> c \<Longrightarrow> trim_end_matches c s = s"
  by (cases s rule: rev_cases) (simp_all add: trim_end_matches_def)

lemma split_ws_word:
  "list_all visible u \<Longrightarrow> split_ws_acc (length u + n) acc (u @ s) = split_ws_acc n (acc @ u) s"
  by (induction u arbitrary: acc) (simp_all add: ws_front_visible)

lemma ws_front_space: "ws_front (32 # s) = 1"
  by (cases "32 # s" rule: ws_front.cases) (simp_all add: ascii_ws_def)

lemma split_ws_words:
  assumes "list_all visible a" "list_all visible b" "list_all visible c" "a \<noteq> []" "b \<noteq> []" "c \<noteq> []"
  shows "split_whitespace (a @ [32] @ b @ [32] @ c) = [a, b, c]"
proof -
  have n: "Suc (length (a @ [32] @ b @ [32] @ c)) = length a + Suc (length b + Suc (length c + 1))" by simp
  have c: "split_ws_acc (length c + 1) [] c = [c]"
    using split_ws_word [OF assms(3), of 1 "[]" "[]"] assms(6) by simp
  have b: "split_ws_acc (length b + Suc (length c + 1)) [] (b @ 32 # c) = [b, c]"
    unfolding split_ws_word [OF assms(2)] using assms(5) c by (simp add: ws_front_space)
  show ?thesis
    unfolding split_whitespace_def n split_ws_word [OF assms(1)]
    using assms(4) b by (simp add: ws_front_space)
qed

lemma lines_first: "10 \<notin> set l \<Longrightarrow> 13 \<notin> set l \<Longrightarrow> \<exists>ls. lines (l @ [13, 10] @ r) = l # ls"
proof -
  assume l: "10 \<notin> set l" "13 \<notin> set l"
  have "split_on 10 (l @ [13, 10] @ r) = (l @ [13]) # split_on 10 r"
    using split_by_append [of "\<lambda>b. b = 10" 10 "l @ [13]" r] split_by_none [of "\<lambda>b. b = 10" "l @ [13]"] l(1)
    by (auto simp: list_ex_iff)
  then show ?thesis by (simp add: lines_def Let_def chomp_def)
qed

lemma contains_single: "contains h [c] \<longleftrightarrow> c \<in> set h"
proof (induction h)
  case (Cons b h)
  then show ?case by (auto simp: contains_def starts_with_def)
qed (simp add: contains_def)

lemma ws_front_ne:
  "ws_front s \<noteq> 0 \<longleftrightarrow> (\<exists>a t. s = a # t \<and> ascii_ws a) \<or> (\<exists>a b t. s = a # b # t \<and> ws2 a b) \<or>
     (\<exists>a b c t. s = a # b # c # t \<and> ws3 a b c)"
  by (cases s rule: ws_front.cases) auto

lemma ws_front_take: "ws_front s = 0 \<Longrightarrow> ws_front (take k s) = 0"
proof (rule ccontr)
  assume "ws_front s = 0" "ws_front (take k s) \<noteq> 0"
  then have "ws_front (take k s @ drop k s) \<noteq> 0" unfolding ws_front_ne by (metis append_Cons)
  then show False using \<open>ws_front s = 0\<close> by simp
qed

lemma strip_zero: "strip f s = [] \<or> f (strip f s) = 0"
  by (induction f s rule: strip.induct) (subst (1 2) strip.simps, auto)

lemma strip_fix: "s = [] \<or> f s = 0 \<Longrightarrow> strip f s = s"
  by (simp add: strip.simps)

lemma strip_drop: "\<exists>k. strip f s = drop k s"
proof (induction f s rule: strip.induct)
  case (1 f s)
  show ?case
  proof (cases "s = [] \<or> f s = 0")
    case True
    then show ?thesis by (intro exI [of _ 0]) (simp add: strip.simps)
  next
    case False
    then obtain k where "strip f (drop (f s) s) = drop k (drop (f s) s)" using 1 by auto
    then show ?thesis using False by (intro exI [of _ "k + f s"]) (simp add: strip.simps [of f s])
  qed
qed

lemma trim_idem: "trim (trim s) = trim s"
proof -
  let ?t = "trim_start s"
  obtain k where "strip ws_end (rev ?t) = drop k (rev ?t)" using strip_drop by blast
  then have "trim s = take (length ?t - k) ?t" by (simp add: trim_def trim_end_def rev_drop)
  moreover have "?t = [] \<or> ws_front ?t = 0" unfolding trim_start_def by (rule strip_zero)
  ultimately have "trim s = [] \<or> ws_front (trim s) = 0" using ws_front_take by auto
  then have "trim_start (trim s) = trim s" unfolding trim_start_def by (rule strip_fix)
  moreover have "trim_end (trim s) = trim s"
    using strip_zero [of ws_end "rev ?t"] by (simp add: trim_def trim_end_def strip_fix)
  ultimately show ?thesis by (simp add: trim_def [of "trim s"])
qed

end
