(* ===== verification/Net.thy ===== *)
theory Net
  imports RustStd
begin

text \<open>
  \<^verbatim>\<open>std::net\<close> as the sources use it: addresses, the parsers behind \<^verbatim>\<open>str::parse\<close> (dotted quads
  without leading zeros, IPv6 groups with one \<^verbatim>\<open>::\<close> and an embedded IPv4 tail, socket addresses
  with scope identifiers), the textual forms, and the address classes. An address is the number
  its octets spell in network order.
\<close>

section \<open>Addresses\<close>

datatype ip_addr = V4 u32 | V6 u128

datatype socket_addr = SockV4 u32 u16 | SockV6 u128 u16 u32 u32

definition octets4 :: "u32 \<Rightarrow> bytes" where "octets4 a = be32 a"
definition octets16 :: "u128 \<Rightarrow> bytes" where "octets16 a = be128 a"

definition ipv4 :: "u8 \<Rightarrow> u8 \<Rightarrow> u8 \<Rightarrow> u8 \<Rightarrow> u32" where
  "ipv4 a b c d = of_nat (from_be [a, b, c, d])"

definition v4_from :: "bytes \<Rightarrow> u32" where "v4_from bs = of_nat (from_be bs)"
definition v6_from :: "bytes \<Rightarrow> u128" where "v6_from bs = of_nat (from_be bs)"

definition socket_new :: "ip_addr \<Rightarrow> u16 \<Rightarrow> socket_addr" where
  "socket_new ip p = (case ip of V4 a \<Rightarrow> SockV4 a p | V6 a \<Rightarrow> SockV6 a p 0 0)"

definition sock_ip :: "socket_addr \<Rightarrow> ip_addr" where
  "sock_ip s = (case s of SockV4 a _ \<Rightarrow> V4 a | SockV6 a _ _ _ \<Rightarrow> V6 a)"

definition sock_port :: "socket_addr \<Rightarrow> u16" where
  "sock_port s = (case s of SockV4 _ p \<Rightarrow> p | SockV6 _ p _ _ \<Rightarrow> p)"

definition is_ipv4 :: "ip_addr \<Rightarrow> bool" where
  "is_ipv4 ip = (case ip of V4 _ \<Rightarrow> True | V6 _ \<Rightarrow> False)"

section \<open>Address classes\<close>

definition v4_is_loopback :: "u32 \<Rightarrow> bool" where "v4_is_loopback a \<longleftrightarrow> octets4 a ! 0 = 127"
definition v4_is_unspecified :: "u32 \<Rightarrow> bool" where "v4_is_unspecified a \<longleftrightarrow> a = 0"
definition v4_is_broadcast :: "u32 \<Rightarrow> bool" where "v4_is_broadcast a \<longleftrightarrow> a = 0xffffffff"
definition v4_is_link_local :: "u32 \<Rightarrow> bool" where
  "v4_is_link_local a \<longleftrightarrow> take 2 (octets4 a) = [169, 254]"
definition v4_is_multicast :: "u32 \<Rightarrow> bool" where
  "v4_is_multicast a \<longleftrightarrow> (let o0 = octets4 a ! 0 in 224 \<le> o0 \<and> o0 \<le> 239)"
definition v4_is_private :: "u32 \<Rightarrow> bool" where
  "v4_is_private a \<longleftrightarrow>
     (let o0 = octets4 a ! 0; o1 = octets4 a ! 1 in
      o0 = 10 \<or> (o0 = 172 \<and> 16 \<le> o1 \<and> o1 \<le> 31) \<or> (o0 = 192 \<and> o1 = 168))"

definition v6_is_loopback :: "u128 \<Rightarrow> bool" where "v6_is_loopback a \<longleftrightarrow> a = 1"
definition v6_is_unspecified :: "u128 \<Rightarrow> bool" where "v6_is_unspecified a \<longleftrightarrow> a = 0"
definition v6_is_multicast :: "u128 \<Rightarrow> bool" where "v6_is_multicast a \<longleftrightarrow> octets16 a ! 0 = 255"

definition ip_is_loopback :: "ip_addr \<Rightarrow> bool" where
  "ip_is_loopback ip = (case ip of V4 a \<Rightarrow> v4_is_loopback a | V6 a \<Rightarrow> v6_is_loopback a)"
definition ip_is_unspecified :: "ip_addr \<Rightarrow> bool" where
  "ip_is_unspecified ip = (case ip of V4 a \<Rightarrow> v4_is_unspecified a | V6 a \<Rightarrow> v6_is_unspecified a)"
definition ip_is_multicast :: "ip_addr \<Rightarrow> bool" where
  "ip_is_multicast ip = (case ip of V4 a \<Rightarrow> v4_is_multicast a | V6 a \<Rightarrow> v6_is_multicast a)"

section \<open>Parsing\<close>

text \<open>A parser reads at the front of a string and returns what follows.\<close>

type_synonym 'a parser = "str \<Rightarrow> ('a \<times> str) option"

fun read_digits :: "nat \<Rightarrow> str \<Rightarrow> nat list \<times> str" where
  "read_digits radix [] = ([], [])"
| "read_digits radix (b # s) = (case digit_val radix b of
     None \<Rightarrow> ([], b # s)
   | Some d \<Rightarrow> (let (ds, r) = read_digits radix s in (d # ds, r)))"

definition digits_to_nat :: "nat \<Rightarrow> nat list \<Rightarrow> nat" where
  "digits_to_nat radix ds = foldl (\<lambda>acc d. acc * radix + d) 0 ds"

text \<open>\<open>most\<close> is the digit limit, \<open>bits\<close> the width of the result, \<open>zero\<close> whether a number of more
  than one digit may start with 0.\<close>

definition read_number :: "nat \<Rightarrow> nat option \<Rightarrow> nat \<Rightarrow> bool \<Rightarrow> nat parser" where
  "read_number radix most bits zero s =
     (let (ds, r) = read_digits radix s in
      if ds = [] then None
      else if (case most of Some m \<Rightarrow> length ds > m | None \<Rightarrow> False) then None
      else if \<not> zero \<and> hd ds = 0 \<and> length ds > 1 then None
      else if digits_to_nat radix ds < 2 ^ bits then Some (digits_to_nat radix ds, r) else None)"

definition read_char :: "u8 \<Rightarrow> unit parser" where
  "read_char c s = (case s of b # r \<Rightarrow> if b = c then Some ((), r) else None | [] \<Rightarrow> None)"

definition read_separator :: "u8 \<Rightarrow> nat \<Rightarrow> 'a parser \<Rightarrow> 'a parser" where
  "read_separator sep i p s =
     (if i > 0 then (case read_char sep s of None \<Rightarrow> None | Some (_, r) \<Rightarrow> p r) else p s)"

definition read_octet :: "nat parser" where
  "read_octet = read_number 10 (Some 3) 8 False"

definition read_ipv4_addr :: "u32 parser" where
  "read_ipv4_addr s =
     (case read_octet s of None \<Rightarrow> None | Some (a, s1) \<Rightarrow>
     (case read_separator 46 1 read_octet s1 of None \<Rightarrow> None | Some (b, s2) \<Rightarrow>
     (case read_separator 46 2 read_octet s2 of None \<Rightarrow> None | Some (c, s3) \<Rightarrow>
     (case read_separator 46 3 read_octet s3 of None \<Rightarrow> None | Some (d, s4) \<Rightarrow>
     Some (ipv4 (of_nat a) (of_nat b) (of_nat c) (of_nat d), s4)))))"

text \<open>\<^verbatim>\<open>read_groups\<close> with \<open>left\<close> slots to go from slot \<open>i\<close> on: the groups read, whether an IPv4
  tail ended them, and the rest.\<close>

fun read_groups :: "nat \<Rightarrow> nat \<Rightarrow> str \<Rightarrow> u16 list \<times> bool \<times> str" where
  "read_groups 0 i s = ([], False, s)"
| "read_groups (Suc n) i s =
     (case (if n > 0 then read_separator 58 i read_ipv4_addr s else None) of
        Some (a, r) \<Rightarrow>
          ([u16_be (octets4 a ! 0) (octets4 a ! 1), u16_be (octets4 a ! 2) (octets4 a ! 3)], True, r)
      | None \<Rightarrow>
        (case read_separator 58 i (read_number 16 (Some 4) 16 True) s of
           None \<Rightarrow> ([], False, s)
         | Some (g, r) \<Rightarrow> (let (gs, v4, t) = read_groups n (Suc i) r in (of_nat g # gs, v4, t))))"

definition groups_addr :: "u16 list \<Rightarrow> u128" where
  "groups_addr gs = v6_from (concat (map be16 gs))"

definition read_ipv6_addr :: "u128 parser" where
  "read_ipv6_addr s =
     (let (head, v4, r) = read_groups 8 0 s in
      if length head = 8 then Some (groups_addr head, r)
      else if v4 then None
      else case read_char 58 r of None \<Rightarrow> None | Some (_, r1) \<Rightarrow>
        (case read_char 58 r1 of None \<Rightarrow> None | Some (_, r2) \<Rightarrow>
         let (tail, _, t) = read_groups (8 - (length head + 1)) 0 r2
         in Some (groups_addr (head @ replicate (8 - length head - length tail) 0 @ tail), t)))"

definition read_ip_addr :: "ip_addr parser" where
  "read_ip_addr s = (case read_ipv4_addr s of
     Some (a, r) \<Rightarrow> Some (V4 a, r)
   | None \<Rightarrow> (case read_ipv6_addr s of Some (a, r) \<Rightarrow> Some (V6 a, r) | None \<Rightarrow> None))"

definition read_port :: "nat parser" where
  "read_port s = (case read_char 58 s of None \<Rightarrow> None | Some (_, r) \<Rightarrow> read_number 10 None 16 True r)"

definition read_scope_id :: "nat parser" where
  "read_scope_id s = (case read_char 37 s of None \<Rightarrow> None | Some (_, r) \<Rightarrow> read_number 10 None 32 True r)"

definition read_socket_addr_v4 :: "socket_addr parser" where
  "read_socket_addr_v4 s = (case read_ipv4_addr s of None \<Rightarrow> None | Some (a, r) \<Rightarrow>
     (case read_port r of None \<Rightarrow> None | Some (p, t) \<Rightarrow> Some (SockV4 a (of_nat p), t)))"

definition read_socket_addr_v6 :: "socket_addr parser" where
  "read_socket_addr_v6 s = (case read_char 91 s of None \<Rightarrow> None | Some (_, r) \<Rightarrow>
     (case read_ipv6_addr r of None \<Rightarrow> None | Some (a, r1) \<Rightarrow>
      let (sc, r2) = (case read_scope_id r1 of Some (n, t) \<Rightarrow> (n, t) | None \<Rightarrow> (0, r1)) in
      (case read_char 93 r2 of None \<Rightarrow> None | Some (_, r3) \<Rightarrow>
       (case read_port r3 of None \<Rightarrow> None | Some (p, t) \<Rightarrow>
        Some (SockV6 a (of_nat p) 0 (of_nat sc), t)))))"

definition read_socket_addr :: "socket_addr parser" where
  "read_socket_addr s = (case read_socket_addr_v4 s of Some x \<Rightarrow> Some x | None \<Rightarrow> read_socket_addr_v6 s)"

definition parse_whole :: "'a parser \<Rightarrow> str \<Rightarrow> 'a option" where
  "parse_whole p s = (case p s of Some (x, []) \<Rightarrow> Some x | _ \<Rightarrow> None)"

definition parse_ipv4 :: "str \<Rightarrow> u32 option" where
  "parse_ipv4 s = (if length s > 15 then None else parse_whole read_ipv4_addr s)"

definition parse_ipv6 :: "str \<Rightarrow> u128 option" where "parse_ipv6 = parse_whole read_ipv6_addr"
definition parse_ip :: "str \<Rightarrow> ip_addr option" where "parse_ip = parse_whole read_ip_addr"
definition parse_socket_addr :: "str \<Rightarrow> socket_addr option" where
  "parse_socket_addr = parse_whole read_socket_addr"

section \<open>Textual forms\<close>

definition show_ipv4 :: "u32 \<Rightarrow> str" where
  "show_ipv4 a = (let o4 = octets4 a in
     show_nat (unat (o4 ! 0)) @ [46] @ show_nat (unat (o4 ! 1)) @ [46] @
     show_nat (unat (o4 ! 2)) @ [46] @ show_nat (unat (o4 ! 3)))"

section \<open>Lemmas: parsing ignores case\<close>

lemma digit_val_lower [simp]: "radix \<le> 36 \<Longrightarrow> digit_val radix (lower b) = digit_val radix b"
proof (cases "is_upper b")
  case True
  have u: "65 \<le> unat b" "unat b \<le> 90" using True by (auto simp: is_upper_def word_le_nat_alt)
  then have l: "unat (lower b) = unat b + 32" using True by (simp add: lower_def unat_word_ariths)
  then show ?thesis using u True by (simp add: digit_val_def is_digit_def word_le_nat_alt Let_def)
qed (simp add: lower_def)

lemma lower_eq_iff: "\<not> is_upper c \<Longrightarrow> \<not> is_lower c \<Longrightarrow> lower b = c \<longleftrightarrow> b = c"
proof (cases "is_upper b")
  case True
  have u: "65 \<le> unat b" "unat b \<le> 90" using True by (auto simp: is_upper_def word_le_nat_alt)
  then have l: "unat (lower b) = unat b + 32" using True by (simp add: lower_def unat_word_ariths)
  then have "is_lower (lower b)" using u by (simp add: is_lower_def word_le_nat_alt)
  then show "\<not> is_upper c \<Longrightarrow> \<not> is_lower c \<Longrightarrow> lower b = c \<longleftrightarrow> b = c" using True by auto
qed (auto simp: lower_def)

definition commutes :: "'a parser \<Rightarrow> bool" where
  "commutes p \<longleftrightarrow> (\<forall>s. p (map lower s) = map_option (apsnd (map lower)) (p s))"

lemma commutesD: "commutes p \<Longrightarrow> p (map lower s) = map_option (apsnd (map lower)) (p s)"
  by (simp add: commutes_def)

lemma read_digits_lower:
  "radix \<le> 36 \<Longrightarrow> read_digits radix (map lower s) = apsnd (map lower) (read_digits radix s)"
  by (induction s) (auto simp: split_beta Let_def split: option.splits)

lemma commutes_number: "radix \<le> 36 \<Longrightarrow> commutes (read_number radix most bits zero)"
  by (cases most) (auto simp: commutes_def read_number_def read_digits_lower Let_def split_beta)

lemma commutes_char: "\<not> is_upper c \<Longrightarrow> \<not> is_lower c \<Longrightarrow> commutes (read_char c)"
  by (auto simp: commutes_def read_char_def lower_eq_iff split: list.splits)

lemma commutes_separator: "commutes (read_char c) \<Longrightarrow> commutes p \<Longrightarrow> commutes (read_separator c i p)"
  by (auto simp: commutes_def read_separator_def split: option.splits)

lemma punct [simp]: "\<not> is_upper 46" "\<not> is_lower 46" "\<not> is_upper 58" "\<not> is_lower 58"
  by (simp_all add: is_upper_def is_lower_def)

lemma commutes_ipv4: "commutes read_ipv4_addr"
  unfolding commutes_def
  using commutesD [OF commutes_number [of 10 "Some 3" 8 False, folded read_octet_def]]
    commutesD [OF commutes_separator [OF commutes_char
      commutes_number [of 10 "Some 3" 8 False, folded read_octet_def]], of 46]
  by (auto simp: read_ipv4_addr_def split: option.splits)

lemma read_groups_lower:
  "read_groups n i (map lower s) = apsnd (apsnd (map lower)) (read_groups n i s)"
  using commutesD [OF commutes_separator [OF commutes_char commutes_ipv4], of 58]
    commutesD [OF commutes_separator [OF commutes_char commutes_number [of 16 "Some 4" 16 True]], of 58]
  by (induction n i s rule: read_groups.induct) (auto simp: Let_def split_beta split: option.splits)

lemma commutes_ipv6: "commutes read_ipv6_addr"
  unfolding commutes_def
  using commutesD [OF commutes_char, of 58]
  by (auto simp: read_ipv6_addr_def read_groups_lower Let_def split_beta split: option.splits)

lemma parse_ip_lower: "parse_ip (map lower s) = parse_ip s"
  using commutesD [OF commutes_ipv4] commutesD [OF commutes_ipv6]
  by (auto simp: parse_ip_def parse_whole_def read_ip_addr_def split: option.splits list.splits)

text \<open>A string that does not start with a hexadecimal digit or a colon is no address.\<close>

lemma parse_ip_None:
  assumes "digit_val 16 b = None" "b \<noteq> 58"
  shows "parse_ip (b # s) = None"
proof -
  have d: "digit_val 10 b = None" using assms(1) by (auto simp: digit_val_def Let_def split: if_splits)
  have n: "read_number 10 m k z (b # s) = None" "read_number 16 m k z (b # s) = None" for m k z
    using assms(1) d by (simp_all add: read_number_def)
  then have v4: "read_ipv4_addr (b # s) = None" by (simp add: read_ipv4_addr_def read_octet_def)
  have e: "(8 :: nat) = Suc 7" by simp
  have "read_groups (Suc k) 0 (b # s) = ([], False, b # s)" for k
    by (simp add: read_separator_def v4 n)
  then have "read_groups 8 0 (b # s) = ([], False, b # s)" unfolding e by blast
  then have "read_ipv6_addr (b # s) = None" using assms(2) by (simp add: read_ipv6_addr_def read_char_def)
  then show ?thesis using v4 by (simp add: parse_ip_def parse_whole_def read_ip_addr_def)
qed

end
