(* ===== verification/Sniff.thy ===== *)
theory Sniff
  imports Net
begin

text \<open>
  Reading the host name a client is about to talk to from the first bytes of its stream
  (\<^verbatim>\<open>aether/src/sniff.rs\<close>): the server name of a TLS ClientHello or the Host header of an HTTP
  request. A ClientHello is described by \<open>client_hello\<close>, which both this component and the
  fragmenting stream are checked against.
\<close>

section \<open>Readers\<close>

definition TLS_HANDSHAKE :: u8 where "TLS_HANDSHAKE = 0x16"
definition TLS_CLIENT_HELLO :: u8 where "TLS_CLIENT_HELLO = 1"
definition EXT_SERVER_NAME :: nat where "EXT_SERVER_NAME = 0"
definition SNI_HOST_NAME :: u8 where "SNI_HOST_NAME = 0"
definition MAX_HOST_LEN :: nat where "MAX_HOST_LEN = 253"
definition PEEK_BUDGET :: nat where "PEEK_BUDGET = 4096"

definition sniff_be16 :: "bytes \<Rightarrow> nat \<Rightarrow> nat option" where
  "sniff_be16 buf at = (case get buf at of None \<Rightarrow> None | Some hi \<Rightarrow>
     (case get buf (at + 1) of None \<Rightarrow> None | Some lo \<Rightarrow> Some (unat hi * 256 + unat lo)))"

definition sniff_be24 :: "bytes \<Rightarrow> nat \<Rightarrow> nat option" where
  "sniff_be24 buf at = (case get buf at of None \<Rightarrow> None | Some a \<Rightarrow>
     (case get buf (at + 1) of None \<Rightarrow> None | Some b \<Rightarrow>
     (case get buf (at + 2) of None \<Rightarrow> None | Some c \<Rightarrow>
      Some (unat a * 65536 + unat b * 256 + unat c))))"

definition host_byte :: "u8 \<Rightarrow> bool" where
  "host_byte b \<longleftrightarrow> is_alnum b \<or> b = 45 \<or> b = 46 \<or> b = 95"

definition plausible_host :: "bytes \<Rightarrow> str option" where
  "plausible_host raw =
     (if raw = [] \<or> length raw > MAX_HOST_LEN then None
      else case from_utf8 raw of None \<Rightarrow> None | Some s \<Rightarrow>
        (let name = trim_end_matches 46 (trim s) in
         if name = [] \<or> length name > MAX_HOST_LEN then None
         else if \<not> list_all host_byte name \<or> \<not> contains name [46] then None
         else if parse_ip name \<noteq> None then None
         else Some (map lower name)))"

section \<open>TLS\<close>

function first_server_name_loop :: "bytes \<Rightarrow> nat \<Rightarrow> nat \<Rightarrow> str option" where
  "first_server_name_loop data list_end at =
     (if at + 3 \<le> list_end then
        (case get data at of None \<Rightarrow> None | Some kind \<Rightarrow>
        (case sniff_be16 data (at + 1) of None \<Rightarrow> None | Some len \<Rightarrow>
          (let start = at + 3; fin = start + len in
           if fin > list_end then None
           else if kind = SNI_HOST_NAME then
             (case get_range data start fin of None \<Rightarrow> None | Some raw \<Rightarrow> plausible_host raw)
           else first_server_name_loop data list_end fin)))
      else None)"
  by pat_completeness auto
termination
  by (relation "measure (\<lambda>(_, e, at). e - at)") auto

declare first_server_name_loop.simps [simp del]

definition first_server_name :: "bytes \<Rightarrow> str option" where
  "first_server_name data = (case sniff_be16 data 0 of None \<Rightarrow> None | Some list_len \<Rightarrow>
     first_server_name_loop data (min (2 + list_len) (length data)) 2)"

function extensions_loop :: "bytes \<Rightarrow> nat \<Rightarrow> nat \<Rightarrow> str option" where
  "extensions_loop hello extensions_end at =
     (if at + 4 \<le> extensions_end then
        (case sniff_be16 hello at of None \<Rightarrow> None | Some kind \<Rightarrow>
        (case sniff_be16 hello (at + 2) of None \<Rightarrow> None | Some len \<Rightarrow>
          (let data_start = at + 4; data_end = data_start + len in
           if data_end > extensions_end then None
           else if kind = EXT_SERVER_NAME then
             (case get_range hello data_start data_end of None \<Rightarrow> None
              | Some data \<Rightarrow> first_server_name data)
           else extensions_loop hello extensions_end data_end)))
      else None)"
  by pat_completeness auto
termination
  by (relation "measure (\<lambda>(_, e, at). e - at)") auto

declare extensions_loop.simps [simp del]

definition tls_sni :: "bytes \<Rightarrow> str option" where
  "tls_sni buf =
     (case get buf 0 of None \<Rightarrow> None | Some b0 \<Rightarrow>
      if b0 \<noteq> TLS_HANDSHAKE then None else
     (case sniff_be16 buf 3 of None \<Rightarrow> None | Some record_len \<Rightarrow>
     (case get_range buf 5 (min (5 + record_len) (length buf)) of None \<Rightarrow> None | Some body \<Rightarrow>
     (case get body 0 of None \<Rightarrow> None | Some t \<Rightarrow>
      if t \<noteq> TLS_CLIENT_HELLO then None else
     (case sniff_be24 body 1 of None \<Rightarrow> None | Some hello_len \<Rightarrow>
     (case get_range body 4 (min (4 + hello_len) (length body)) of None \<Rightarrow> None | Some hello \<Rightarrow>
     (case get hello 34 of None \<Rightarrow> None | Some session_len \<Rightarrow>
      let at = 34 + (1 + unat session_len) in
     (case sniff_be16 hello at of None \<Rightarrow> None | Some cipher_len \<Rightarrow>
      let at = at + (2 + cipher_len) in
     (case get hello at of None \<Rightarrow> None | Some compression_len \<Rightarrow>
      let at = at + (1 + unat compression_len) in
     (case sniff_be16 hello at of None \<Rightarrow> None | Some extensions_len \<Rightarrow>
      let at = at + 2 in
      extensions_loop hello (min (at + extensions_len) (length hello)) at))))))))))"

section \<open>HTTP\<close>

definition http_methods :: "str list" where
  "http_methods = map lit [''GET '', ''POST '', ''PUT '', ''HEAD '', ''DELETE '', ''OPTIONS '',
     ''PATCH '', ''TRACE '', ''CONNECT '']"

definition looks_like_http :: "str \<Rightarrow> bool" where
  "looks_like_http line \<longleftrightarrow>
     list_ex (\<lambda>method. starts_with line method) http_methods \<and> contains line (lit ''HTTP/'')"

fun http_host_lines :: "str list \<Rightarrow> str option" where
  "http_host_lines [] = None"
| "http_host_lines (line # ls) =
     (if line = [] then None
      else case split_once 58 line of
        None \<Rightarrow> http_host_lines ls
      | Some (name, v) \<Rightarrow>
        if \<not> eq_ignore_ascii_case name (lit ''host'') then http_host_lines ls
        else (let v = trim v;
                  without_port = (case rsplit_once 58 v of
                    Some (host, port) \<Rightarrow> if list_all is_digit port then host else v
                  | None \<Rightarrow> v)
              in plausible_host without_port))"

definition http_host :: "bytes \<Rightarrow> str option" where
  "http_host buf =
     (let text = utf8_lossy (take (min (length buf) PEEK_BUDGET) buf) in
      case split_str [13, 10] text of
        [] \<Rightarrow> None
      | request_line # ls \<Rightarrow> if looks_like_http request_line then http_host_lines ls else None)"

definition hostname :: "bytes \<Rightarrow> str option" where
  "hostname buf = (case tls_sni buf of Some h \<Rightarrow> Some h | None \<Rightarrow> http_host buf)"

section \<open>Reading at a position\<close>

lemma get_at: "n = length pre \<Longrightarrow> get (pre @ x # post) n = Some x"
  by (simp add: get_def)

lemma range_at:
  "n = length pre \<Longrightarrow> m = n + length mid \<Longrightarrow> get_range (pre @ mid @ post) n m = Some mid"
  by (simp add: get_range_def)

lemma be16_at: "n = length pre \<Longrightarrow> sniff_be16 (pre @ be16 w @ post) n = Some (unat w)"
proof -
  assume n: "n = length pre"
  have "pre @ be16 w @ post = (pre @ [be16 w ! 0]) @ be16 w ! 1 # post" by (simp add: be16_eq)
  then have "get (pre @ be16 w @ post) (n + 1) = Some (be16 w ! 1)" using n by (metis get_at length_append_singleton Suc_eq_plus1)
  moreover have "get (pre @ be16 w @ post) n = Some (be16 w ! 0)" using n by (simp add: be16_eq get_def)
  moreover have "unat (be16 w ! 0) * 256 + unat (be16 w ! 1) = from_be (be16 w)" by (simp add: be16_eq from_be_def)
  ultimately show ?thesis by (simp add: sniff_be16_def from_be_be)
qed

definition be24 :: "nat \<Rightarrow> bytes" where "be24 n = to_be 3 n"

lemma length_be24 [simp]: "length (be24 n) = 3"
  by (simp add: be24_def)

lemma be24_at:
  assumes "n = length pre" "v < 16777216"
  shows "sniff_be24 (pre @ be24 v @ post) n = Some v"
proof -
  obtain a b c where e: "be24 v = [a, b, c]"
    by (auto simp: be24_def numeral_3_eq_3)
  have "from_be [a, b, c] = v" using assms(2) e from_be_to_be [of 3 v] by (simp add: be24_def)
  then show ?thesis
    using assms(1) by (simp add: e sniff_be24_def get_def nth_append from_be_def)
qed

section \<open>ClientHello messages\<close>

text \<open>A length field of two bytes.\<close>

definition len16 :: "nat \<Rightarrow> bytes" where "len16 n = be16 (of_nat n)"

lemma length_len16 [simp]: "length (len16 n) = 2"
  by (simp add: len16_def)

lemma len16_at: "n = length pre \<Longrightarrow> v < 65536 \<Longrightarrow> sniff_be16 (pre @ len16 v @ post) n = Some v"
  by (simp add: len16_def be16_at unat_of_nat)

definition ext_bytes :: "u16 \<times> bytes \<Rightarrow> bytes" where
  "ext_bytes e = be16 (fst e) @ len16 (length (snd e)) @ snd e"

definition sni_data :: "bytes \<Rightarrow> bytes" where
  "sni_data host = len16 (3 + length host) @ [0] @ len16 (length host) @ host"

record hello =
  h_head :: bytes
  h_session :: bytes
  h_ciphers :: bytes
  h_compression :: bytes
  h_exts :: "(u16 \<times> bytes) list"

definition hello_bytes :: "hello \<Rightarrow> bytes" where
  "hello_bytes h = h_head h @ [of_nat (length (h_session h))] @ h_session h @
     len16 (length (h_ciphers h)) @ h_ciphers h @
     [of_nat (length (h_compression h))] @ h_compression h @
     len16 (length (concat (map ext_bytes (h_exts h)))) @ concat (map ext_bytes (h_exts h))"

definition client_hello :: "u8 \<Rightarrow> u8 \<Rightarrow> hello \<Rightarrow> bytes" where
  "client_hello major minor h =
     [0x16, major, minor] @ len16 (4 + length (hello_bytes h)) @
     [1] @ be24 (length (hello_bytes h)) @ hello_bytes h"

definition hello_wf :: "hello \<Rightarrow> bool" where
  "hello_wf h \<longleftrightarrow> length (h_head h) = 34 \<and> length (h_session h) < 256 \<and> length (h_compression h) < 256 \<and>
     4 + length (hello_bytes h) < 65536"

lemma unat_small16 [simp]: "n < 65536 \<Longrightarrow> unat (of_nat n :: u16) = n"
  by (simp add: unat_of_nat)

lemma unat_small8 [simp]: "n < 256 \<Longrightarrow> unat (of_nat n :: u8) = n"
  by (simp add: unat_of_nat)

lemma hello_wf_lengths:
  assumes "hello_wf h"
  shows "length (h_ciphers h) < 65536" "length (concat (map ext_bytes (h_exts h))) < 65536"
    "e \<in> set (h_exts h) \<Longrightarrow> length (snd e) < 65536"
proof -
  show "length (h_ciphers h) < 65536" "length (concat (map ext_bytes (h_exts h))) < 65536"
    using assms by (auto simp: hello_wf_def hello_bytes_def)
  then show "length (snd e) < 65536" if "e \<in> set (h_exts h)"
    using split_list [OF that] by (auto simp: ext_bytes_def)
qed

lemma first_server_name_data:
  assumes "3 + length host < 65536"
  shows "first_server_name (sni_data host) = plausible_host host"
proof -
  let ?d = "sni_data host"
  have l: "sniff_be16 ?d 0 = Some (3 + length host)"
    using len16_at [of 0 "[]" "3 + length host"] assms by (simp add: sni_data_def)
  have k: "get ?d 2 = Some 0"
    using get_at [of 2 "len16 (3 + length host)"] by (simp add: sni_data_def)
  have n: "sniff_be16 ?d 3 = Some (length host)"
    using len16_at [of 3 "len16 (3 + length host) @ [0]" "length host"] assms
    by (simp add: sni_data_def)
  have r: "get_range ?d 5 (5 + length host) = Some host"
    using range_at [of 5 "len16 (3 + length host) @ [0] @ len16 (length host)" _ host "[]"]
    by (simp add: sni_data_def)
  show ?thesis
    using l k n r
    by (simp add: first_server_name_def first_server_name_loop.simps sni_data_def SNI_HOST_NAME_def Let_def)
qed

lemma ext_fields:
  assumes "length (snd e) < 65536"
  shows "sniff_be16 (pre @ ext_bytes e @ post) (length pre) = Some (unat (fst e))"
    "sniff_be16 (pre @ ext_bytes e @ post) (length pre + 2) = Some (length (snd e))"
    "get_range (pre @ ext_bytes e @ post) (length pre + 4) (length pre + 4 + length (snd e)) = Some (snd e)"
  using be16_at [of "length pre" pre "fst e"] assms
    len16_at [of "length pre + 2" "pre @ be16 (fst e)" "length (snd e)"]
    range_at [of "length pre + 4" "pre @ be16 (fst e) @ len16 (length (snd e))" _ "snd e"]
  by (simp_all add: ext_bytes_def)

lemma length_ext_bytes [simp]: "length (ext_bytes e) = 4 + length (snd e)"
  by (simp add: ext_bytes_def)

lemma extensions_loop_finds:
  assumes "\<forall>e \<in> set before. fst e \<noteq> 0 \<and> length (snd e) < 65536" "length d < 65536"
    and "at = length pre" "length (pre @ concat (map ext_bytes before) @ ext_bytes (0, d)) \<le> fin"
  shows "extensions_loop (pre @ concat (map ext_bytes before) @ ext_bytes (0, d) @ post) fin at =
    first_server_name d"
  using assms
proof (induction before arbitrary: pre at)
  case Nil
  then show ?case
    using ext_fields [of "(0, d)" pre post]
    by (simp add: extensions_loop.simps EXT_SERVER_NAME_def)
next
  case (Cons e before)
  let ?rest = "concat (map ext_bytes before) @ ext_bytes (0, d) @ post"
  have ne: "unat (fst e) \<noteq> 0" using Cons.prems(1) by (simp add: unat_eq_0)
  have "extensions_loop (pre @ ext_bytes e @ ?rest) fin at =
      extensions_loop ((pre @ ext_bytes e) @ ?rest) fin (at + 4 + length (snd e))"
    using Cons.prems ext_fields [of e pre ?rest] ne
    by (subst extensions_loop.simps) (simp add: EXT_SERVER_NAME_def)
  also have "\<dots> = first_server_name d"
    using Cons.prems by (intro Cons.IH) auto
  finally show ?case by simp
qed

lemma tls_sni_hello:
  assumes "hello_wf h" "h_exts h = before @ (0, d) # after" "\<forall>e \<in> set before. fst e \<noteq> 0"
  shows "tls_sni (client_hello major minor h) = first_server_name d"
proof -
  let ?hb = "hello_bytes h" and ?E = "concat (map ext_bytes (h_exts h))"
  let ?p1 = "h_head h @ [of_nat (length (h_session h))] @ h_session h"
  let ?p2 = "?p1 @ len16 (length (h_ciphers h)) @ h_ciphers h"
  let ?p3 = "?p2 @ [of_nat (length (h_compression h))] @ h_compression h"
  let ?p4 = "?p3 @ len16 (length ?E)"
  note wf = assms(1) [unfolded hello_wf_def] and len = hello_wf_lengths [OF assms(1)]
  have hb: "?hb = ?p4 @ ?E" by (simp add: hello_bytes_def)
  have r1: "get (client_hello major minor h) 0 = Some 0x16" by (simp add: client_hello_def get_def)
  have r2: "sniff_be16 (client_hello major minor h) 3 = Some (4 + length ?hb)"
    using len16_at [of 3 "[0x16, major, minor]" "4 + length ?hb"] wf by (simp add: client_hello_def)
  have r3: "get_range (client_hello major minor h) 5 (9 + length ?hb) = Some ([1] @ be24 (length ?hb) @ ?hb)"
    using range_at [of 5 "[0x16, major, minor] @ len16 (4 + length ?hb)" _ "[1] @ be24 (length ?hb) @ ?hb" "[]"]
    by (simp add: client_hello_def be24_def)
  have r4: "sniff_be24 (1 # be24 (length ?hb) @ ?hb) 1 = Some (length ?hb)"
    using be24_at [of 1 "[1]" "length ?hb" ?hb] wf by simp
  have r5: "get_range (1 # be24 (length ?hb) @ ?hb) 4 (4 + length ?hb) = Some ?hb"
    using range_at [of 4 "[1] @ be24 (length ?hb)" _ ?hb "[]"] by (simp add: be24_def)
  have r6: "get ?hb 34 = Some (of_nat (length (h_session h)))"
    using get_at [of 34 "h_head h"] wf by (simp add: hb)
  have r7: "sniff_be16 ?hb (length ?p1) = Some (length (h_ciphers h))"
    using len16_at [of "length ?p1" ?p1 "length (h_ciphers h)"] len by (simp add: hb)
  have r8: "get ?hb (length ?p2) = Some (of_nat (length (h_compression h)))"
    using get_at [of "length ?p2" ?p2] by (simp add: hb)
  have r9: "sniff_be16 ?hb (length ?p3) = Some (length ?E)"
    using len16_at [of "length ?p3" ?p3 "length ?E"] len by (simp add: hb)
  have r10: "extensions_loop ?hb (length ?hb) (length ?p4) = first_server_name d"
    using extensions_loop_finds [of before d "length ?p4" ?p4 "length ?hb" "concat (map ext_bytes after)"]
      assms(2,3) len(3) len(3) [of "(0, d)"] by (auto simp: hb)
  have l: "length (client_hello major minor h) = 9 + length ?hb" by (simp add: client_hello_def)
  have m: "min (length ?p4 + length ?E) (length ?hb) = length ?hb" by (simp add: hb)
  show ?thesis
    using r1 r2 r3 r4 r5 r6 r7 r8 r9 r10 wf l m
    by (simp add: tls_sni_def Let_def TLS_HANDSHAKE_def TLS_CLIENT_HELLO_def get_at [of 0 "[]", simplified])
qed

section \<open>Properties\<close>

lemma contains_lower_dot: "contains (map lower s) [46] = contains s [46]"
proof -
  have "find_sub [46] (map lower s) = find_sub [46] s"
    by (induction s) (auto simp: starts_with_def lower_eq_iff)
  then show ?thesis by (simp add: contains_def)
qed

lemma lower_not_upper: "\<not> is_upper (lower b)"
proof (cases "is_upper b")
  case True
  then have u: "65 \<le> unat b" "unat b \<le> 90" by (auto simp: is_upper_def word_le_nat_alt)
  then have "unat (lower b) = unat b + 32" using True by (simp add: lower_def unat_word_ariths)
  then show ?thesis using u by (simp add: is_upper_def word_le_nat_alt)
qed (simp add: lower_def)

lemma host_byte_lower: "host_byte b \<Longrightarrow> host_byte (lower b)"
proof (cases "is_upper b")
  case True
  then have u: "65 \<le> unat b" "unat b \<le> 90" by (auto simp: is_upper_def word_le_nat_alt)
  then have "unat (lower b) = unat b + 32" using True by (simp add: lower_def unat_word_ariths)
  then have "is_lower (lower b)" using u by (simp add: is_lower_def word_le_nat_alt)
  then show ?thesis by (simp add: host_byte_def is_alnum_def)
qed (simp add: lower_def)

definition good_host :: "str \<Rightarrow> bool" where
  "good_host h \<longleftrightarrow> h \<noteq> [] \<and> length h \<le> 253 \<and> contains h [46] \<and> parse_ip h = None \<and>
     list_all (\<lambda>b. host_byte b \<and> \<not> is_upper b) h"

lemma plausible_host_good: "plausible_host raw = Some h \<Longrightarrow> good_host h"
  by (auto simp: plausible_host_def good_host_def Let_def contains_lower_dot parse_ip_lower
      MAX_HOST_LEN_def list_all_iff host_byte_lower lower_not_upper split: option.splits if_splits)

lemma first_server_name_good: "first_server_name_loop d e at = Some h \<Longrightarrow> good_host h"
proof (induction d e at rule: first_server_name_loop.induct)
  case (1 d e at)
  from 1(2) show ?case
    by (subst (asm) first_server_name_loop.simps)
      (auto simp: Let_def plausible_host_good split: if_splits option.splits intro: 1(1))
qed

lemma extensions_good: "extensions_loop hl e at = Some h \<Longrightarrow> good_host h"
proof (induction hl e at rule: extensions_loop.induct)
  case (1 hl e at)
  from 1(2) show ?case
    by (subst (asm) extensions_loop.simps)
      (auto simp: Let_def first_server_name_def first_server_name_good
        split: if_splits option.splits intro: 1(1))
qed

lemma http_lines_good: "http_host_lines ls = Some h \<Longrightarrow> good_host h"
  by (induction ls) (auto simp: Let_def plausible_host_good split: if_splits option.splits)

text \<open>A host name taken from a client's first bytes is one the rest of the program can use as
  a domain: 1 to 253 bytes, with a dot, only letters, digits, hyphens, underscores and dots, in
  lower case, and never the text of an IP address; whatever the client sent.\<close>

theorem sniffed_host_well_formed:
  "case hostname buf of None \<Rightarrow> True | Some h \<Rightarrow>
     h \<noteq> [] \<and> length h \<le> 253 \<and> contains h [46] \<and> parse_ip h = None \<and>
     list_all (\<lambda>b. host_byte b \<and> \<not> is_upper b) h"
proof (cases "hostname buf")
  case (Some h)
  then have "good_host h"
    by (auto simp: hostname_def tls_sni_def http_host_def Let_def extensions_good http_lines_good
        split: option.splits if_splits list.splits)
  then show ?thesis by (simp add: Some good_host_def)
qed simp

text \<open>C36. The server name of a complete ClientHello is found behind any session identifier, cipher
  suites, compression methods and other extensions: the result is the sanitised host of its
  server name extension.\<close>

theorem tls_sni_of_client_hello:
  assumes "hello_wf h" "h_exts h = before @ (0, sni_data host) # after"
    and "\<forall>e \<in> set before. fst e \<noteq> 0"
  shows "tls_sni (client_hello major minor h) = plausible_host host"
proof -
  have "length (sni_data host) < 65536"
    using hello_wf_lengths(3) [OF assms(1), of "(0, sni_data host)"] assms(2) by simp
  then have "3 + length host < 65536" by (simp add: sni_data_def)
  then show ?thesis using tls_sni_hello [OF assms] by (simp add: first_server_name_data)
qed

theorem tls_sni_of_client_hello_witness:
  "tls_sni (client_hello 3 1 \<lparr>h_head = replicate 34 3, h_session = [7], h_ciphers = [0x13, 1],
     h_compression = [0], h_exts = [(0x2b, [3, 4]), (0, sni_data (lit ''X.y.''))]\<rparr>) = Some (lit ''x.y'')"
proof -
  have "trim_end_matches 46 (trim (lit ''X.y.'')) = lit ''X.y''"
    by (simp add: lit_def trim_def trim_start_def trim_end_def strip.simps trim_end_matches_def
        ascii_ws_def ws2_def ws3_def)
  moreover have "from_utf8 (lit ''X.y.'') = Some (lit ''X.y.'')"
    by (simp add: lit_def from_utf8_def utf8_valid.simps utf8_step_def)
  moreover have "list_all host_byte (lit ''X.y'')" "contains (lit ''X.y'') [46]"
    by (simp_all add: lit_def host_byte_def is_alnum_def is_digit_def is_upper_def is_lower_def
        contains_def starts_with_def)
  moreover have "parse_ip (lit ''X.y'') = None"
    by (simp add: lit_def parse_ip_None digit_val_def is_digit_def)
  moreover have "map lower (lit ''X.y'') = lit ''x.y''" by (simp add: lit_def lower_def is_upper_def)
  ultimately have "plausible_host (lit ''X.y.'') = Some (lit ''x.y'')"
    by (simp add: plausible_host_def MAX_HOST_LEN_def lit_def)
  then show ?thesis
    using tls_sni_of_client_hello [of "\<lparr>h_head = replicate 34 3, h_session = [7], h_ciphers = [0x13, 1],
     h_compression = [0], h_exts = [(0x2b, [3, 4]), (0, sni_data (lit ''X.y.''))]\<rparr>" "[(0x2b, [3, 4])]"
      "lit ''X.y.''" "[]" 3 1]
    by (simp add: hello_wf_def hello_bytes_def sni_data_def lit_def)
qed

end
