(* ===== verification/Fragment.thy ===== *)
theory Fragment
  imports Sniff
begin

text \<open>
  The stream wrapper that cuts the first flight of a TLS connection into small writes
  (\<^verbatim>\<open>aether/src/fragment.rs\<close>), if wanted in the middle of the server name. Random draws are an
  argument: \<open>rnd lo hi\<close> is the number drawn from \<^verbatim>\<open>lo..=hi\<close>. The wrapped stream is an argument too:
  \<open>wr\<close> takes the state of the inner stream and the bytes offered to it and returns the new state
  and what \<^verbatim>\<open>poll_write\<close> reported.
\<close>

section \<open>Configuration\<close>

record fragment_config =
  enabled :: bool
  size_min :: nat
  size_max :: nat
  delay_min_ms :: nat
  delay_max_ms :: nat
  sni_split :: bool

definition fragment_disabled :: fragment_config where
  "fragment_disabled = \<lparr>enabled = False, size_min = 1, size_max = 1, delay_min_ms = 0,
     delay_max_ms = 0, sni_split = False\<rparr>"

definition is_truthy :: "(str \<Rightarrow> str) \<Rightarrow> str \<Rightarrow> bool" where
  "is_truthy ul v \<longleftrightarrow> to_lowercase ul (trim v) \<in> {lit ''1'', lit ''true'', lit ''yes'', lit ''on''}"

definition parse_u64 :: "str \<Rightarrow> nat option" where
  "parse_u64 s = parse_radix 10 64 s"

definition unwrap_or :: "'a \<Rightarrow> 'a option \<Rightarrow> 'a" where
  "unwrap_or d x = (case x of Some v \<Rightarrow> v | None \<Rightarrow> d)"

definition parse_range :: "str \<Rightarrow> nat \<times> nat \<Rightarrow> nat \<times> nat" where
  "parse_range spec def =
     (let spec = trim spec in
      if spec = [] then def
      else case split_once 45 spec of
        Some (a, b) \<Rightarrow>
          (let lo = unwrap_or (fst def) (parse_u64 (trim a));
               hi = unwrap_or (snd def) (parse_u64 (trim b))
           in if hi < lo then (hi, lo) else (lo, hi))
      | None \<Rightarrow> (let v = unwrap_or (fst def) (parse_u64 spec) in (v, v)))"

text \<open>The environment is a map; \<open>w\<close> is the width of \<^verbatim>\<open>usize\<close>.\<close>

definition from_env :: "nat \<Rightarrow> (str \<Rightarrow> str) \<Rightarrow> (string \<Rightarrow> str option) \<Rightarrow> fragment_config" where
  "from_env w ul env =
     (let enabled = (case env ''AETHER_MASQUE_H2_FRAGMENT'' of Some v \<Rightarrow> is_truthy ul v | None \<Rightarrow> False);
          (smin, smax) = parse_range (unwrap_or [] (env ''AETHER_MASQUE_H2_FRAGMENT_SIZE'')) (8, 16);
          (dmin, dmax) = parse_range (unwrap_or [] (env ''AETHER_MASQUE_H2_FRAGMENT_DELAY'')) (2, 10);
          smin = max smin 1 mod 2 ^ w;
          smax = max smax smin mod 2 ^ w;
          sni = (case env ''AETHER_MASQUE_H2_FRAGMENT_SNI'' of Some v \<Rightarrow> is_truthy ul v | None \<Rightarrow> False)
      in \<lparr>enabled = enabled, size_min = smin, size_max = smax, delay_min_ms = dmin,
          delay_max_ms = max dmax dmin, sni_split = sni\<rparr>)"

definition pick_chunk_len :: "(nat \<Rightarrow> nat \<Rightarrow> nat) \<Rightarrow> fragment_config \<Rightarrow> nat \<Rightarrow> nat" where
  "pick_chunk_len rnd cfg remaining =
     (let hi = min (max (size_max cfg) 1) remaining;
          lo = min (max (size_min cfg) 1) hi
      in if lo \<ge> hi then hi else rnd lo hi)"

definition pick_delay :: "(nat \<Rightarrow> nat \<Rightarrow> nat) \<Rightarrow> fragment_config \<Rightarrow> nat" where
  "pick_delay rnd cfg =
     (if delay_max_ms cfg = 0 then 0
      else if delay_max_ms cfg \<le> delay_min_ms cfg then delay_min_ms cfg
      else rnd (delay_min_ms cfg) (delay_max_ms cfg))"

section \<open>Finding the server name\<close>

definition take_be :: "bytes \<Rightarrow> nat \<Rightarrow> nat \<Rightarrow> nat option" where
  "take_be buf at n = map_option from_be (get_range buf at (at + n))"

function sni_ext_loop :: "bytes \<Rightarrow> nat \<Rightarrow> nat \<Rightarrow> (nat \<times> nat) option" where
  "sni_ext_loop buf extensions_end at =
     (if at + 4 \<le> extensions_end then
        (case take_be buf at 2 of None \<Rightarrow> None | Some kind \<Rightarrow>
        (case take_be buf (at + 2) 2 of None \<Rightarrow> None | Some len \<Rightarrow>
          (let body = at + 4 in
           if kind = 0 then
             (let entry = body + 2 in
              case take_be buf entry 1 of None \<Rightarrow> None | Some t \<Rightarrow>
              if t \<noteq> 0 then None else
              (case take_be buf (entry + 1) 2 of None \<Rightarrow> None | Some host_len \<Rightarrow>
                (let host = entry + 3 in
                 if host_len = 0 \<or> host + host_len > length buf then None
                 else Some (host, host + host_len))))
           else sni_ext_loop buf extensions_end (body + len))))
      else None)"
  by pat_completeness auto
termination
  by (relation "measure (\<lambda>(_, e, at). e - at)") auto

declare sni_ext_loop.simps [simp del]

definition sni_host_range :: "bytes \<Rightarrow> (nat \<times> nat) option" where
  "sni_host_range buf =
     (case get buf 0 of None \<Rightarrow> None | Some b0 \<Rightarrow> if b0 \<noteq> 0x16 then None else
     (case get buf 5 of None \<Rightarrow> None | Some b5 \<Rightarrow> if b5 \<noteq> 1 then None else
     (case take_be buf 43 1 of None \<Rightarrow> None | Some session \<Rightarrow>
      let at = 43 + (1 + session) in
     (case take_be buf at 2 of None \<Rightarrow> None | Some ciphers \<Rightarrow>
      let at = at + (2 + ciphers) in
     (case take_be buf at 1 of None \<Rightarrow> None | Some compression \<Rightarrow>
      let at = at + (1 + compression) in
     (case take_be buf at 2 of None \<Rightarrow> None | Some exts \<Rightarrow>
      sni_ext_loop buf (at + 2 + exts) (at + 2)))))))"

section \<open>The stream\<close>

datatype poll = Pending | ReadyErr str | ReadyOk nat

record 's fragmenting_stream =
  inner :: 's
  cfg :: fragment_config
  fragmenting :: bool
  first_write :: bool
  pending_delay :: "nat option"

definition fragmenting_new :: "'s \<Rightarrow> fragment_config \<Rightarrow> 's fragmenting_stream" where
  "fragmenting_new s c = \<lparr>inner = s, cfg = c, fragmenting = enabled c, first_write = True,
     pending_delay = None\<rparr>"

text \<open>A read ends the fragmenting; its own effect on the inner stream is \<open>rd\<close>.\<close>

definition poll_read :: "('s \<Rightarrow> 's) \<Rightarrow> 's fragmenting_stream \<Rightarrow> 's fragmenting_stream" where
  "poll_read rd st = st\<lparr>fragmenting := False, inner := rd (inner st)\<rparr>"

definition chunk_length :: "(nat \<Rightarrow> nat \<Rightarrow> nat) \<Rightarrow> 's fragmenting_stream \<Rightarrow> bytes \<Rightarrow> nat" where
  "chunk_length rnd st buf =
     (let targeted = (if first_write st \<and> sni_split (cfg st)
                      then map_option (\<lambda>(start, fin). start + (fin - start) div 2) (sni_host_range buf)
                      else None)
      in case targeted of
           Some split \<Rightarrow> if split > 0 \<and> split < length buf then split
                         else pick_chunk_len rnd (cfg st) (length buf)
         | None \<Rightarrow> pick_chunk_len rnd (cfg st) (length buf))"

text \<open>\<open>elapsed\<close> says whether a pending delay has run out. A chunk longer than the buffer would be a
  slice out of range.\<close>

definition poll_write ::
    "('s \<Rightarrow> bytes \<Rightarrow> 's \<times> poll) \<Rightarrow> (nat \<Rightarrow> nat \<Rightarrow> nat) \<Rightarrow> bool \<Rightarrow> 's fragmenting_stream \<Rightarrow> bytes \<Rightarrow>
     (unit, 's fragmenting_stream \<times> poll) run" where
  "poll_write wr rnd elapsed st buf =
     (if buf = [] \<or> \<not> fragmenting st then
        (let (s, r) = wr (inner st) buf in Ok (st\<lparr>inner := s\<rparr>, r))
      else if pending_delay st \<noteq> None \<and> \<not> elapsed then Ok (st, Pending)
      else
        let st = st\<lparr>pending_delay := None\<rparr> in
        bnd (sl buf 0 (chunk_length rnd st buf)) (\<lambda>chunk.
        let (s, r) = wr (inner st) chunk; st = st\<lparr>inner := s\<rparr> in
        case r of
          ReadyOk n \<Rightarrow>
            if n > 0 then
              (let d = pick_delay rnd (cfg st)
               in Ok (st\<lparr>first_write := False, pending_delay := (if d = 0 then None else Some d)\<rparr>, ReadyOk n))
            else Ok (st, ReadyOk n)
        | other \<Rightarrow> Ok (st, other)))"

section \<open>Lemmas: the server name of a ClientHello\<close>

lemma take_be_2: "take_be buf at 2 = sniff_be16 buf at"
proof (cases "at + 2 \<le> length buf")
  case True
  then have "take 2 (drop at buf) = [buf ! at, buf ! (at + 1)]"
    by (simp add: numeral_2_eq_2 take_Suc_conv_app_nth)
  then show ?thesis
    using True by (simp add: take_be_def get_range_def sniff_be16_def get_def from_be_def)
qed (auto simp: take_be_def get_range_def sniff_be16_def get_def)

lemma take_be_1: "take_be buf at (Suc 0) = map_option unat (get buf at)"
  by (cases "at < length buf")
    (auto simp: take_be_def get_range_def get_def from_be_def take_Suc_conv_app_nth)

lemma sni_loop_skips:
  assumes "\<forall>e \<in> set before. fst e \<noteq> 0 \<and> length (snd e) < 65536"
    and "at = length pre" "length (pre @ concat (map ext_bytes before)) + 4 \<le> fin"
  shows "sni_ext_loop (pre @ concat (map ext_bytes before) @ post) fin at =
    sni_ext_loop (pre @ concat (map ext_bytes before) @ post) fin
      (length (pre @ concat (map ext_bytes before)))"
  using assms
proof (induction before arbitrary: pre at)
  case (Cons e before)
  let ?rest = "concat (map ext_bytes before) @ post"
  have ne: "unat (fst e) \<noteq> 0" using Cons.prems(1) by (simp add: unat_eq_0)
  have "sni_ext_loop (pre @ ext_bytes e @ ?rest) fin at =
      sni_ext_loop ((pre @ ext_bytes e) @ ?rest) fin (at + 4 + length (snd e))"
    using Cons.prems ext_fields [of e pre ?rest] ne
    by (subst sni_ext_loop.simps) (simp add: take_be_2)
  also have "\<dots> = sni_ext_loop ((pre @ ext_bytes e) @ ?rest) fin
      (length ((pre @ ext_bytes e) @ concat (map ext_bytes before)))"
    using Cons.prems by (intro Cons.IH) auto
  finally show ?case by (simp add: add.assoc)
qed simp

lemma sni_loop_finds:
  assumes "3 + length host < 65532" "host \<noteq> []" "length pre + 9 + length host \<le> fin"
  shows "sni_ext_loop (pre @ ext_bytes (0, sni_data host) @ post) fin (length pre) =
    Some (length pre + 9, length pre + 9 + length host)"
proof -
  let ?e = "(0 :: u16, sni_data host)" and ?buf = "pre @ ext_bytes (0, sni_data host) @ post"
  have len: "length (sni_data host) = 5 + length host" by (simp add: sni_data_def)
  have eb: "ext_bytes ?e = be16 0 @ len16 (5 + length host) @ len16 (3 + length host) @ [0] @
      len16 (length host) @ host"
    by (simp add: ext_bytes_def len) (simp add: sni_data_def)
  have k: "sniff_be16 ?buf (length pre) = Some 0" "sniff_be16 ?buf (length pre + 2) = Some (5 + length host)"
    using ext_fields [of ?e pre post] len assms by simp_all
  have t: "get ?buf (length pre + 6) = Some 0"
    using get_at [of "length pre + 6" "pre @ be16 0 @ len16 (5 + length host) @ len16 (3 + length host)"]
    by (simp add: eb)
  have l: "sniff_be16 ?buf (length pre + 7) = Some (length host)"
    using len16_at [of "length pre + 7" "pre @ be16 0 @ len16 (5 + length host) @ len16 (3 + length host) @ [0]"
        "length host"] assms
    by (simp add: eb)
  have t': "get ?buf (6 + length pre) = Some 0" and l': "sniff_be16 ?buf (7 + length pre) = Some (length host)"
    using t l by (simp_all only: add.commute)
  show ?thesis
    using assms k t' l'
    by (subst sni_ext_loop.simps) (simp add: take_be_2 take_be_1 len Let_def)
qed

lemma sni_host_range_hello:
  assumes "hello_wf h" "h_exts h = before @ (0, sni_data host) # after"
    and "\<forall>e \<in> set before. fst e \<noteq> 0" "host \<noteq> []"
  obtains s where "sni_host_range (client_hello major minor h) = Some (s, s + length host)"
    "take (length host) (drop s (client_hello major minor h)) = host" "0 < s"
    "s + length host \<le> length (client_hello major minor h)"
proof -
  let ?E = "concat (map ext_bytes (h_exts h))"
  let ?p0 = "[0x16, major, minor] @ len16 (4 + length (hello_bytes h)) @ [1] @ be24 (length (hello_bytes h)) @ h_head h"
  let ?p1 = "?p0 @ [of_nat (length (h_session h))] @ h_session h"
  let ?p2 = "?p1 @ len16 (length (h_ciphers h)) @ h_ciphers h"
  let ?p3 = "?p2 @ [of_nat (length (h_compression h))] @ h_compression h"
  let ?p4 = "?p3 @ len16 (length ?E)"
  let ?p5 = "?p4 @ concat (map ext_bytes before)"
  let ?c = "client_hello major minor h"
  note wf = assms(1) [unfolded hello_wf_def] and len = hello_wf_lengths [OF assms(1)]
  have hl: "length (sni_data host) = 5 + length host" by (simp add: sni_data_def)
  have small: "3 + length host < 65532"
    using len(2) assms(2) by (simp add: hl)
  have c: "?c = ?p5 @ ext_bytes (0, sni_data host) @ concat (map ext_bytes after)"
    by (simp add: client_hello_def hello_bytes_def assms(2))
  have r1: "get ?c 0 = Some 0x16" "get ?c 5 = Some 1"
    using get_at [of 5 "[0x16, major, minor] @ len16 (4 + length (hello_bytes h))"]
    by (simp_all add: client_hello_def get_def)
  have r2: "get ?c 43 = Some (of_nat (length (h_session h)))"
    using get_at [of 43 ?p0] wf by (simp add: c)
  have r3: "sniff_be16 ?c (length ?p1) = Some (length (h_ciphers h))"
    using len16_at [of "length ?p1" ?p1 "length (h_ciphers h)"] len by (simp add: c)
  have r4: "get ?c (length ?p2) = Some (of_nat (length (h_compression h)))"
    using get_at [of "length ?p2" ?p2] by (simp add: c)
  have r5: "sniff_be16 ?c (length ?p3) = Some (length ?E)"
    using len16_at [of "length ?p3" ?p3 "length ?E"] len by (simp add: c)
  have "sni_ext_loop ?c (length ?p4 + length ?E) (length ?p4) =
      sni_ext_loop ?c (length ?p4 + length ?E) (length ?p5)"
    using sni_loop_skips [of before "length ?p4" ?p4 "length ?p4 + length ?E"
        "ext_bytes (0, sni_data host) @ concat (map ext_bytes after)"] assms(2,3) len(3)
    by (auto simp: c)
  also have "\<dots> = Some (length ?p5 + 9, length ?p5 + 9 + length host)"
    using sni_loop_finds [OF small assms(4), of ?p5 "length ?p4 + length ?E" "concat (map ext_bytes after)"]
      assms(2) by (simp add: c hl)
  finally have r6: "sni_ext_loop ?c (length ?p4 + length ?E) (length ?p4) =
      Some (length ?p5 + 9, length ?p5 + 9 + length host)" .
  have "sni_host_range ?c = Some (length ?p5 + 9, length ?p5 + 9 + length host)"
    using r1 r2 r3 r4 r5 r6 wf
    by (simp add: sni_host_range_def Let_def take_be_1 take_be_2)
  moreover have "take (length host) (drop (length ?p5 + 9) ?c) = host"
    "length ?p5 + 9 + length host \<le> length ?c"
  proof -
    let ?q = "?p5 @ be16 0 @ len16 (length (sni_data host)) @ len16 (3 + length host) @ [0] @ len16 (length host)"
    have q: "?c = ?q @ host @ concat (map ext_bytes after)" "length ?q = length ?p5 + 9"
      by (simp_all add: c ext_bytes_def) (simp add: sni_data_def)
    then show "take (length host) (drop (length ?p5 + 9) ?c) = host"
      by (metis append_eq_conv_conj)
    show "length ?p5 + 9 + length host \<le> length ?c" using q by (metis append.assoc le_add1 length_append)
  qed
  ultimately show ?thesis using that [of "length ?p5 + 9"] by simp
qed

section \<open>Lemmas: the stream\<close>

text \<open>What the inner stream and the random source promise: a write that reports \<open>n\<close> bytes has taken
  the first \<open>n\<close> of those offered, any other has taken none; a draw is in its range.\<close>

definition byte_sink :: "('s \<Rightarrow> bytes \<Rightarrow> 's \<times> poll) \<Rightarrow> ('s \<Rightarrow> bytes) \<Rightarrow> bool" where
  "byte_sink wr out \<longleftrightarrow> (\<forall>s b. case wr s b of
     (s', ReadyOk n) \<Rightarrow> n \<le> length b \<and> out s' = out s @ take n b | (s', _) \<Rightarrow> out s' = out s)"

definition in_range :: "(nat \<Rightarrow> nat \<Rightarrow> nat) \<Rightarrow> bool" where
  "in_range rnd \<longleftrightarrow> (\<forall>lo hi. lo \<le> hi \<longrightarrow> lo \<le> rnd lo hi \<and> rnd lo hi \<le> hi)"

lemma pick_chunk_len_bounds:
  assumes "in_range rnd" "0 < remaining"
  shows "1 \<le> pick_chunk_len rnd c remaining" "pick_chunk_len rnd c remaining \<le> remaining"
    "pick_chunk_len rnd c remaining \<le> max (size_max c) 1"
proof -
  define hi where "hi = min (max (size_max c) 1) remaining"
  define lo where "lo = min (max (size_min c) 1) hi"
  have "lo \<le> hi" "1 \<le> lo" "hi \<le> remaining" "hi \<le> max (size_max c) 1"
    using assms(2) by (auto simp: lo_def hi_def)
  moreover have "lo \<le> rnd lo hi" "rnd lo hi \<le> hi" using assms(1) \<open>lo \<le> hi\<close> by (auto simp: in_range_def)
  moreover have "pick_chunk_len rnd c remaining = (if lo \<ge> hi then hi else rnd lo hi)"
    unfolding pick_chunk_len_def Let_def lo_def hi_def ..
  ultimately show "1 \<le> pick_chunk_len rnd c remaining" "pick_chunk_len rnd c remaining \<le> remaining"
    "pick_chunk_len rnd c remaining \<le> max (size_max c) 1"
    by (simp_all del: max.bounded_iff split: if_splits)
qed

lemma chunk_length_bounds:
  "in_range rnd \<Longrightarrow> buf \<noteq> [] \<Longrightarrow> 1 \<le> chunk_length rnd st buf \<and> chunk_length rnd st buf \<le> length buf"
  using pick_chunk_len_bounds [of rnd "length buf" "cfg st"]
  by (auto simp: chunk_length_def Let_def split: option.splits)

lemma poll_write_sink:
  assumes "byte_sink wr out" "in_range rnd"
  shows "case poll_write wr rnd elapsed st buf of
     Ok (st', ReadyOk n) \<Rightarrow> n \<le> length buf \<and> out (inner st') = out (inner st) @ take n buf
   | Ok (st', _) \<Rightarrow> out (inner st') = out (inner st)
   | _ \<Rightarrow> False"
proof (cases "buf = [] \<or> \<not> fragmenting st")
  case True
  obtain s r where w: "wr (inner st) buf = (s, r)" by fastforce
  then show ?thesis
    using True assms(1) [unfolded byte_sink_def, rule_format, of "inner st" buf]
    by (cases r) (simp_all add: poll_write_def)
next
  case False
  let ?st = "st\<lparr>pending_delay := None\<rparr>"
  let ?chunk = "take (chunk_length rnd ?st buf) buf"
  have k: "chunk_length rnd ?st buf \<le> length buf" using False chunk_length_bounds [OF assms(2)] by blast
  obtain s r where w: "wr (inner st) ?chunk = (s, r)" by fastforce
  have "case r of ReadyOk n \<Rightarrow> n \<le> length ?chunk \<and> out s = out (inner st) @ take n ?chunk
      | _ \<Rightarrow> out s = out (inner st)"
    using assms(1) [unfolded byte_sink_def, rule_format, of "inner st" ?chunk] w by (cases r) simp_all
  then show ?thesis
    using False k w by (cases r) (auto simp: poll_write_def Let_def min_def split: if_splits)
qed

text \<open>A writer that offers what is left of its data again after each write, while reads come in
  between: the stream after the operations and the data still to be written.\<close>

datatype stream_op = WritePoll bool | ReadPoll

fun write_ops ::
    "('s \<Rightarrow> bytes \<Rightarrow> 's \<times> poll) \<Rightarrow> ('s \<Rightarrow> 's) \<Rightarrow> (nat \<Rightarrow> nat \<Rightarrow> nat) \<Rightarrow>
     's fragmenting_stream \<Rightarrow> bytes \<Rightarrow> stream_op list \<Rightarrow> (unit, 's fragmenting_stream \<times> bytes) run" where
  "write_ops wr rd rnd st buf [] = Ok (st, buf)"
| "write_ops wr rd rnd st buf (ReadPoll # ops) = write_ops wr rd rnd (poll_read rd st) buf ops"
| "write_ops wr rd rnd st buf (WritePoll elapsed # ops) =
     bnd (poll_write wr rnd elapsed st buf) (\<lambda>(st', r).
     write_ops wr rd rnd st' (case r of ReadyOk n \<Rightarrow> drop n buf | _ \<Rightarrow> buf) ops)"

lemma write_ops_sink:
  assumes "byte_sink wr out" "in_range rnd" "\<forall>s. out (rd s) = out s"
  shows "case write_ops wr rd rnd st buf ops of
     Ok (st', left) \<Rightarrow> out (inner st') @ left = out (inner st) @ buf | _ \<Rightarrow> False"
proof (induction ops arbitrary: st buf)
  case (Cons op ops)
  show ?case
  proof (cases op)
    case (WritePoll elapsed)
    obtain st' r where p: "poll_write wr rnd elapsed st buf = Ok (st', r)"
      using poll_write_sink [OF assms(1,2), where elapsed = elapsed and st = st and buf = buf] by (auto split: run.splits)
    have "out (inner st') @ (case r of ReadyOk n \<Rightarrow> drop n buf | _ \<Rightarrow> buf) = out (inner st) @ buf"
      using poll_write_sink [OF assms(1,2), where elapsed = elapsed and st = st and buf = buf] p by (cases r) auto
    then show ?thesis
      using Cons.IH [of st' "case r of ReadyOk n \<Rightarrow> drop n buf | _ \<Rightarrow> buf"]
      by (auto simp: WritePoll p split: run.splits)
  next
    case ReadPoll
    then show ?thesis
      using Cons.IH [of "poll_read rd st" buf] assms(3)
      by (auto simp: poll_read_def split: run.splits)
  qed
qed simp

section \<open>Properties\<close>

text \<open>C35. Fragmenting changes the cuts, never the data. However the inner stream accepts bytes,
  whatever is drawn, whenever delays run out and reads come in between, what has reached the
  inner stream followed by what is still to be written is what was there followed by what was to
  be written: no byte is lost, repeated or moved, and no slice is out of range.\<close>

theorem fragmenting_preserves_data:
  assumes "byte_sink wr out" "in_range rnd" "\<forall>s. out (rd s) = out s"
  shows "case write_ops wr rd rnd (fragmenting_new s c) buf ops of
     Ok (st, rest) \<Rightarrow> out (inner st) @ rest = out s @ buf | _ \<Rightarrow> False"
  using write_ops_sink [OF assms, of "fragmenting_new s c" buf ops]
  by (auto simp: fragmenting_new_def split: run.splits)

theorem fragmenting_preserves_data_witness:
  "case write_ops (\<lambda>s b. (s @ take 2 b, ReadyOk (min 2 (length b)))) id (\<lambda>lo hi. lo)
     (fragmenting_new [] \<lparr>enabled = True, size_min = 1, size_max = 3, delay_min_ms = 0,
        delay_max_ms = 0, sni_split = True\<rparr>) [1, 2, 3] [WritePoll True, ReadPoll, WritePoll True] of
     Ok (st, rest) \<Rightarrow> id (inner st) @ rest = id [] @ [1, 2, 3] | _ \<Rightarrow> False"
  by (rule fragmenting_preserves_data) (simp_all add: byte_sink_def in_range_def min_def)

text \<open>With the server name split on, the first write of a ClientHello that names a host ends
  strictly inside that name, so no single write carries it whole; for names of at least two
  bytes, behind any other extensions.\<close>

theorem sni_split_cuts_host:
  assumes "hello_wf h" "h_exts h = before @ (0, sni_data host) # after"
    and "\<forall>e \<in> set before. fst e \<noteq> 0" "2 \<le> length host" "sni_split c"
  shows "\<exists>s. take (length host) (drop s (client_hello major minor h)) = host \<and>
    s < chunk_length rnd (fragmenting_new str0 c) (client_hello major minor h) \<and>
    chunk_length rnd (fragmenting_new str0 c) (client_hello major minor h) < s + length host"
proof -
  have "host \<noteq> []" using assms(4) by auto
  from sni_host_range_hello [OF assms(1-3) this, of major minor]
  obtain s where s: "sni_host_range (client_hello major minor h) = Some (s, s + length host)"
    "take (length host) (drop s (client_hello major minor h)) = host" "0 < s"
    "s + length host \<le> length (client_hello major minor h)" .
  moreover have "chunk_length rnd (fragmenting_new str0 c) (client_hello major minor h) = s + length host div 2"
    using s assms(4,5) by (auto simp: chunk_length_def fragmenting_new_def)
  ultimately show ?thesis using assms(4) by (intro exI [of _ s]) auto
qed

theorem sni_split_cuts_host_witness:
  "\<exists>s. take (length (lit ''x.y'')) (drop s (client_hello 3 1 \<lparr>h_head = replicate 34 3, h_session = [], h_ciphers = [0x13, 1],
      h_compression = [0], h_exts = [(0, sni_data (lit ''x.y''))]\<rparr>)) = lit ''x.y'' \<and>
    s < chunk_length (\<lambda>lo hi. lo) (fragmenting_new () (fragment_disabled\<lparr>sni_split := True\<rparr>))
      (client_hello 3 1 \<lparr>h_head = replicate 34 3, h_session = [], h_ciphers = [0x13, 1],
      h_compression = [0], h_exts = [(0, sni_data (lit ''x.y''))]\<rparr>) \<and>
    chunk_length (\<lambda>lo hi. lo) (fragmenting_new () (fragment_disabled\<lparr>sni_split := True\<rparr>))
      (client_hello 3 1 \<lparr>h_head = replicate 34 3, h_session = [], h_ciphers = [0x13, 1],
      h_compression = [0], h_exts = [(0, sni_data (lit ''x.y''))]\<rparr>) < s + length (lit ''x.y'')"
  by (rule sni_split_cuts_host [where before = "[]" and after = "[]"])
    (simp_all add: hello_wf_def hello_bytes_def sni_data_def lit_def)

end
