(* ===== verification/Core.thy ===== *)
theory Core
  imports RustStd
begin

text \<open>
  The error type of the program (\<^verbatim>\<open>aether/src/error.rs\<close>) and the protocol constants
  (\<^verbatim>\<open>aether/src/consts.rs\<close>) more than one component reads. An error of the operating system, of
  QUIC or of HTTP/3 is represented by the text it prints.
\<close>

datatype aether_error =
    Io str
  | Quic str
  | H3 str
  | Tls str
  | Ech str
  | MasqueE str
  | NoCleanEndpoint
  | CapsuleE str
  | Api str
  | IdentityRefused str
  | Cancelled
  | Other str

definition display_error :: "aether_error \<Rightarrow> str" where
  "display_error e = (case e of
     Io m \<Rightarrow> lit ''io: '' @ m
   | Quic m \<Rightarrow> lit ''quic: '' @ m
   | H3 m \<Rightarrow> lit ''h3: '' @ m
   | Tls m \<Rightarrow> lit ''tls: '' @ m
   | Ech m \<Rightarrow> lit ''ech: '' @ m
   | MasqueE m \<Rightarrow> lit ''masque: '' @ m
   | NoCleanEndpoint \<Rightarrow> lit ''prober: no clean endpoint found''
   | CapsuleE m \<Rightarrow> lit ''capsule: '' @ m
   | Api m \<Rightarrow> lit ''api: '' @ m
   | IdentityRefused m \<Rightarrow> lit ''identity refused: '' @ m
   | Cancelled \<Rightarrow> lit ''cancelled''
   | Other m \<Rightarrow> lit ''other: '' @ m)"

definition detail :: "aether_error \<Rightarrow> str" where
  "detail e = (case e of Other message \<Rightarrow> message | other \<Rightarrow> display_error other)"

definition CONNECT_IP_CONTEXT_ID :: u64 where "CONNECT_IP_CONTEXT_ID = 0"
definition CF_CONNECT_PROTOCOL :: str where "CF_CONNECT_PROTOCOL = lit ''cf-connect-ip''"

end
