(* ===== verification/Octets.thy ===== *)
theory Octets
  imports Prelude "HOL-Library.Sublist"
begin

text \<open>
  The byte cursor the MASQUE code reads and writes its frames with
  (\<^verbatim>\<open>quiche/octets/src/lib.rs\<close>): a buffer and an offset, fixed-width integers in network order,
  QUIC variable-length integers, and runs of bytes. \<^verbatim>\<open>Octets\<close> and \<^verbatim>\<open>OctetsMut\<close> have the same two
  fields and the same getters; one record models both. The main facts are that a cursor's
  offset never passes the end of its buffer and that variable-length integers are a
  self-delimiting codec (interpretation \<open>vi\<close>).
\<close>

section \<open>State and operations\<close>

datatype octets_error = BufferTooShortError

record octets =
  obuf :: bytes
  ooff :: nat

definition with_slice :: "bytes \<Rightarrow> octets" where
  "with_slice bs = \<lparr>obuf = bs, ooff = 0\<rparr>"

definition off_ok :: "octets \<Rightarrow> bool" where
  "off_ok b \<longleftrightarrow> ooff b \<le> length (obuf b)"

text \<open>\<^verbatim>\<open>self.buf.len() - self.off\<close>; \<open>off_ok\<close>, which every operation keeps, makes the subtraction exact.\<close>

definition cap :: "octets \<Rightarrow> nat" where
  "cap b = length (obuf b) - ooff b"

definition to_vec :: "octets \<Rightarrow> (octets_error, bytes) run" where
  "to_vec b = sl (obuf b) (ooff b) (length (obuf b))"

definition peek_u :: "octets \<Rightarrow> nat \<Rightarrow> (octets_error, nat) run" where
  "peek_u b n =
     bnd (sl (obuf b) (ooff b) (length (obuf b))) (\<lambda>src.
     if length src < n then Err BufferTooShortError else Ok (from_be (take n src)))"

definition get_u :: "octets \<Rightarrow> nat \<Rightarrow> (octets_error, nat \<times> octets) run" where
  "get_u b n = bnd (peek_u b n) (\<lambda>out. Ok (out, b\<lparr>ooff := ooff b + n\<rparr>))"

definition put_u :: "octets \<Rightarrow> nat \<Rightarrow> nat \<Rightarrow> (octets_error, octets) run" where
  "put_u b v n =
     (if length (obuf b) < ooff b + n then Err BufferTooShortError
      else Ok (b\<lparr>obuf := take (ooff b) (obuf b) @ to_be n v @ drop (ooff b + n) (obuf b),
                 ooff := ooff b + n\<rparr>))"

definition get_u8 :: "octets \<Rightarrow> (octets_error, u8 \<times> octets) run" where
  "get_u8 b = bnd (get_u b 1) (\<lambda>(v, b'). Ok (of_nat v, b'))"

definition put_u8 :: "octets \<Rightarrow> u8 \<Rightarrow> (octets_error, octets) run" where
  "put_u8 b v = put_u b (unat v) 1"

definition get_bytes :: "octets \<Rightarrow> nat \<Rightarrow> (octets_error, octets \<times> octets) run" where
  "get_bytes b n =
     (if cap b < n then Err BufferTooShortError
      else bnd (sl (obuf b) (ooff b) (ooff b + n)) (\<lambda>s.
           Ok (with_slice s, b\<lparr>ooff := ooff b + n\<rparr>)))"

definition put_bytes :: "octets \<Rightarrow> bytes \<Rightarrow> (octets_error, octets) run" where
  "put_bytes b v =
     (if cap b < length v then Err BufferTooShortError
      else if length v = 0 then Ok b
      else Ok (b\<lparr>obuf := take (ooff b) (obuf b) @ v @ drop (ooff b + length v) (obuf b),
                 ooff := ooff b + length v\<rparr>))"

section \<open>Variable-length integers\<close>

definition MAX_VAR_INT :: u64 where
  "MAX_VAR_INT = 4611686018427387903"

definition varint_len :: "u64 \<Rightarrow> ('e, nat) run" where
  "varint_len v =
     (if v \<le> 63 then Ok 1 else if v \<le> 16383 then Ok 2 else if v \<le> 1073741823 then Ok 4
      else if v \<le> MAX_VAR_INT then Ok 8 else Panic)"

definition varint_parse_len :: "u8 \<Rightarrow> ('e, nat) run" where
  "varint_parse_len first =
     (let k = drop_bit 6 first in
      if k = 0 then Ok 1 else if k = 1 then Ok 2 else if k = 2 then Ok 4
      else if k = 3 then Ok 8 else Panic)"

definition get_varint :: "octets \<Rightarrow> (octets_error, u64 \<times> octets) run" where
  "get_varint b =
     bnd (peek_u b 1) (\<lambda>first.
     bnd (varint_parse_len (of_nat first)) (\<lambda>len.
     if len > cap b then Err BufferTooShortError
     else if len = 1 then bnd (get_u b 1) (\<lambda>(v, b'). Ok (of_nat v, b'))
     else if len = 2 then bnd (get_u b 2) (\<lambda>(v, b'). Ok (ucast ((of_nat v :: u16) AND 0x3fff), b'))
     else if len = 4 then bnd (get_u b 4) (\<lambda>(v, b'). Ok (ucast ((of_nat v :: u32) AND 0x3fffffff), b'))
     else if len = 8 then bnd (get_u b 8) (\<lambda>(v, b'). Ok ((of_nat v :: u64) AND 0x3fffffffffffffff, b'))
     else Panic))"

text \<open>\<^verbatim>\<open>buf[0] |= tag\<close> on the bytes just written at the old offset.\<close>

definition tag_first :: "nat \<Rightarrow> u8 \<Rightarrow> octets \<Rightarrow> octets" where
  "tag_first at tag b = b\<lparr>obuf := (obuf b)[at := obuf b ! at OR tag]\<rparr>"

definition put_varint_with_len :: "octets \<Rightarrow> u64 \<Rightarrow> nat \<Rightarrow> (octets_error, octets) run" where
  "put_varint_with_len b v len =
     (if cap b < len then Err BufferTooShortError
      else if len = 1 then put_u b (unat (ucast v :: u8)) 1
      else if len = 2 then
        bnd (put_u b (unat (ucast v :: u16)) 2) (\<lambda>b'. Ok (tag_first (ooff b) 0x40 b'))
      else if len = 4 then
        bnd (put_u b (unat (ucast v :: u32)) 4) (\<lambda>b'. Ok (tag_first (ooff b) 0x80 b'))
      else if len = 8 then
        bnd (put_u b (unat v) 8) (\<lambda>b'. Ok (tag_first (ooff b) 0xc0 b'))
      else Panic)"

definition put_varint :: "octets \<Rightarrow> u64 \<Rightarrow> (octets_error, octets) run" where
  "put_varint b v = bnd (varint_len v) (\<lambda>len. put_varint_with_len b v len)"

text \<open>The encoding RFC 9000 gives: the shortest of 1, 2, 4 or 8 bytes, with the length in the two
  high bits.\<close>

definition vlen :: "nat \<Rightarrow> nat" where
  "vlen v = (if v < 2 ^ 6 then 1 else if v < 2 ^ 14 then 2 else if v < 2 ^ 30 then 4 else 8)"

definition vtag :: "nat \<Rightarrow> nat" where
  "vtag n = (if n = 1 then 0 else if n = 2 then 2 ^ 14 else if n = 4 then 2 ^ 31 else 3 * 2 ^ 62)"

definition varint_bytes :: "u64 \<Rightarrow> bytes" where
  "varint_bytes v = to_be (vlen (unat v)) (unat v + vtag (vlen (unat v)))"

definition take_varint :: "bytes \<Rightarrow> (u64 \<times> bytes) option" where
  "take_varint bs =
     (case get_varint (with_slice bs) of
        Ok (v, b) \<Rightarrow> Some (v, drop (ooff b) bs) | _ \<Rightarrow> None)"

section \<open>The offset stays inside the buffer\<close>

lemma off_ok_with_slice [simp]: "off_ok (with_slice bs)"
  by (simp add: off_ok_def with_slice_def)

lemma peek_u_eq:
  "off_ok b \<Longrightarrow> peek_u b n =
     (if cap b < n then Err BufferTooShortError else Ok (from_be (take n (drop (ooff b) (obuf b)))))"
  by (auto simp: off_ok_def peek_u_def cap_def)

lemma get_u_eq:
  "off_ok b \<Longrightarrow> get_u b n =
     (if cap b < n then Err BufferTooShortError
      else Ok (from_be (take n (drop (ooff b) (obuf b))), b\<lparr>ooff := ooff b + n\<rparr>))"
  by (simp add: get_u_def peek_u_eq)

lemma get_bytes_eq:
  "off_ok b \<Longrightarrow> get_bytes b n =
     (if cap b < n then Err BufferTooShortError
      else Ok (with_slice (take n (drop (ooff b) (obuf b))), b\<lparr>ooff := ooff b + n\<rparr>))"
  by (auto simp: get_bytes_def off_ok_def cap_def)

text \<open>The length the two high bits of the first byte announce.\<close>

definition first_len :: "u8 \<Rightarrow> nat" where
  "first_len a = (if unat a < 64 then 1 else if unat a < 128 then 2 else if unat a < 192 then 4 else 8)"

lemma varint_parse_len_eq: "varint_parse_len a = Ok (first_len a)"
proof -
  have k: "unat (drop_bit 6 a) = unat a div 64"
    by (simp add: drop_bit_eq_div unat_div)
  have e: "drop_bit 6 a = w \<longleftrightarrow> unat a div 64 = unat w" for w :: u8
    using k by (metis word_unat_eq_iff)
  have "unat a div 64 < 4" using unat_u8_less [of a] by (simp add: div_less_iff_less_mult)
  then show ?thesis
    by (auto simp: varint_parse_len_def first_len_def Let_def e div_eq_0_iff)
qed

section \<open>Writing and reading variable-length integers\<close>

lemma or_tag:
  assumes "unat (w :: u8) < 64" and "t \<in> {0x40, 0x80, 0xc0}"
  shows "w OR t = w + t"
proof -
  have "take_bit 6 w = w"
    using assms(1) by (simp add: take_bit_eq_mod word_unat_eq_iff unat_mod)
  then have w: "w AND 63 = w" by (simp add: take_bit_eq_mask mask_eq_exp_minus_1)
  have "63 AND t = 0" using assms(2) by auto
  then have "w AND t = 0" by (metis w and.assoc and_zero_eq)
  then show ?thesis by (simp add: disjunctive_add_eq_or)
qed

lemma to_be_tag:
  assumes "v < 64 * 256 ^ n" and "t \<in> {0x40, 0x80, 0xc0}"
  shows "(to_be (Suc n) v)[0 := to_be (Suc n) v ! 0 OR t] = to_be (Suc n) (v + unat t * 256 ^ n)"
proof -
  have d: "v div 256 ^ n < 64" using assms(1) by (simp add: div_less_iff_less_mult)
  then have "unat (of_nat (v div 256 ^ n) :: u8) < 64" by (simp add: unat_u8_of_nat)
  then have "(of_nat (v div 256 ^ n) :: u8) OR t = of_nat (v div 256 ^ n) + t"
    using assms(2) by (rule or_tag)
  also have "\<dots> = of_nat ((v + unat t * 256 ^ n) div 256 ^ n)"
    by simp
  finally show ?thesis by (simp only: to_be_Cons nth_Cons_0 list_update_code to_be_add)
qed

lemma length_varint_bytes [simp]: "length (varint_bytes v) = vlen (unat v)"
  by (simp add: varint_bytes_def)

lemma vlen_cases: "vlen v = 1 \<or> vlen v = 2 \<or> vlen v = 4 \<or> vlen v = 8"
  by (simp add: vlen_def)

lemma vlen_pos [simp]: "0 < vlen v"
  using vlen_cases [of v] by auto

lemma varint_len_eq: "v \<le> MAX_VAR_INT \<Longrightarrow> varint_len v = Ok (vlen (unat v))"
  by (simp add: varint_len_def vlen_def MAX_VAR_INT_def word_le_nat_alt)

lemma put_tag:
  assumes k: "k = Suc n" and b: "off_ok b" "k \<le> cap b" and x: "x < 64 * 256 ^ n"
    and t: "t \<in> {0x40, 0x80, 0xc0}"
  shows "bnd (put_u b x k) (\<lambda>b'. Ok (tag_first (ooff b) t b')) =
    Ok (b\<lparr>obuf := take (ooff b) (obuf b) @ to_be k (x + unat t * 256 ^ n)
               @ drop (ooff b + k) (obuf b), ooff := ooff b + k\<rparr>)"
proof -
  let ?pre = "take (ooff b) (obuf b)" and ?post = "drop (ooff b + k) (obuf b)"
  have len: "length ?pre = ooff b" using b(1) by (simp add: off_ok_def)
  have "(?pre @ to_be k x @ ?post)[ooff b := (?pre @ to_be k x @ ?post) ! ooff b OR t] =
    ?pre @ (to_be k x)[0 := to_be k x ! 0 OR t] @ ?post"
    using len by (simp add: k list_update_append nth_append to_be_Cons del: to_be.simps)
  also have "\<dots> = ?pre @ to_be k (x + unat t * 256 ^ n) @ ?post"
    using to_be_tag [OF x t] by (simp add: k)
  finally show ?thesis
    using b by (simp add: put_u_def tag_first_def off_ok_def cap_def)
qed

lemma put_varint_eq:
  assumes "off_ok b" "v \<le> MAX_VAR_INT" "vlen (unat v) \<le> cap b"
  shows "put_varint b v =
    Ok (b\<lparr>obuf := take (ooff b) (obuf b) @ varint_bytes v @ drop (ooff b + vlen (unat v)) (obuf b),
          ooff := ooff b + vlen (unat v)\<rparr>)"
proof -
  have max: "unat v < 2 ^ 62" using assms(2) by (simp add: MAX_VAR_INT_def word_le_nat_alt)
  have low: "unat (ucast v :: u8) = unat v mod 256" "unat (ucast v :: u16) = unat v mod 65536"
    "unat (ucast v :: u32) = unat v mod 4294967296"
    by (simp_all add: unsigned_ucast_eq take_bit_eq_mod)
  consider (1) "unat v < 64" | (2) "64 \<le> unat v" "unat v < 16384"
    | (4) "16384 \<le> unat v" "unat v < 1073741824" | (8) "1073741824 \<le> unat v"
    by linarith
  then show ?thesis
  proof cases
    case 1
    then show ?thesis
      using assms max low
      by (simp add: put_varint_def varint_len_eq put_varint_with_len_def put_u_def varint_bytes_def
          vlen_def vtag_def cap_def off_ok_def)
  next
    case 2
    then show ?thesis
      using assms max low put_tag [of 2 1 b "unat v" "0x40"]
      by (simp add: put_varint_def varint_len_eq put_varint_with_len_def varint_bytes_def
          vlen_def vtag_def del: to_be.simps)
  next
    case 4
    then show ?thesis
      using assms max low put_tag [of 4 3 b "unat v" "0x80"]
      by (simp add: put_varint_def varint_len_eq put_varint_with_len_def varint_bytes_def
          vlen_def vtag_def del: to_be.simps)
  next
    case 8
    then show ?thesis
      using assms max low put_tag [of 8 7 b "unat v" "0xc0"]
      by (simp add: put_varint_def varint_len_eq put_varint_with_len_def varint_bytes_def
          vlen_def vtag_def del: to_be.simps)
  qed
qed

lemma unat_and_mask: "unat (w AND mask n) = unat w mod 2 ^ n"
proof -
  have "unat (take_bit n w) = take_bit n (unat w)" by (rule unsigned_take_bit_eq)
  then show ?thesis by (simp only: take_bit_eq_mask [symmetric]) (simp only: take_bit_eq_mod)
qed

lemma masked [simp]:
  "unat (w AND 0x3fff :: u16) = unat w mod 2 ^ 14"
  "unat (x AND 0x3fffffff :: u32) = unat x mod 2 ^ 30"
  "unat (y AND 0x3fffffffffffffff :: u64) = unat y mod 2 ^ 62"
  using unat_and_mask [of w 14] unat_and_mask [of x 30] unat_and_mask [of y 62]
  by (simp_all add: mask_eq_exp_minus_1)

lemma widened:
  "v < 65536 \<Longrightarrow> ucast ((of_nat v :: u16) AND 0x3fff) = (of_nat (v mod 2 ^ 14) :: u64)"
  "v < 4294967296 \<Longrightarrow> ucast ((of_nat v :: u32) AND 0x3fffffff) = (of_nat (v mod 2 ^ 30) :: u64)"
  "v < 18446744073709551616 \<Longrightarrow>
     (of_nat v :: u64) AND 0x3fffffffffffffff = of_nat (v mod 2 ^ 62)"
  by (simp_all add: word_unat_eq_iff unsigned_ucast_eq take_bit_eq_mod unat_of_nat)

text \<open>What a read returns, in terms of the bytes at the cursor.\<close>

lemma get_varint_eq:
  assumes b: "off_ok b" "cap b > 0" and n: "n = first_len (obuf b ! ooff b)"
  shows "get_varint b =
    (if n > cap b then Err BufferTooShortError
     else Ok (of_nat (from_be (take n (drop (ooff b) (obuf b))) mod 2 ^ (8 * n - 2)),
              b\<lparr>ooff := ooff b + n\<rparr>))"
proof -
  let ?d = "drop (ooff b) (obuf b)"
  obtain r where r: "?d = (obuf b ! ooff b) # r"
    using b(2) by (metis Cons_nth_drop_Suc cap_def zero_less_diff)
  have peek: "peek_u b (Suc 0) = Ok (unat (obuf b ! ooff b))"
    using b r by (simp add: peek_u_eq)
  have lt: "from_be (take k ?d) < 256 ^ k" if "k \<le> cap b" for k
    using from_be_less [of "take k ?d"] that by (simp add: min_absorb2 cap_def)
  have red: "get_varint b =
    (if n > cap b then Err BufferTooShortError
     else if n = 1 then bnd (get_u b 1) (\<lambda>(v, b'). Ok (of_nat v, b'))
     else if n = 2 then bnd (get_u b 2) (\<lambda>(v, b'). Ok (ucast ((of_nat v :: u16) AND 0x3fff), b'))
     else if n = 4 then bnd (get_u b 4) (\<lambda>(v, b'). Ok (ucast ((of_nat v :: u32) AND 0x3fffffff), b'))
     else bnd (get_u b 8) (\<lambda>(v, b'). Ok ((of_nat v :: u64) AND 0x3fffffffffffffff, b')))"
    by (simp add: get_varint_def peek varint_parse_len_eq n) (simp add: first_len_def)
  consider "n > cap b" | "n \<le> cap b" "n = 1" "unat (obuf b ! ooff b) < 64"
    | "n \<le> cap b" "n = 2" | "n \<le> cap b" "n = 4" | "n \<le> cap b" "n = 8"
    using n by (cases "n > cap b") (auto simp: first_len_def split: if_splits)
  then show ?thesis
    using b(1) lt [of n] r by cases (simp_all add: red get_u_eq widened)
qed

text \<open>The encoding is self-delimiting: its first byte announces its length, and a read that starts
  on it returns the value and stops where it ends.\<close>

lemma first_len_varint_bytes:
  assumes "v \<le> MAX_VAR_INT"
  shows "first_len (varint_bytes v ! 0) = vlen (unat v)"
proof -
  have max: "unat v < 2 ^ 62" using assms by (simp add: MAX_VAR_INT_def word_le_nat_alt)
  obtain n where n: "vlen (unat v) = Suc n" "n = 0 \<or> n = 1 \<or> n = 3 \<or> n = 7"
    using vlen_cases [of "unat v"] by force
  define t :: nat where "t = (if n = 0 then 0 else if n = 1 then 64 else if n = 3 then 128 else 192)"
  have t: "vtag (Suc n) = t * 256 ^ n" using n(2) by (auto simp: t_def vtag_def)
  have "unat v < 64 * 256 ^ n" using n max by (auto simp: vlen_def split: if_splits)
  then have hi: "unat v div 256 ^ n < 64" by (simp add: less_mult_imp_div_less)
  have "varint_bytes v ! 0 = of_nat ((unat v + t * 256 ^ n) div 256 ^ n)"
    by (simp only: varint_bytes_def n(1) to_be_Cons nth_Cons_0 t)
  then have "varint_bytes v ! 0 = of_nat (unat v div 256 ^ n + t)"
    by (simp add: add.commute del: of_nat_add)
  then have "unat (varint_bytes v ! 0) = (unat v div 256 ^ n + t) mod 256"
    by (simp only: unat_u8_of_nat)
  moreover have "t \<le> 192" by (simp add: t_def)
  ultimately have "unat (varint_bytes v ! 0) = unat v div 256 ^ n + t" using hi by simp
  then show ?thesis using n hi by (auto simp: first_len_def t_def)
qed

lemma from_be_varint_bytes:
  assumes "v \<le> MAX_VAR_INT"
  shows "from_be (varint_bytes v) mod 2 ^ (8 * vlen (unat v) - 2) = unat v"
proof -
  have max: "unat v < 2 ^ 62" using assms by (simp add: MAX_VAR_INT_def word_le_nat_alt)
  define n where "n = vlen (unat v)"
  define m :: nat where "m = 2 ^ (8 * n - 2)"
  have n: "unat v < m" "256 ^ n = 4 * m" "vtag n = 0 \<or> vtag n = m \<or> vtag n = 2 * m \<or> vtag n = 3 * m"
    using max by (simp_all add: n_def m_def vlen_def vtag_def)
  have "from_be (varint_bytes v) = unat v + vtag n"
    using n by (auto simp: varint_bytes_def from_be_to_be n_def)
  then show ?thesis using n by (auto simp flip: n_def m_def)
qed

lemma get_varint_varint_bytes:
  assumes v: "v \<le> MAX_VAR_INT"
  shows "get_varint (with_slice (varint_bytes v @ rest)) =
    Ok (v, (with_slice (varint_bytes v @ rest))\<lparr>ooff := vlen (unat v)\<rparr>)"
proof -
  let ?b = "with_slice (varint_bytes v @ rest)"
  have "first_len (obuf ?b ! ooff ?b) = vlen (unat v)"
    using first_len_varint_bytes [OF v] by (simp add: with_slice_def nth_append)
  then show ?thesis
    using get_varint_eq [of ?b "vlen (unat v)"] from_be_varint_bytes [OF v]
    by (simp add: off_ok_with_slice) (simp add: with_slice_def cap_def)
qed

text \<open>Every successful read stays on the same buffer and moves the offset forward inside it; no
  read panics on a cursor whose offset is inside its buffer.\<close>

definition advanced :: "octets \<Rightarrow> nat \<Rightarrow> octets \<Rightarrow> bool" where
  "advanced b n b' \<longleftrightarrow> off_ok b \<and> n \<le> cap b \<and> b' = b\<lparr>ooff := ooff b + n\<rparr>"

lemma advanced_simps:
  assumes "advanced b n b'"
  shows "off_ok b" "off_ok b'" "obuf b' = obuf b" "ooff b' = ooff b + n" "cap b' = cap b - n" "n \<le> cap b"
  using assms by (auto simp: advanced_def off_ok_def cap_def)

lemma advanced_less: "advanced b n b' \<Longrightarrow> 0 < n \<Longrightarrow> cap b' < cap b"
  by (auto simp: advanced_def cap_def off_ok_def)

lemma advanced_trans: "advanced b n b' \<Longrightarrow> advanced b' m b'' \<Longrightarrow> advanced b (n + m) b''"
  by (auto simp: advanced_def cap_def off_ok_def)

lemma get_u_Ok: "get_u b n = Ok (v, b') \<longleftrightarrow> advanced b n b' \<and> v = from_be (take n (drop (ooff b) (obuf b)))"
  by (auto simp: get_u_def peek_u_def sl_def advanced_def off_ok_def cap_def run_simps split: if_splits)

lemma get_u8_Ok: "get_u8 b = Ok (v, b') \<longleftrightarrow> advanced b 1 b' \<and> v = obuf b ! ooff b"
proof -
  have "take (Suc 0) (drop (ooff b) (obuf b)) = [obuf b ! ooff b]" if "Suc 0 \<le> cap b"
    using that by (simp add: cap_def take_Suc_conv_app_nth hd_drop_conv_nth)
  then show ?thesis
    by (auto simp: get_u8_def run_simps get_u_Ok advanced_def from_be_def)
qed

lemma get_bytes_Ok:
  "get_bytes b n = Ok (s, b') \<longleftrightarrow> advanced b n b' \<and> s = with_slice (take n (drop (ooff b) (obuf b)))"
  by (auto simp: get_bytes_def sl_def advanced_def off_ok_def cap_def split: if_splits)

lemma get_varint_Ok: "get_varint b = Ok (v, b') \<Longrightarrow> \<exists>n. 0 < n \<and> n \<le> 8 \<and> advanced b n b'"
  using exI [of "\<lambda>n. 0 < n \<and> n \<le> 8 \<and> advanced b n b'" 2]
    exI [of "\<lambda>n. 0 < n \<and> n \<le> 8 \<and> advanced b n b'" 4]
  by (auto simp: get_varint_def run_simps get_u_Ok split: if_splits)

lemma to_vec_with_slice [simp]: "to_vec (with_slice bs) = Ok bs"
  by (simp add: to_vec_def with_slice_def)

lemma safe_gets [simp]:
  assumes "off_ok b"
  shows "safe (get_u b n)" "safe (get_u8 b)" "safe (get_bytes b n)" "safe (get_varint b)"
proof -
  show u: "safe (get_u b n)" for n using assms by (simp add: get_u_eq)
  then show "safe (get_u8 b)" by (auto simp: get_u8_def intro!: safe_bnd)
  show "safe (get_bytes b n)" using assms by (auto simp: get_bytes_def off_ok_def cap_def)
  have "safe (peek_u b 1)" using assms by (simp add: peek_u_eq)
  then show "safe (get_varint b)"
    using u by (auto simp: get_varint_def varint_parse_len_eq first_len_def intro!: safe_bnd)
qed

lemmas reads_Ok = get_u8_Ok get_bytes_Ok

text \<open>Writing into a zeroed buffer, behind what is already there.\<close>

definition blank :: "bytes \<Rightarrow> nat \<Rightarrow> octets" where
  "blank pre k = \<lparr>obuf = pre @ replicate k 0, ooff = length pre\<rparr>"

lemma blank_start: "with_slice (replicate k 0) = blank [] k"
  by (simp add: blank_def with_slice_def)

lemma off_ok_blank [simp]: "off_ok (blank pre k)" and cap_blank [simp]: "cap (blank pre k) = k"
  by (simp_all add: blank_def off_ok_def cap_def)

lemma obuf_blank_0 [simp]: "obuf (blank pre 0) = pre"
  by (simp add: blank_def)

lemma put_varint_blank:
  "v \<le> MAX_VAR_INT \<Longrightarrow> vlen (unat v) \<le> k \<Longrightarrow>
     put_varint (blank pre k) v = Ok (blank (pre @ varint_bytes v) (k - vlen (unat v)))"
  by (simp add: put_varint_eq) (simp add: blank_def)

lemma put_bytes_blank:
  "length v \<le> k \<Longrightarrow> put_bytes (blank pre k) v = Ok (blank (pre @ v) (k - length v))"
  by (auto simp: put_bytes_def) (simp_all add: blank_def)

lemma put_u8_blank:
  "1 \<le> k \<Longrightarrow> put_u8 (blank pre k) v = Ok (blank (pre @ [v]) (k - 1))"
  by (simp add: put_u8_def put_u_def blank_def)

lemmas puts_blank = put_varint_blank put_bytes_blank put_u8_blank

text \<open>A read sees only the bytes from the offset on: \<open>left\<close>. On those it is the list function
  \<open>take_varint\<close>, which is stable under more input.\<close>

definition left :: "octets \<Rightarrow> bytes" where
  "left b = drop (ooff b) (obuf b)"

lemma left_with_slice [simp]: "left (with_slice bs) = bs"
  by (simp add: left_def with_slice_def)

lemma length_left [simp]: "length (left b) = cap b"
  by (simp add: left_def cap_def)

lemma take_varint_Nil [simp]: "take_varint [] = None"
  by (simp add: take_varint_def get_varint_def peek_u_def with_slice_def)

lemma take_varint_Cons:
  assumes "n = first_len a"
  shows "take_varint (a # s) =
    (if n > length (a # s) then None
     else Some (of_nat (from_be (take n (a # s)) mod 2 ^ (8 * n - 2)), drop n (a # s)))"
proof -
  let ?b = "with_slice (a # s)"
  have "get_varint ?b = (if n > cap ?b then Err BufferTooShortError
      else Ok (of_nat (from_be (take n (drop (ooff ?b) (obuf ?b))) mod 2 ^ (8 * n - 2)), ?b\<lparr>ooff := ooff ?b + n\<rparr>))"
    using assms by (intro get_varint_eq) (simp_all add: with_slice_def cap_def off_ok_def)
  then show ?thesis by (simp add: take_varint_def) (simp add: with_slice_def cap_def)
qed

lemma get_varint_take:
  assumes "off_ok b"
  shows "get_varint b = (case take_varint (left b) of
     None \<Rightarrow> Err BufferTooShortError | Some (v, r) \<Rightarrow> Ok (v, b\<lparr>ooff := length (obuf b) - length r\<rparr>))"
proof (cases "cap b = 0")
  case True
  then show ?thesis
    using assms by (simp add: get_varint_def peek_u_eq left_def cap_def off_ok_def)
next
  case False
  then have l: "left b = obuf b ! ooff b # drop (Suc (ooff b)) (obuf b)"
    using assms by (simp add: left_def cap_def off_ok_def Cons_nth_drop_Suc)
  then have d: "obuf b ! ooff b # drop (Suc (ooff b)) (obuf b) = drop (ooff b) (obuf b)"
    by (simp add: left_def)
  show ?thesis
    unfolding l take_varint_Cons [OF refl]
    using False assms by (simp add: get_varint_eq d del: drop_Suc_Cons take_Suc_Cons) (simp add: cap_def off_ok_def)
qed

lemma take_varint_split:
  assumes "take_varint bs = Some (v, r)"
  shows "\<exists>p. bs = p @ r \<and> 0 < length p \<and> length p \<le> 8 \<and> (\<forall>x. take_varint (p @ x) = Some (v, x))"
proof -
  obtain a s where bs: "bs = a # s" using assms by (cases bs) auto
  have n: "0 < first_len a" "first_len a \<le> 8" by (simp_all add: first_len_def)
  then obtain t where t: "take (first_len a) (a # s) = a # t" by (cases "first_len a") auto
  from assms have le: "first_len a \<le> length (a # s)" and r: "r = drop (first_len a) (a # s)"
    by (auto simp: bs take_varint_Cons [OF refl] split: if_splits)
  have len: "length (a # t) = first_len a" using le t by (metis length_take min_absorb2)
  have "take_varint ((a # t) @ x) = Some (v, x)" for x
    using assms le t by (simp add: bs take_varint_Cons [OF refl] flip: len split: if_splits)
  moreover have "bs = (a # t) @ r" using t r bs by (metis append_take_drop_id)
  ultimately show ?thesis using n len by metis
qed

lemma take_varint_append: "take_varint bs = Some (v, r) \<Longrightarrow> take_varint (bs @ x) = Some (v, r @ x)"
  using take_varint_split by fastforce

lemma take_varint_le: "take_varint bs = Some (v, r) \<Longrightarrow> length r < length bs"
  using take_varint_split by fastforce

interpretation vi: stream_codec varint_bytes take_varint "\<lambda>v. v \<le> MAX_VAR_INT"
  by unfold_locales
    (simp_all add: take_varint_append take_varint_le, simp add: take_varint_def get_varint_varint_bytes)

text \<open>The cursor on \<open>d\<close> that has the suffix \<open>r\<close> left. Each read takes it to the cursor that has a
  shorter suffix left, so a reader over cursors becomes a function on lists.\<close>

definition cur :: "bytes \<Rightarrow> bytes \<Rightarrow> octets" where
  "cur d r = \<lparr>obuf = d, ooff = length d - length r\<rparr>"

lemma with_slice_cur: "with_slice d = cur d d"
  by (simp add: with_slice_def cur_def)

lemma left_cur: "suffix r d \<Longrightarrow> left (cur d r) = r"
  by (auto simp: left_def cur_def suffix_def)

lemma cap_cur [simp]: "suffix r d \<Longrightarrow> cap (cur d r) = length r"
  by (auto simp: cap_def cur_def suffix_def)

lemma off_cur [simp]: "obuf (cur d r) = d" "off_ok (cur d r)"
  by (auto simp: cur_def off_ok_def)

lemma drop_ooff_cur [simp]: "suffix r d \<Longrightarrow> drop (ooff (cur d r)) d = r"
  by (auto simp: cur_def suffix_def)

lemma suffix_drop_d: "suffix r d \<Longrightarrow> suffix (drop n r) d"
  by (meson suffix_drop suffix_order.trans)

lemma suffix_varint: "take_varint r = Some (v, s) \<Longrightarrow> suffix r d \<Longrightarrow> suffix s d"
  using take_varint_split [of r v s] by (auto simp: suffix_def)

lemma get_varint_cur:
  "suffix r d \<Longrightarrow> get_varint (cur d r) = (case take_varint r of
     None \<Rightarrow> Err BufferTooShortError | Some (v, s) \<Rightarrow> Ok (v, cur d s))"
  by (auto simp: get_varint_take left_cur split: option.splits) (simp add: cur_def)

lemma get_u8_cur:
  assumes "suffix r d"
  shows "get_u8 (cur d r) = (case r of [] \<Rightarrow> Err BufferTooShortError | a # s \<Rightarrow> Ok (a, cur d s))"
  using assms
  by (cases r) (auto simp: get_u8_def get_u_eq cur_def suffix_def cap_def from_be_def off_ok_def)

lemma get_bytes_cur:
  assumes "suffix r d"
  shows "get_bytes (cur d r) n =
    (if length r < n then Err BufferTooShortError else Ok (with_slice (take n r), cur d (drop n r)))"
  using assms by (auto simp: get_bytes_eq) (auto simp: cur_def suffix_def)

lemmas cursor_reads = get_varint_cur get_u8_cur get_bytes_cur suffix_varint suffix_drop_d suffix_ConsD

end
