(* ===== verification/Masque.thy ===== *)
theory Masque
  imports Core Octets
begin

text \<open>
  The MASQUE framing of \<^verbatim>\<open>aether/src/masque.rs\<close>: IP packets in HTTP datagrams, capsules on a
  byte stream and the incremental parser that takes them off it, the address and route
  capsules, and the probe packet. The receive side runs over a cursor of \<^verbatim>\<open>octets\<close>; a panic of
  that cursor is a panic here. \<^verbatim>\<open>usize\<close> has \<open>w\<close> bits where the code casts into it.
\<close>

section \<open>Data\<close>

definition CAPSULE_ADDRESS_ASSIGN :: u64 where "CAPSULE_ADDRESS_ASSIGN = 1"
definition CAPSULE_ADDRESS_REQUEST :: u64 where "CAPSULE_ADDRESS_REQUEST = 2"
definition CAPSULE_ROUTE_ADVERTISEMENT :: u64 where "CAPSULE_ROUTE_ADVERTISEMENT = 3"
definition CAPSULE_DATAGRAM :: u64 where "CAPSULE_DATAGRAM = 0"

lemmas capsule_kinds = CAPSULE_ADDRESS_ASSIGN_def CAPSULE_ADDRESS_REQUEST_def
  CAPSULE_ROUTE_ADVERTISEMENT_def CAPSULE_DATAGRAM_def

record assigned_address =
  request_id :: u64
  aa_ip_version :: u8
  aa_address :: bytes
  prefix_len :: u8

record route_advertisement =
  ra_ip_version :: u8
  ra_start :: bytes
  ra_end :: bytes
  protocol :: u8

datatype capsule =
    AddressAssign "assigned_address list"
  | AddressRequest
  | Datagram bytes
  | RouteAdvertisement "route_advertisement list"
  | Unknown u64 bytes

record capsule_parser =
  cbuf :: bytes

section \<open>HTTP datagrams\<close>

definition connect_ip_request :: "str \<Rightarrow> str \<Rightarrow> (bytes \<times> bytes) list" where
  "connect_ip_request authority path =
     [(lit '':method'', lit ''CONNECT''),
      (lit '':protocol'', CF_CONNECT_PROTOCOL),
      (lit '':scheme'', lit ''https''),
      (lit '':authority'', authority),
      (lit '':path'', path),
      (lit ''user-agent'', []),
      (lit ''capsule-protocol'', lit ''?1'')]"

definition quarter_stream_id :: "u64 \<Rightarrow> u64" where
  "quarter_stream_id stream_id = stream_id div 4"

definition masque_varint_len :: "u64 \<Rightarrow> nat" where
  "masque_varint_len v =
     (if v < 64 then 1 else if v < 16384 then 2 else if v < 1073741824 then 4 else 8)"

definition oct :: "octets_error \<Rightarrow> aether_error" where
  "oct e = CapsuleE (lit ''BufferTooShortError'')"

definition encode_ip_datagram :: "u64 \<Rightarrow> bytes \<Rightarrow> (aether_error, bytes) run" where
  "encode_ip_datagram stream_id ip_packet =
     (let qsid = quarter_stream_id stream_id;
          ctx = CONNECT_IP_CONTEXT_ID;
          n = masque_varint_len qsid + masque_varint_len ctx + length ip_packet in
      bnd (map_err oct (put_varint (with_slice (replicate n 0)) qsid)) (\<lambda>b.
      bnd (map_err oct (put_varint b ctx)) (\<lambda>b.
      bnd (map_err oct (put_bytes b ip_packet)) (\<lambda>b.
      Ok (obuf b)))))"

definition decode_ip_datagram :: "bytes \<Rightarrow> u64 \<Rightarrow> (aether_error, bytes option) run" where
  "decode_ip_datagram datagram expect_stream_id =
     bnd (map_err oct (get_varint (with_slice datagram))) (\<lambda>(qsid, b).
     if qsid \<noteq> quarter_stream_id expect_stream_id then Ok None
     else bnd (map_err oct (get_varint b)) (\<lambda>(ctx, b).
     if ctx \<noteq> CONNECT_IP_CONTEXT_ID then Ok None
     else bnd (map_err oct (get_bytes b (cap b))) (\<lambda>(payload, _).
     bnd (map_err oct (to_vec payload)) (\<lambda>v. Ok (Some v)))))"

section \<open>Writing capsules\<close>

definition capsule_len :: "u64 \<Rightarrow> bytes \<Rightarrow> nat" where
  "capsule_len kind v =
     masque_varint_len kind + masque_varint_len (of_nat (length v)) + length v"

text \<open>\<^verbatim>\<open>let _ = b.put_...\<close>: a failed write leaves the cursor as it was, a panic goes on.\<close>

definition ignoring :: "octets \<Rightarrow> (octets_error, octets) run \<Rightarrow> ('e, octets) run" where
  "ignoring b r = (case r of Ok b' \<Rightarrow> Ok b' | Err _ \<Rightarrow> Ok b | Panic \<Rightarrow> Panic)"

definition append_capsule :: "bytes \<Rightarrow> u64 \<Rightarrow> bytes \<Rightarrow> ('e, bytes) run" where
  "append_capsule out kind v =
     (let b = with_slice (replicate (capsule_len kind v) 0) in
      bnd (ignoring b (put_varint b kind)) (\<lambda>b.
      bnd (ignoring b (put_varint b (of_nat (length v)))) (\<lambda>b.
      bnd (ignoring b (put_bytes b v)) (\<lambda>b.
      Ok (out @ obuf b)))))"

definition encode_capsule :: "u64 \<Rightarrow> bytes \<Rightarrow> ('e, bytes) run" where
  "encode_capsule kind v = append_capsule [] kind v"

definition encode_address_request :: "u64 \<Rightarrow> u8 \<Rightarrow> u8 \<Rightarrow> ('e, bytes) run" where
  "encode_address_request rid ip_version plen =
     (let b = with_slice (replicate (masque_varint_len rid + 1 + 1) 0) in
      bnd (ignoring b (put_varint b rid)) (\<lambda>b.
      bnd (ignoring b (put_u8 b ip_version)) (\<lambda>b.
      bnd (ignoring b (put_u8 b plen)) (\<lambda>b.
      encode_capsule CAPSULE_ADDRESS_REQUEST (obuf b)))))"

definition encode_datagram_capsule :: "bytes \<Rightarrow> ('e, bytes) run" where
  "encode_datagram_capsule ip_packet = encode_capsule CAPSULE_DATAGRAM ip_packet"

definition append_datagram_capsule :: "bytes \<Rightarrow> bytes \<Rightarrow> ('e, bytes) run" where
  "append_datagram_capsule out ip_packet = append_capsule out CAPSULE_DATAGRAM ip_packet"

section \<open>Datagram payloads\<close>

definition looks_like_ip_packet :: "bytes \<Rightarrow> bool" where
  "looks_like_ip_packet data = (case data of
     [] \<Rightarrow> False
   | first # _ \<Rightarrow> drop_bit 4 first \<in> {4, 6} \<and> length data \<ge> 20)"

definition bare_packet :: "bytes \<Rightarrow> bytes opt" where
  "bare_packet payload = (if looks_like_ip_packet payload then Ok payload else Err ())"

definition strip_datagram_context :: "bytes \<Rightarrow> bytes opt" where
  "strip_datagram_context payload =
     (if payload = [] then Err ()
      else (case get_varint (with_slice payload) of
        Ok (ctx, b) \<Rightarrow>
          if ctx = CONNECT_IP_CONTEXT_ID then
            bnd (sl payload (length payload - cap b) (length payload)) (\<lambda>inner.
            if looks_like_ip_packet inner then Ok inner else bare_packet payload)
          else bare_packet payload
      | Err _ \<Rightarrow> bare_packet payload
      | Panic \<Rightarrow> Panic))"

section \<open>Address and route capsules\<close>

definition addr_len :: "u8 \<Rightarrow> (aether_error, nat) run" where
  "addr_len ip_version =
     (if ip_version = 4 then Ok 4 else if ip_version = 6 then Ok 16
      else Err (CapsuleE (lit ''bad ip version '' @ show_nat (unat ip_version))))"

text \<open>One turn of each loop. The recursion is on the bytes left.\<close>

definition get_assigned :: "octets \<Rightarrow> (aether_error, assigned_address \<times> octets) run" where
  "get_assigned b =
     bnd (map_err oct (get_varint b)) (\<lambda>(rid, b1).
     bnd (map_err oct (get_u8 b1)) (\<lambda>(ver, b2).
     bnd (addr_len ver) (\<lambda>n.
     bnd (map_err oct (get_bytes b2 n)) (\<lambda>(s, b3).
     bnd (map_err oct (to_vec s)) (\<lambda>addr.
     bnd (map_err oct (get_u8 b3)) (\<lambda>(plen, b4).
     Ok (\<lparr>request_id = rid, aa_ip_version = ver, aa_address = addr, prefix_len = plen\<rparr>, b4)))))))"

definition get_route :: "octets \<Rightarrow> (aether_error, route_advertisement \<times> octets) run" where
  "get_route b =
     bnd (map_err oct (get_u8 b)) (\<lambda>(ver, b1).
     bnd (addr_len ver) (\<lambda>n.
     bnd (map_err oct (get_bytes b1 n)) (\<lambda>(s, b2).
     bnd (map_err oct (to_vec s)) (\<lambda>st.
     bnd (map_err oct (get_bytes b2 n)) (\<lambda>(e, b3).
     bnd (map_err oct (to_vec e)) (\<lambda>en.
     bnd (map_err oct (get_u8 b3)) (\<lambda>(proto, b4).
     Ok (\<lparr>ra_ip_version = ver, ra_start = st, ra_end = en, protocol = proto\<rparr>, b4))))))))"

text \<open>\<^verbatim>\<open>while b.cap() > 0\<close> around one of them: a turn that succeeds has consumed bytes.\<close>

lemma get_assigned_progress:
  assumes "get_assigned b = Ok (a, b')" shows "cap b' < cap b"
  using assms
  by (auto simp: get_assigned_def run_simps reads_Ok dest!: get_varint_Ok)
    (meson add_gr_0 advanced_less advanced_trans)

lemma get_route_progress:
  assumes "get_route b = Ok (a, b')" shows "cap b' < cap b"
  using assms
  by (auto simp: get_route_def run_simps reads_Ok)
    (meson add_gr_0 advanced_less advanced_trans zero_less_Suc)

function assigned_loop ::
    "octets \<Rightarrow> assigned_address list \<Rightarrow> (aether_error, assigned_address list) run" where
  "assigned_loop b out =
     (if cap b > 0 then bnd (get_assigned b) (\<lambda>(a, b'). assigned_loop b' (out @ [a])) else Ok out)"
  by pat_completeness auto
termination
  by (relation "measure (\<lambda>(b, _). cap b)") (auto simp: get_assigned_progress)

function route_loop ::
    "octets \<Rightarrow> route_advertisement list \<Rightarrow> (aether_error, route_advertisement list) run" where
  "route_loop b out =
     (if cap b > 0 then bnd (get_route b) (\<lambda>(r, b'). route_loop b' (out @ [r])) else Ok out)"
  by pat_completeness auto
termination
  by (relation "measure (\<lambda>(b, _). cap b)") (auto simp: get_route_progress)

declare assigned_loop.simps [simp del] route_loop.simps [simp del]

definition parse_address_assign :: "bytes \<Rightarrow> (aether_error, assigned_address list) run" where
  "parse_address_assign v = assigned_loop (with_slice v) []"

definition parse_route_advertisement :: "bytes \<Rightarrow> (aether_error, route_advertisement list) run" where
  "parse_route_advertisement v = route_loop (with_slice v) []"

section \<open>The capsule parser\<close>

definition MAX_CAPSULE_BUF :: nat where "MAX_CAPSULE_BUF = 256 * 1024"

definition capsule_parser_new :: capsule_parser where
  "capsule_parser_new = \<lparr>cbuf = []\<rparr>"

definition capsule_push :: "capsule_parser \<Rightarrow> bytes \<Rightarrow> capsule_parser" where
  "capsule_push p data =
     (if length (cbuf p) + length data > MAX_CAPSULE_BUF then p\<lparr>cbuf := []\<rparr>
      else p\<lparr>cbuf := cbuf p @ data\<rparr>)"

definition capsule_of :: "u64 \<Rightarrow> bytes \<Rightarrow> (aether_error, capsule) run" where
  "capsule_of kind v =
     (if kind = CAPSULE_ADDRESS_ASSIGN then bnd (parse_address_assign v) (\<lambda>as. Ok (AddressAssign as))
      else if kind = CAPSULE_ADDRESS_REQUEST then Ok AddressRequest
      else if kind = CAPSULE_ROUTE_ADVERTISEMENT then
        bnd (parse_route_advertisement v) (\<lambda>rs. Ok (RouteAdvertisement rs))
      else if kind = CAPSULE_DATAGRAM then Ok (Datagram v)
      else Ok (Unknown kind v))"

text \<open>\<^verbatim>\<open>next\<close>: the outcome and the parser it leaves. The bytes of a capsule are dropped from the
  buffer before its value is parsed, also when that fails.\<close>

definition capsule_next ::
    "nat \<Rightarrow> capsule_parser \<Rightarrow> (aether_error, capsule option) run \<times> capsule_parser" where
  "capsule_next w p =
     (case get_varint (with_slice (cbuf p)) of
        Panic \<Rightarrow> (Panic, p)
      | Err _ \<Rightarrow> (Ok None, p)
      | Ok (kind, b1) \<Rightarrow>
        (case get_varint b1 of
           Panic \<Rightarrow> (Panic, p)
         | Err _ \<Rightarrow> (Ok None, p)
         | Ok (v, b2) \<Rightarrow>
           let len = unat v mod 2 ^ w in
           if cap b2 < len then (Ok None, p)
           else (case get_bytes b2 len of
              Panic \<Rightarrow> (Panic, p)
            | Err e \<Rightarrow> (Err (oct e), p)
            | Ok (s, b3) \<Rightarrow>
              (case to_vec s of
                 Ok val \<Rightarrow>
                   (bnd (capsule_of kind val) (\<lambda>c. Ok (Some c)), p\<lparr>cbuf := drop (ooff b3) (cbuf p)\<rparr>)
               | Err e \<Rightarrow> (Err (oct e), p)
               | Panic \<Rightarrow> (Panic, p)))))"

section \<open>The probe packet\<close>

fun sum_words :: "u32 \<Rightarrow> bytes \<Rightarrow> u32" where
  "sum_words acc [] = acc"
| "sum_words acc [a] = acc + push_bit 8 (ucast a)"
| "sum_words acc (a # b # bs) = sum_words (acc + ucast (u16_be a b)) bs"

function fold_carries :: "u32 \<Rightarrow> u32" where
  "fold_carries acc =
     (if drop_bit 16 acc \<noteq> 0 then fold_carries ((acc AND 0xffff) + drop_bit 16 acc) else acc)"
  by pat_completeness auto


lemma unat_low16 [simp]: "unat (a AND 0xffff :: u32) = unat a mod 65536"
  using unat_and_mask [of a 16] by (simp add: mask_eq_exp_minus_1)

lemma unat_high16 [simp]: "unat (drop_bit 16 a :: u32) = unat a div 65536"
  by (simp add: drop_bit_eq_div unat_div)

lemma unat_fold_step: "unat ((a AND 0xffff) + drop_bit 16 a :: u32) = unat a mod 65536 + unat a div 65536"
proof -
  have "unat a div 65536 < 65536" by (simp add: less_mult_imp_div_less)
  then show ?thesis by (subst unat_add_lem [THEN iffD1]) simp_all
qed

termination fold_carries
proof (relation "measure unat")
  fix a :: u32
  assume "drop_bit 16 a \<noteq> 0"
  then have "unat a div 65536 \<noteq> 0" by (metis unat_high16 unat_eq_0)
  then have "unat a mod 65536 + unat a div 65536 < unat a"
    using div_mult_mod_eq [of "unat a" 65536] by linarith
  then show "((a AND 0xffff) + drop_bit 16 a, a) \<in> measure unat"
    by (simp add: unat_fold_step)
qed simp

declare fold_carries.simps [simp del]

definition ipv4_header_checksum :: "bytes \<Rightarrow> u16" where
  "ipv4_header_checksum header = NOT (ucast (fold_carries (sum_words 0 header)))"

text \<open>The query carries a fresh random identifier, an argument here.\<close>

definition dns_label :: "str \<Rightarrow> bytes" where
  "dns_label label = of_nat (length label) # label"

definition probe_dns_query :: "u16 \<Rightarrow> bytes" where
  "probe_dns_query qid =
     be16 qid @ [1, 0] @ [0, 1] @ [0, 0, 0, 0, 0, 0] @
     concat (map dns_label [lit ''cloudflare'', lit ''com'']) @ [0] @ [0, 1] @ [0, 1]"

text \<open>The source address is its four octets; \<open>pid\<close>, \<open>sport\<close> and \<open>qid\<close> are the random draws.\<close>

definition build_dns_probe_packet :: "u32 \<Rightarrow> u16 \<Rightarrow> u16 \<Rightarrow> u16 \<Rightarrow> bytes" where
  "build_dns_probe_packet src pid sport qid =
     (let dns = probe_dns_query qid;
          udp_len = 8 + length dns;
          total_len = 20 + udp_len;
          pkt = [0x45, 0] @ be16 (of_nat total_len) @ be16 pid @ [0, 0] @ [64] @ [17] @ [0, 0] @
                be32 src @ [8, 8, 8, 8];
          csum = ipv4_header_checksum (take 20 pkt);
          pkt = take 10 pkt @ be16 csum @ drop 12 pkt in
      pkt @ be16 sport @ be16 53 @ be16 (of_nat udp_len) @ [0, 0] @ dns)"

section \<open>Lemmas: writing\<close>

lemma masque_varint_len_eq: "masque_varint_len v = vlen (unat v)"
  by (simp add: masque_varint_len_def vlen_def word_less_nat_alt)

lemma ignoring_Ok [simp]: "ignoring b (Ok b') = Ok b'"
  by (simp add: ignoring_def)

definition small :: "bytes \<Rightarrow> bool" where
  "small v \<longleftrightarrow> length v < 2 ^ 62"

lemma small_varint:
  assumes "small v"
  shows "of_nat (length v) \<le> MAX_VAR_INT" "unat (of_nat (length v) :: u64) = length v"
  using assms by (simp_all add: small_def MAX_VAR_INT_def word_le_nat_alt unat_of_nat)

definition capsule_bytes :: "u64 \<Rightarrow> bytes \<Rightarrow> bytes" where
  "capsule_bytes kind v = varint_bytes kind @ varint_bytes (of_nat (length v)) @ v"

lemma append_capsule_eq:
  assumes "kind \<le> MAX_VAR_INT" "small v"
  shows "append_capsule out kind v = Ok (out @ capsule_bytes kind v)"
  using assms small_varint [OF assms(2)]
  by (simp add: append_capsule_def capsule_len_def masque_varint_len_eq blank_start puts_blank
      capsule_bytes_def)

lemma append_datagram_capsule_eq:
  "small v \<Longrightarrow> append_datagram_capsule out v = Ok (out @ capsule_bytes CAPSULE_DATAGRAM v)"
  by (simp add: append_datagram_capsule_def append_capsule_eq CAPSULE_DATAGRAM_def MAX_VAR_INT_def)

lemma encode_ip_datagram_eq:
  "encode_ip_datagram sid pkt = Ok (varint_bytes (sid div 4) @ 0 # pkt)"
proof -
  have "sid div 4 \<le> MAX_VAR_INT"
    using less_mult_imp_div_less [of "unat sid" 4611686018427387904 4]
    by (simp add: MAX_VAR_INT_def word_le_nat_alt unat_div)
  then show ?thesis
    by (simp add: encode_ip_datagram_def quarter_stream_id_def CONNECT_IP_CONTEXT_ID_def
        masque_varint_len_eq blank_start puts_blank MAX_VAR_INT_def)
       (simp add: varint_bytes_def vlen_def vtag_def)
qed

section \<open>Lemmas: reading\<close>

text \<open>On the bytes that are left, the two decoders are functions of lists.\<close>

lemma decode_ip_datagram_eq:
  "decode_ip_datagram d sid = (case take_varint d of
     None \<Rightarrow> Err (CapsuleE (lit ''BufferTooShortError''))
   | Some (qsid, r) \<Rightarrow> if qsid \<noteq> sid div 4 then Ok None else (case take_varint r of
       None \<Rightarrow> Err (CapsuleE (lit ''BufferTooShortError''))
     | Some (ctx, pkt) \<Rightarrow> if ctx \<noteq> 0 then Ok None else Ok (Some pkt)))"
  by (auto simp: decode_ip_datagram_def with_slice_cur [of d] cursor_reads quarter_stream_id_def
      CONNECT_IP_CONTEXT_ID_def oct_def split: option.splits)

definition take_capsule :: "nat \<Rightarrow> bytes \<Rightarrow> ((u64 \<times> bytes) \<times> bytes) option" where
  "take_capsule w bs = (case take_varint bs of
     None \<Rightarrow> None
   | Some (kind, r) \<Rightarrow> (case take_varint r of
       None \<Rightarrow> None
     | Some (v, s) \<Rightarrow>
       (let len = unat v mod 2 ^ w in
        if length s < len then None else Some ((kind, take len s), drop len s))))"

lemma capsule_next_eq:
  "capsule_next w p = (case take_capsule w (cbuf p) of
     None \<Rightarrow> (Ok None, p)
   | Some ((kind, v), r) \<Rightarrow> (bnd (capsule_of kind v) (\<lambda>c. Ok (Some c)), p\<lparr>cbuf := r\<rparr>))"
  by (auto simp: capsule_next_def take_capsule_def with_slice_cur [of "cbuf p"] cursor_reads Let_def
      split: option.splits)

definition capsule_valid :: "nat \<Rightarrow> u64 \<times> bytes \<Rightarrow> bool" where
  "capsule_valid w kv \<longleftrightarrow> fst kv \<le> MAX_VAR_INT \<and> small (snd kv) \<and> length (snd kv) < 2 ^ w"

interpretation cps: stream_codec "\<lambda>(kind, v). capsule_bytes kind v" "take_capsule w" "capsule_valid w"
  for w
proof
  fix kv :: "u64 \<times> bytes" and rest
  assume "capsule_valid w kv"
  then show "take_capsule w ((case kv of (kind, v) \<Rightarrow> capsule_bytes kind v) @ rest) = Some (kv, rest)"
    by (cases kv)
      (simp add: take_capsule_def capsule_bytes_def capsule_valid_def vi.dec_enc small_varint)
next
  fix bs kv r y
  assume "take_capsule w bs = Some (kv, r)"
  then show "take_capsule w (bs @ y) = Some (kv, r @ y)" "length r < length bs"
    by (auto simp: take_capsule_def Let_def take_varint_append split: option.splits if_splits)
      (auto dest!: take_varint_le)
qed

text \<open>A capsule taken off the buffer is shorter than what was there, so draining ends.\<close>

lemma capsule_next_less:
  "capsule_next w p = (Ok (Some c), p') \<Longrightarrow> length (cbuf p') < length (cbuf p)"
  by (auto simp: capsule_next_eq run_simps dest!: cps.dec_less split: option.splits)

section \<open>Lemmas: address and route capsules\<close>

definition ip_bytes :: "u8 \<Rightarrow> bytes \<Rightarrow> bool" where
  "ip_bytes ver a \<longleftrightarrow> ver = 4 \<and> length a = 4 \<or> ver = 6 \<and> length a = 16"

definition assigned_bytes :: "assigned_address \<Rightarrow> bytes" where
  "assigned_bytes a = varint_bytes (request_id a) @ [aa_ip_version a] @ aa_address a @ [prefix_len a]"

definition assigned_wf :: "assigned_address \<Rightarrow> bool" where
  "assigned_wf a \<longleftrightarrow> request_id a \<le> MAX_VAR_INT \<and> ip_bytes (aa_ip_version a) (aa_address a)"

definition route_bytes :: "route_advertisement \<Rightarrow> bytes" where
  "route_bytes r = [ra_ip_version r] @ ra_start r @ ra_end r @ [protocol r]"

definition route_wf :: "route_advertisement \<Rightarrow> bool" where
  "route_wf r \<longleftrightarrow> ip_bytes (ra_ip_version r) (ra_start r) \<and> ip_bytes (ra_ip_version r) (ra_end r)"

text \<open>The two readers as functions of the bytes left.\<close>

lemma addr_len_iff: "addr_len ver = Ok n \<longleftrightarrow> ver = 4 \<and> n = 4 \<or> ver = 6 \<and> n = 16"
  by (auto simp: addr_len_def)

lemma addr_len_bytes: "ip_bytes ver a \<Longrightarrow> addr_len ver = Ok (length a)"
  by (auto simp: addr_len_def ip_bytes_def)

lemma get_assigned_bytes:
  assumes "assigned_wf a" "suffix (assigned_bytes a @ s) d"
  shows "get_assigned (cur d (assigned_bytes a @ s)) = Ok (a, cur d s)"
proof -
  have c: "take_varint (assigned_bytes a @ s) =
      Some (request_id a, aa_ip_version a # aa_address a @ prefix_len a # s)"
    using assms(1) vi.dec_enc [of "request_id a"] by (simp add: assigned_bytes_def assigned_wf_def)
  have s1: "suffix (aa_ip_version a # aa_address a @ prefix_len a # s) d"
    using suffix_varint [OF c assms(2)] .
  have s2: "suffix (aa_address a @ prefix_len a # s) d" "suffix (prefix_len a # s) d"
    using s1 by (metis suffix_ConsD suffix_appendD)+
  show ?thesis
    using assms s1 s2 addr_len_bytes [of "aa_ip_version a" "aa_address a"]
    by (simp add: get_assigned_def c cursor_reads assigned_wf_def)
qed

lemma get_route_bytes:
  assumes "route_wf r" "suffix (route_bytes r @ s) d"
  shows "get_route (cur d (route_bytes r @ s)) = Ok (r, cur d s)"
proof -
  have s: "suffix (ra_start r @ ra_end r @ protocol r # s) d" "suffix (ra_end r @ protocol r # s) d"
      "suffix (protocol r # s) d"
    using assms(2) by (simp_all add: route_bytes_def) (metis suffix_ConsD suffix_appendD)+
  have "length (ra_end r) = length (ra_start r)" using assms(1) by (auto simp: route_wf_def ip_bytes_def)
  then show ?thesis
    using assms s addr_len_bytes [of "ra_ip_version r" "ra_start r"]
    by (simp add: get_route_def route_bytes_def cursor_reads route_wf_def)
qed

lemma bytes_nonempty [simp]: "assigned_bytes a \<noteq> []" "route_bytes r \<noteq> []"
  by (simp_all add: assigned_bytes_def route_bytes_def)

lemma assigned_loop_bytes:
  assumes "list_all assigned_wf as" "suffix (concat (map assigned_bytes as)) d"
  shows "assigned_loop (cur d (concat (map assigned_bytes as))) out = Ok (out @ as)"
  using assms
proof (induction as arbitrary: out)
  case Nil
  then show ?case by (simp add: assigned_loop.simps)
next
  case (Cons a as)
  then have "suffix (concat (map assigned_bytes as)) d" by (auto dest: suffix_appendD)
  moreover have "0 < cap (cur d (assigned_bytes a @ concat (map assigned_bytes as)))"
    using Cons.prems(2) by simp
  ultimately show ?case
    using Cons by (simp add: assigned_loop.simps [of "cur d (assigned_bytes a @ _)"] get_assigned_bytes)
qed

lemma route_loop_bytes:
  assumes "list_all route_wf rs" "suffix (concat (map route_bytes rs)) d"
  shows "route_loop (cur d (concat (map route_bytes rs))) out = Ok (out @ rs)"
  using assms
proof (induction rs arbitrary: out)
  case Nil
  then show ?case by (simp add: route_loop.simps)
next
  case (Cons r rs)
  then have "suffix (concat (map route_bytes rs)) d" by (auto dest: suffix_appendD)
  moreover have "0 < cap (cur d (route_bytes r @ concat (map route_bytes rs)))"
    using Cons.prems(2) by simp
  ultimately show ?case
    using Cons by (simp add: route_loop.simps [of "cur d (route_bytes r @ _)"] get_route_bytes)
qed

text \<open>What was accepted is what was written: a route that was read is well formed and its bytes
  were there.\<close>

lemma get_route_Ok:
  assumes "get_route (cur d r) = Ok (x, b)" "suffix r d"
  shows "\<exists>s. r = route_bytes x @ s \<and> route_wf x \<and> b = cur d s"
proof -
  obtain ver r1 where r: "r = ver # r1"
    using assms by (cases r) (auto simp: get_route_def cursor_reads)
  then have s1: "suffix r1 d" using assms(2) by (auto dest: suffix_ConsD)
  obtain n where n: "addr_len ver = Ok n"
    using assms r by (auto simp: get_route_def cursor_reads run_simps)
  obtain s where x: "n + n \<le> length r1" "ra_start x = take n r1" "ra_end x = take n (drop n r1)"
      "ra_ip_version x = ver" "drop (n + n) r1 = protocol x # s" "b = cur d s"
    using assms s1 n r
    by (auto simp: get_route_def cursor_reads run_simps split: if_splits list.splits)
  have "r1 = take n r1 @ take n (drop n r1) @ drop (n + n) r1"
    by (metis append.assoc append_take_drop_id drop_drop take_add)
  then show ?thesis
    using n r x by (auto simp: route_bytes_def route_wf_def ip_bytes_def addr_len_iff)
qed

lemma route_loop_Ok:
  assumes "route_loop (cur d r) out = Ok rs" "suffix r d"
  shows "\<exists>new. rs = out @ new \<and> r = concat (map route_bytes new) \<and> list_all route_wf new"
  using assms
proof (induction r arbitrary: out rule: measure_induct_rule [of length])
  case (less r)
  show ?case
  proof (cases "r = []")
    case True
    then show ?thesis using less.prems by (simp add: route_loop.simps)
  next
    case False
    then obtain x b where x: "get_route (cur d r) = Ok (x, b)" "route_loop b (out @ [x]) = Ok rs"
      using less.prems by (auto simp: route_loop.simps [of "cur d r"] run_simps)
    then obtain s where s: "r = route_bytes x @ s" "route_wf x" "b = cur d s"
      using get_route_Ok less.prems(2) by blast
    then have "suffix s d" "length s < length r"
      using less.prems(2) by (auto dest: suffix_appendD)
    then obtain new where "rs = (out @ [x]) @ new" "s = concat (map route_bytes new)" "list_all route_wf new"
      using less.IH x(2) s(3) by blast
    then show ?thesis using s by (auto intro!: exI [of _ "x # new"])
  qed
qed

lemma safe_get_item:
  assumes "off_ok b"
  shows "safe (get_assigned b)" "safe (get_route b)"
proof -
  have a: "safe (addr_len v)" for v by (simp add: addr_len_def)
  show "safe (get_assigned b)" 
    using assms a by (auto simp: get_assigned_def run_simps reads_Ok intro!: safe_bnd dest!: get_varint_Ok)
      (auto simp: advanced_simps)
  show "safe (get_route b)"
    using assms a by (auto simp: get_route_def run_simps reads_Ok intro!: safe_bnd)
      (auto simp: advanced_simps)
qed

lemma item_off_ok:
  "get_assigned b = Ok (a, b') \<Longrightarrow> off_ok b'" "get_route b = Ok (r, b') \<Longrightarrow> off_ok b'"
  by (auto simp: get_assigned_def get_route_def run_simps reads_Ok dest: advanced_simps(2))

lemma safe_assigned_loop: "off_ok b \<Longrightarrow> safe (assigned_loop b out)"
proof (induction b out rule: assigned_loop.induct)
  case (1 b out)
  show ?case
    by (subst assigned_loop.simps)
      (use 1 in \<open>auto simp: safe_get_item item_off_ok intro!: safe_bnd\<close>)
qed

lemma safe_route_loop: "off_ok b \<Longrightarrow> safe (route_loop b out)"
proof (induction b out rule: route_loop.induct)
  case (1 b out)
  show ?case
    by (subst route_loop.simps)
      (use 1 in \<open>auto simp: safe_get_item item_off_ok intro!: safe_bnd\<close>)
qed

lemma safe_capsule_of: "safe (capsule_of kind v)"
  by (auto simp: capsule_of_def parse_address_assign_def parse_route_advertisement_def
      safe_assigned_loop safe_route_loop intro!: safe_bnd)

lemma safe_capsule_next: "safe (fst (capsule_next w p))"
  by (auto simp: capsule_next_eq safe_capsule_of intro!: safe_bnd split: option.splits)

section \<open>Lemmas: datagram payloads\<close>

lemma strip_datagram_context_eq:
  "strip_datagram_context payload = (case take_varint payload of
     Some (ctx, inner) \<Rightarrow> if ctx = 0 \<and> looks_like_ip_packet inner then Ok inner else bare_packet payload
   | None \<Rightarrow> if payload = [] then Err () else bare_packet payload)"
proof (cases "take_varint payload")
  case None
  then show ?thesis
    by (simp add: strip_datagram_context_def with_slice_cur cursor_reads)
next
  case (Some a)
  obtain ctx inner where a: "a = (ctx, inner)" by (cases a)
  obtain q where q: "payload = q @ inner" "q \<noteq> []" 
    using take_varint_split [of payload ctx inner] Some a by auto
  then have c: "cap (cur payload inner) = length inner" and d: "drop (length payload - length inner) payload = inner"
      and l: "length payload - (length payload - length inner) = length inner"
    by (simp_all add: suffix_def)
  have g: "get_varint (with_slice payload) = Ok (ctx, cur payload inner)"
    using Some a by (simp add: with_slice_cur cursor_reads)
  have "payload \<noteq> []" using q by simp
  then show ?thesis
    by (simp add: strip_datagram_context_def g c d l Some a CONNECT_IP_CONTEXT_ID_def)
qed

text \<open>The first byte of a real IP header is never the start of an encoded context identifier 0:
  the identifier would have to begin with the byte 0x40, an IPv4 header of no length.\<close>

lemma ip_first_byte:
  assumes "looks_like_ip_packet pkt"
  obtains a b s where "pkt = a # b # s" "64 \<le> unat a" "unat a < 128"
proof -
  obtain a s where p: "pkt = a # s" "unat (drop_bit 4 a) = 4 \<or> unat (drop_bit 4 a) = 6" "20 \<le> length pkt"
    using assms by (auto simp: looks_like_ip_packet_def split: list.splits)
  obtain b t where s: "s = b # t" using p by (cases s) auto
  have "unat (drop_bit 4 a) = unat a div 16" by (simp add: drop_bit_eq_div unat_div)
  then show ?thesis using that p s by auto
qed

lemma ip_not_context:
  assumes "looks_like_ip_packet pkt" "hd pkt \<noteq> 0x40" "take_varint pkt = Some (ctx, r)"
  shows "ctx \<noteq> 0"
proof -
  obtain a b s where p: "pkt = a # b # s" "64 \<le> unat a" "unat a < 128"
    using ip_first_byte [OF assms(1)] .
  moreover have "unat a \<noteq> 64" using assms(2) p by (auto simp: word_unat_eq_iff)
  ultimately obtain k where k: "unat a = 64 + k" "0 < k" "k < 64"
    by (metis add_diff_inverse_nat diff_is_0_eq' le_neq_implies_less less_diff_conv2 not_less
        numeral_Bit0 zero_less_diff)
  then have lt: "k * 256 + unat b < 16384" using unat_u8_less [of b] by linarith
  have "from_be [a, b] = 16384 + (k * 256 + unat b)" using k by (simp add: from_be_def)
  then have "from_be [a, b] mod 16384 = k * 256 + unat b" using lt by simp
  moreover have "ctx = of_nat (from_be [a, b] mod 16384)"
    using assms(3) p by (auto simp: take_varint_Cons [of 2] first_len_def split: if_splits)
  ultimately have "unat ctx = (k * 256 + unat b) mod 2 ^ LENGTH(64)" by (simp only: unat_of_nat)
  then have "unat ctx = k * 256 + unat b" using lt by simp
  then show ?thesis using k by auto
qed

lemma strip_bare:
  "looks_like_ip_packet pkt \<Longrightarrow> hd pkt \<noteq> 0x40 \<Longrightarrow> strip_datagram_context pkt = Ok pkt"
  using ip_not_context [of pkt]
  by (auto simp: strip_datagram_context_eq bare_packet_def split: option.splits)
    (auto simp: looks_like_ip_packet_def)

lemma safe_strip: "safe (strip_datagram_context p)"
  by (auto simp: strip_datagram_context_eq bare_packet_def split: option.splits)

section \<open>Lemmas: the header checksum\<close>

text \<open>The sum of the 16-bit words of an even number of bytes, as a number; while it fits 32 bits the
  code's accumulator holds it, and folding the carries keeps it modulo 65535.\<close>

fun words_sum :: "bytes \<Rightarrow> nat" where
  "words_sum (a # b # bs) = unat (u16_be a b) + words_sum bs"
| "words_sum [a] = 256 * unat a"
| "words_sum [] = 0"

lemma words_sum_append: "even (length xs) \<Longrightarrow> words_sum (xs @ ys) = words_sum xs + words_sum ys"
  by (induction xs rule: words_sum.induct) auto

lemma words_sum_bound: "words_sum bs \<le> 65535 * length bs"
proof (induction bs rule: words_sum.induct)
  case (1 a b bs)
  then show ?case by simp (use unat_bounds(1) [of "u16_be a b"] in linarith)
next
  case (2 a)
  then show ?case using unat_u8_less [of a] by (simp del: unat_u8_less)
qed simp

lemma unat_ucast16 [simp]: "unat (ucast (w :: u16) :: u32) = unat w"
  using unat_bounds(1) [of w] by (simp add: unsigned_ucast_eq take_bit_eq_mod del: unat_bounds)

lemma unat_shifted: "unat (push_bit 8 (ucast (a :: u8)) :: u32) = 256 * unat a"
proof -
  have "unat (ucast a :: u32) = unat a"
    using unat_u8_less [of a] by (simp add: unsigned_ucast_eq take_bit_eq_mod del: unat_u8_less)
  then have "unat (push_bit 8 (ucast a) :: u32) = 256 * unat a mod 4294967296"
    by (simp add: push_bit_eq_mult unat_word_ariths mult.commute)
  then show ?thesis using unat_u8_less [of a] by (simp del: unat_u8_less)
qed

lemma unat_sum_words:
  "unat acc + words_sum bs < 4294967296 \<Longrightarrow> unat (sum_words acc bs) = unat acc + words_sum bs"
proof (induction acc bs rule: sum_words.induct)
  case (2 acc a)
  then show ?case by (simp add: unat_word_ariths unat_shifted)
next
  case (3 acc a b bs)
  then have "unat (acc + ucast (u16_be a b)) = unat acc + unat (u16_be a b)"
    by (simp add: unat_word_ariths)
  then show ?case using 3 by simp
qed simp

lemma fold_carries_mod:
  "unat (fold_carries a) mod 65535 = unat a mod 65535 \<and> unat (fold_carries a) < 65536 \<and>
   (fold_carries a = 0 \<longleftrightarrow> a = 0)"
proof (induction a rule: fold_carries.induct)
  case (1 a)
  have m: "(unat a mod 65536 + unat a div 65536) mod 65535 = unat a mod 65535"
  proof -
    have "unat a = (unat a mod 65536 + unat a div 65536) + 65535 * (unat a div 65536)" by simp
    then show ?thesis by (metis mod_mult_self2)
  qed
  show ?case
  proof (cases "drop_bit 16 a = 0")
    case True
    then have "unat a div 65536 = 0" by (metis unat_high16 unsigned_0)
    then show ?thesis using True by (simp add: fold_carries.simps [of a])
  next
    case False
    then have nz: "unat a div 65536 \<noteq> 0" by (metis unat_high16 unat_eq_0)
    then have "(a AND 0xffff) + drop_bit 16 a \<noteq> 0" "a \<noteq> 0"
      by (auto simp: word_unat_eq_iff unat_fold_step)
    then show ?thesis
      using 1 [OF False] False m by (simp add: fold_carries.simps [of a] unat_fold_step)
  qed
qed

lemma words_sum_be16: "words_sum (be16 w @ bs) = unat w + words_sum bs"
  by (simp only: be16_eq append_Cons append_Nil words_sum.simps u16_be_parts)

lemma unat_not16: "unat (NOT (w :: u16)) = 65535 - unat w"
proof -
  have "NOT w = -1 - w" by (simp add: not_eq_complement)
  then show ?thesis by (simp add: unat_sub unsigned_minus_1_eq_mask mask_eq_exp_minus_1)
qed

lemma unat_checksum:
  assumes "words_sum h < 4294967296"
  obtains f where "unat (ipv4_header_checksum h) = 65535 - f" "f < 65536"
    "f mod 65535 = words_sum h mod 65535" "f = 0 \<longleftrightarrow> words_sum h = 0"
proof
  let ?x = "sum_words 0 h"
  have x: "unat ?x = words_sum h" using unat_sum_words [of 0 h] assms by simp
  have "unat (ucast (fold_carries ?x) :: u16) = unat (fold_carries ?x)"
    using fold_carries_mod [of ?x] by (simp add: unsigned_ucast_eq take_bit_eq_mod)
  then show "unat (ipv4_header_checksum h) = 65535 - unat (fold_carries ?x)"
    by (simp add: ipv4_header_checksum_def unat_not16)
  show "unat (fold_carries ?x) < 65536" "unat (fold_carries ?x) mod 65535 = words_sum h mod 65535"
    "unat (fold_carries ?x) = 0 \<longleftrightarrow> words_sum h = 0"
    using fold_carries_mod [of ?x] x by (auto simp: unat_eq_0)
qed

text \<open>A header whose checksum field holds the complement of the sum of the rest verifies: its own
  checksum is 0.\<close>

lemma checksum_verifies:
  assumes "even (length pre)" "even (length post)" "0 < words_sum (pre @ post)"
    "words_sum (pre @ post) + 65535 < 4294967296"
  shows "ipv4_header_checksum (pre @ be16 (ipv4_header_checksum (pre @ [0, 0] @ post)) @ post) = 0"
proof -
  define s where "s = words_sum (pre @ post)"
  define c where "c = ipv4_header_checksum (pre @ [0, 0] @ post)"
  have z: "words_sum (pre @ [0, 0] @ post) = s"
    using assms by (simp add: s_def words_sum_append u16_be_def from_be_def)
  then have "words_sum (pre @ [0, 0] @ post) < 4294967296" using assms(4) by (simp add: s_def)
  from unat_checksum [OF this, unfolded z, folded c_def]
  obtain f where f: "unat c = 65535 - f" "f < 65536" "f mod 65535 = s mod 65535" .
  have t: "words_sum (pre @ be16 c @ post) = s + (65535 - f)"
    using assms(1,2) by (simp add: s_def words_sum_append words_sum_be16 f(1))
  have m: "(s + (65535 - f)) mod 65535 = 0"
  proof -
    have "(s + (65535 - f)) mod 65535 = (f + (65535 - f)) mod 65535"
      using f(3) by (metis mod_add_left_eq)
    then show ?thesis using f(2) by simp
  qed
  have "words_sum (pre @ be16 c @ post) < 4294967296" using t assms(4) by (simp add: s_def)
  from unat_checksum [OF this, unfolded t m]
  obtain g where g: "unat (ipv4_header_checksum (pre @ be16 c @ post)) = 65535 - g"
      "g < 65536" "g mod 65535 = 0" "g = 0 \<longleftrightarrow> s + (65535 - f) = 0" .
  moreover have "0 < s" using assms(3) by (simp add: s_def)
  ultimately have "g = 65535" by (auto simp: mod_eq_0_iff_dvd elim!: dvdE)
  then show ?thesis using g(1) by (simp add: c_def unat_eq_0)
qed

section \<open>The parser as a state machine\<close>

datatype parser_op = PushOp bytes | NextOp

definition parser_step ::
    "nat \<Rightarrow> capsule_parser \<Rightarrow> parser_op \<Rightarrow> capsule_parser \<times> (aether_error, capsule option) run list" where
  "parser_step w p op = (case op of
     PushOp d \<Rightarrow> (capsule_push p d, [])
   | NextOp \<Rightarrow> (let (r, p') = capsule_next w p in (p', [r])))"

lemma cbuf_capsule_next: "length (cbuf (snd (capsule_next w p))) \<le> length (cbuf p)"
  by (auto simp: capsule_next_eq dest!: cps.dec_less split: option.splits)

interpretation pm: machine "parser_step w" "\<lambda>p. length (cbuf p) \<le> MAX_CAPSULE_BUF" safe for w
proof
  fix p :: capsule_parser and op :: parser_op
  assume "length (cbuf p) \<le> MAX_CAPSULE_BUF"
  then show "length (cbuf (fst (parser_step w p op))) \<le> MAX_CAPSULE_BUF"
    using cbuf_capsule_next [of w p]
    by (auto simp: parser_step_def capsule_push_def Let_def split_beta split: parser_op.splits)
next
  fix p op out
  assume "out \<in> set (snd (parser_step w p op))"
  then show "safe out"
    using safe_capsule_next by (auto simp: parser_step_def Let_def split_beta split: parser_op.splits)
qed

section \<open>Properties\<close>

text \<open>C5. Whatever bytes are pushed into a fresh capsule parser, in whatever pieces and with whatever
  calls of \<^verbatim>\<open>next\<close> in between, no call panics and the parser never holds more than
  \<^verbatim>\<open>MAX_CAPSULE_BUF\<close> bytes, on 32-bit and on 64-bit targets.\<close>

theorem capsule_parser_safe:
  "let (p, outs) = run_all (parser_step w) capsule_parser_new ops
   in length (cbuf p) \<le> 262144 \<and> list_all (\<lambda>r. r \<noteq> Panic) outs"
proof -
  have i: "length (cbuf capsule_parser_new) \<le> MAX_CAPSULE_BUF"
    by (simp add: capsule_parser_new_def)
  show ?thesis
    using pm.run_inv [OF i] pm.run_good [OF i]
    by (auto simp: split_beta Let_def MAX_CAPSULE_BUF_def list_all_iff safe_def)
qed

text \<open>One call of \<^verbatim>\<open>next\<close> makes progress or leaves the parser alone: it reports that the capsule
  is incomplete and changes nothing, or it takes at least one byte off the buffer and returns a
  capsule or an error. The loops that drain the parser therefore end.\<close>

theorem capsule_next_progress:
  "case capsule_next w p of
     (Ok None, p') \<Rightarrow> p' = p
   | (Ok (Some c), p') \<Rightarrow> length (cbuf p') < length (cbuf p)
   | (Err e, p') \<Rightarrow> length (cbuf p') < length (cbuf p)
   | (Panic, p') \<Rightarrow> False"
  using safe_capsule_of
  by (auto simp: capsule_next_eq run_simps safe_def dest!: cps.dec_less
      split: option.splits run.splits prod.splits)

text \<open>C38. An IP packet framed for a request stream decodes to itself on that stream (streams are
  compared by quarter stream identifier) and is passed over on any other; framing never fails.\<close>

theorem ip_datagram_round_trip:
  "\<exists>d. encode_ip_datagram sid pkt = Ok d \<and>
       decode_ip_datagram d sid' = (if sid div 4 = sid' div 4 then Ok (Some pkt) else Ok None)"
proof -
  have "sid div 4 \<le> MAX_VAR_INT"
    using less_mult_imp_div_less [of "unat sid" 4611686018427387904 4]
    by (simp add: MAX_VAR_INT_def word_le_nat_alt unat_div)
  moreover have "take_varint (0 # pkt) = Some (0, pkt)"
    using take_varint_Cons [of 1 0 pkt] by (simp add: first_len_def from_be_def)
  ultimately show ?thesis
    by (simp add: encode_ip_datagram_eq decode_ip_datagram_eq vi.dec_enc)
qed

text \<open>An address assignment is read back as it was written: the entries of the capsule, in
  order, each with its request identifier, its address of 4 or 16 bytes and its prefix length.\<close>

theorem address_assign_round_trip:
  assumes "list_all assigned_wf as"
  shows "parse_address_assign (concat (map assigned_bytes as)) = Ok as"
  using assigned_loop_bytes [OF assms, of "concat (map assigned_bytes as)" "[]"]
  by (simp add: parse_address_assign_def with_slice_cur)

theorem address_assign_round_trip_witness:
  "parse_address_assign [1, 4, 10, 0, 0, 1, 32] =
     Ok [\<lparr>request_id = 1, aa_ip_version = 4, aa_address = [10, 0, 0, 1], prefix_len = 32\<rparr>]"
  using address_assign_round_trip
    [of "[\<lparr>request_id = 1, aa_ip_version = 4, aa_address = [10, 0, 0, 1], prefix_len = 32\<rparr>]"]
  by (simp add: assigned_wf_def ip_bytes_def assigned_bytes_def MAX_VAR_INT_def varint_bytes_def
      vlen_def vtag_def)

text \<open>A route advertisement is accepted exactly when it is the concatenation of well-formed
  routes, and then those routes are the result.\<close>

theorem route_advertisement_exact:
  "parse_route_advertisement v = Ok rs \<longleftrightarrow> list_all route_wf rs \<and> v = concat (map route_bytes rs)"
  using route_loop_Ok [of v v "[]" rs] route_loop_bytes [of rs v "[]"]
  by (auto simp: parse_route_advertisement_def with_slice_cur)

text \<open>The probe packet the data-plane check sends is a well-formed IPv4 packet for any source
  address and any random draws: its header checksum verifies, its length fields say how long it
  is, and it goes to 8.8.8.8 port 53 over UDP.\<close>

theorem dns_probe_packet_well_formed:
  "let pkt = build_dns_probe_packet src pid sport qid in
   ipv4_header_checksum (take 20 pkt) = 0 \<and>
   u16_be (pkt ! 2) (pkt ! 3) = of_nat (length pkt) \<and>
   u16_be (pkt ! 24) (pkt ! 25) = of_nat (length pkt - 20) \<and>
   pkt ! 9 = 17 \<and> take 4 (drop 16 pkt) = [8, 8, 8, 8] \<and> u16_be (pkt ! 22) (pkt ! 23) = 53"
proof -
  let ?pre = "[0x45, 0] @ be16 60 @ be16 pid @ [0, 0, 64, 17]"
  let ?post = "be32 src @ [8, 8, 8, 8]"
  let ?c = "ipv4_header_checksum (?pre @ [0, 0] @ ?post)"
  let ?udp = "be16 sport @ be16 53 @ be16 40 @ [0, 0] @ probe_dns_query qid"
  have dns: "length (probe_dns_query qid) = 32" by (simp add: probe_dns_query_def dns_label_def lit_def)
  have pkt: "build_dns_probe_packet src pid sport qid = (?pre @ be16 ?c @ ?post) @ ?udp"
    by (simp add: build_dns_probe_packet_def Let_def dns be16_eq)
  have "words_sum (?pre @ ?post) \<le> 65535 * 18"
    using words_sum_bound [of "?pre @ ?post"] by simp
  moreover have "0 < words_sum (?pre @ ?post)" by (simp add: u16_be_def from_be_def)
  ultimately have "ipv4_header_checksum (?pre @ be16 ?c @ ?post) = 0"
    by (intro checksum_verifies) simp_all
  moreover have "take 20 (build_dns_probe_packet src pid sport qid) = ?pre @ be16 ?c @ ?post"
    by (simp add: pkt)
  moreover have "length (build_dns_probe_packet src pid sport qid) = 60" by (simp add: pkt dns)
  ultimately show ?thesis
    by (simp add: Let_def) (simp add: pkt be16_eq u16_be_def from_be_def nth_append)
qed

end
