(* ===== verification/MasqueH2.thy ===== *)
theory MasqueH2
  imports Masque Net
begin

text \<open>
  The HTTP/2 carrier of a MASQUE tunnel (\<^verbatim>\<open>aether/src/masque_h2.rs\<close>): the send task that batches
  queued packets into DATA frames, the drain of the capsule parser into the inbound queue, and
  the event loop that decides when the tunnel is announced as ready, when it is given up, and
  how it is kept alive. HTTP/2, the clock and the channels are outside; what they report is the
  input of the steps.
\<close>

section \<open>The send task\<close>

definition H2_SEND_BATCH_BYTES :: nat where "H2_SEND_BATCH_BYTES = 32 * 1024"

datatype sender_msg = CapsuleMsg bytes | Finish

text \<open>\<^verbatim>\<open>send_capsule\<close> waits until the stream has room for the whole capsule, then writes it as
  one DATA frame. The fault, if any, is what HTTP/2 reports first: an error or the end of the stream
  while the send waits, or an error of the write. \<open>frames\<close> are the DATA frames written so far.\<close>

datatype send_fault = CapacityFault str | StreamClosed | SendDataFault str

fun send_error :: "send_fault \<Rightarrow> aether_error" where
  "send_error (CapacityFault e) = MasqueE (lit ''h2 capacity: '' @ e)"
| "send_error StreamClosed = MasqueE (lit ''h2 stream closed'')"
| "send_error (SendDataFault e) = MasqueE (lit ''h2 send_data: '' @ e)"

definition send_capsule :: "send_fault option \<Rightarrow> bytes list \<Rightarrow> bytes \<Rightarrow> (aether_error, bytes list) run" where
  "send_capsule fault frames data =
     (if data = [] then Ok frames
      else case fault of None \<Rightarrow> Ok (frames @ [data]) | Some e \<Rightarrow> Err (send_error e))"

text \<open>The packets that are already queued ride along while the batch is short.\<close>

fun fill_batch :: "bytes \<Rightarrow> bytes list \<Rightarrow> (aether_error, bytes \<times> bytes list) run" where
  "fill_batch batch [] = Ok (batch, [])"
| "fill_batch batch (pkt # queue) =
     (if length batch < H2_SEND_BATCH_BYTES
      then bnd (append_datagram_capsule batch pkt) (\<lambda>b. fill_batch b queue)
      else Ok (batch, pkt # queue))"

text \<open>A turn of the loop: a control message, or the outbound queue, of whose packets the first
  \<open>k\<close> have arrived by then; each with the failure HTTP/2 reports for the write. A closed queue
  or control channel ends the task.\<close>

datatype pump_turn =
    FromControl "sender_msg option" "send_fault option"
  | FromOutbound nat "send_fault option"
  | OutboundClosed

record pump =
  pending :: "bytes list"
  frames :: "bytes list"
  ended :: bool

definition pump_turn_step :: "pump \<Rightarrow> pump_turn \<Rightarrow> (aether_error, pump) run" where
  "pump_turn_step st turn = (case turn of
     FromControl (Some (CapsuleMsg framed)) fault \<Rightarrow>
       bnd (send_capsule fault (frames st) framed) (\<lambda>fs. Ok (st\<lparr>frames := fs\<rparr>))
   | FromControl (Some Finish) fault \<Rightarrow> Ok (st\<lparr>ended := True\<rparr>)
   | FromControl None fault \<Rightarrow> Ok (st\<lparr>ended := True\<rparr>)
   | OutboundClosed \<Rightarrow> Ok (st\<lparr>ended := True\<rparr>)
   | FromOutbound k fault \<Rightarrow>
       (case take k (pending st) of
          [] \<Rightarrow> Ok st
        | pkt # avail \<Rightarrow>
          bnd (append_datagram_capsule [] pkt) (\<lambda>b.
          bnd (fill_batch b avail) (\<lambda>(batch, lft).
          bnd (send_capsule fault (frames st) batch) (\<lambda>fs.
          Ok (st\<lparr>frames := fs, pending := lft @ drop k (pending st)\<rparr>))))))"

fun pump_outbound :: "pump \<Rightarrow> pump_turn list \<Rightarrow> (aether_error, pump) run" where
  "pump_outbound st [] = Ok st"
| "pump_outbound st (t # ts) =
     (if ended st then Ok st else bnd (pump_turn_step st t) (\<lambda>st'. pump_outbound st' ts))"

section \<open>Draining the capsule parser\<close>

datatype try_send = Sent | Full | Closed

record assigned_addr =
  asg_ip :: ip_addr
  asg_prefix :: u8

definition bytes_to_ip :: "u8 \<Rightarrow> bytes \<Rightarrow> ip_addr option" where
  "bytes_to_ip version bs =
     (if version = 4 \<and> length bs = 4 then Some (V4 (v4_from bs))
      else if version = 6 \<and> length bs = 16 then Some (V6 (v6_from bs))
      else None)"

text \<open>The inbound queue is a state \<open>ch\<close> with its \<^verbatim>\<open>try_send\<close>; the address channel, if the caller
  has one, a state with its own, whose outcome the code ignores.\<close>

definition assign_addrs ::
    "('ad \<Rightarrow> assigned_addr \<Rightarrow> 'ad) \<Rightarrow> 'ad option \<Rightarrow> assigned_address list \<Rightarrow> 'ad option" where
  "assign_addrs addr_send addr_tx addrs = foldl (\<lambda>tx a.
     case bytes_to_ip (aa_ip_version a) (aa_address a) of
       None \<Rightarrow> tx
     | Some ip \<Rightarrow> map_option (\<lambda>t. addr_send t \<lparr>asg_ip = ip, asg_prefix = prefix_len a\<rparr>) tx) addr_tx addrs"

function drain_capsules ::
    "nat \<Rightarrow> ('ch \<Rightarrow> bytes \<Rightarrow> 'ch \<times> try_send) \<Rightarrow> ('ad \<Rightarrow> assigned_addr \<Rightarrow> 'ad) \<Rightarrow>
     capsule_parser \<Rightarrow> 'ch \<Rightarrow> 'ad option \<Rightarrow> bool \<Rightarrow>
     (aether_error, bool \<times> capsule_parser \<times> 'ch \<times> 'ad option) run" where
  "drain_capsules w ch_send addr_send p ch tx delivered =
     (case capsule_next w p of
        (Ok (Some c), p') \<Rightarrow>
          (case c of
             Datagram payload \<Rightarrow>
               (case strip_datagram_context payload of
                  Err _ \<Rightarrow> drain_capsules w ch_send addr_send p' ch tx delivered
                | Panic \<Rightarrow> Panic
                | Ok pkt \<Rightarrow>
                  (case ch_send ch pkt of
                     (ch', Closed) \<Rightarrow> Ok (True, p', ch', tx)
                   | (ch', _) \<Rightarrow> drain_capsules w ch_send addr_send p' ch' tx True))
           | AddressAssign addrs \<Rightarrow>
               drain_capsules w ch_send addr_send p' ch (assign_addrs addr_send tx addrs) delivered
           | _ \<Rightarrow> drain_capsules w ch_send addr_send p' ch tx delivered)
      | (Ok None, p') \<Rightarrow> Ok (delivered, p', ch, tx)
      | (Err e, p') \<Rightarrow> Ok (delivered, p', ch, tx)
      | (Panic, p') \<Rightarrow> Panic)"
  by pat_completeness auto
termination
  by (relation "measure (\<lambda>(_, _, _, p, _, _, _). length (cbuf p))")
    (auto dest: capsule_next_less [OF sym])

declare drain_capsules.simps [simp del]

section \<open>The tunnel's event loop\<close>

text \<open>What the loop reads of its environment: whether the data plane is to be validated, the two
  timeouts (times are milliseconds), and the framed probe.\<close>

record h2_env =
  data_check :: bool
  validation_timeout :: nat
  keepalive_timeout :: nat
  probe_framed :: bytes

definition DATA_PROBE_REQUIRED_SUCCESSES :: u32 where "DATA_PROBE_REQUIRED_SUCCESSES = 2"

record ('ch, 'ad) h2_loop =
  capsules :: capsule_parser
  inbound :: 'ch
  addr_tx :: "'ad option"
  ready_tx :: bool
  ready_fired :: bool
  validate_successes :: u32
  validate_deadline :: "nat option"
  awaiting_pong :: bool
  pong_deadline :: "nat option"

datatype control = Migrate | Close

text \<open>What the \<^verbatim>\<open>select!\<close> can deliver, with what HTTP/2 or the channel reports.\<close>

datatype h2_event =
    KeepaliveTick "str option"
  | Pong "str option"
  | ProbeTick
  | DeadlineElapsed
  | CtrlEvent "control option"
  | SenderOutcome "(aether_error + unit) option"
  | Data "(str + bytes) option"

text \<open>What a turn does to the outside.\<close>

datatype h2_effect = SendPing | SendProbe bytes | FireReady | CloseSender

datatype 's verdict = Continue 's | Return "aether_error + unit"

definition fire_ready :: "('ch, 'ad) h2_loop \<Rightarrow> ('ch, 'ad) h2_loop \<times> h2_effect list" where
  "fire_ready st = (st\<lparr>ready_tx := False\<rparr>, if ready_tx st then [FireReady] else [])"

definition h2_start ::
    "h2_env \<Rightarrow> 'ch \<Rightarrow> 'ad option \<Rightarrow> bool \<Rightarrow> nat \<Rightarrow> ('ch, 'ad) h2_loop \<times> h2_effect list" where
  "h2_start env ch tx rtx now =
     (let st = \<lparr>capsules = capsule_parser_new, inbound = ch, addr_tx = tx, ready_tx = rtx,
                ready_fired = False, validate_successes = 0, validate_deadline = None,
                awaiting_pong = False, pong_deadline = None\<rparr> in
      if data_check env then
        (st\<lparr>validate_deadline := Some (now + validation_timeout env)\<rparr>, [SendProbe (probe_framed env)])
      else fire_ready (st\<lparr>ready_fired := True\<rparr>))"

definition past :: "nat \<Rightarrow> nat option \<Rightarrow> bool" where
  "past now deadline = (case deadline of Some d \<Rightarrow> d \<le> now | None \<Rightarrow> False)"

text \<open>The guards of the branches.\<close>

definition h2_enabled :: "h2_env \<Rightarrow> nat \<Rightarrow> ('ch, 'ad) h2_loop \<Rightarrow> h2_event \<Rightarrow> bool" where
  "h2_enabled env later st ev = (case ev of
     KeepaliveTick _ \<Rightarrow> ready_fired st \<and> \<not> awaiting_pong st
   | Pong _ \<Rightarrow> awaiting_pong st
   | ProbeTick \<Rightarrow> data_check env \<and> \<not> ready_fired st
   | DeadlineElapsed \<Rightarrow> past later (pong_deadline st)
   | _ \<Rightarrow> True)"

text \<open>A chunk of the response body: feed the parser, drain it, and count it towards validation.\<close>

definition h2_chunk ::
    "nat \<Rightarrow> ('ch \<Rightarrow> bytes \<Rightarrow> 'ch \<times> try_send) \<Rightarrow> ('ad \<Rightarrow> assigned_addr \<Rightarrow> 'ad) \<Rightarrow> h2_env \<Rightarrow>
     ('ch, 'ad) h2_loop \<Rightarrow> bytes \<Rightarrow> (aether_error, ('ch, 'ad) h2_loop \<times> h2_effect list) run" where
  "h2_chunk w ch_send addr_send env st chunk =
     bnd (drain_capsules w ch_send addr_send (capsule_push (capsules st) chunk) (inbound st)
            (addr_tx st) False) (\<lambda>(got_data, p, ch, tx).
     let st = st\<lparr>capsules := p, inbound := ch, addr_tx := tx\<rparr> in
     if got_data \<and> \<not> ready_fired st then
       (let n = validate_successes st + 1; st = st\<lparr>validate_successes := n\<rparr> in
        if n \<ge> DATA_PROBE_REQUIRED_SUCCESSES then
          Ok (fire_ready (st\<lparr>ready_fired := True, validate_deadline := None\<rparr>))
        else Ok (st, [SendProbe (probe_framed env)]))
     else Ok (st, []))"

text \<open>One turn: the deadlines are looked at when it begins (\<open>now\<close>), the event comes later.\<close>

definition h2_turn ::
    "nat \<Rightarrow> ('ch \<Rightarrow> bytes \<Rightarrow> 'ch \<times> try_send) \<Rightarrow> ('ad \<Rightarrow> assigned_addr \<Rightarrow> 'ad) \<Rightarrow> h2_env \<Rightarrow> nat \<Rightarrow> nat \<Rightarrow>
     ('ch, 'ad) h2_loop \<Rightarrow> h2_event \<Rightarrow>
     (aether_error, ('ch, 'ad) h2_loop verdict \<times> h2_effect list) run" where
  "h2_turn w ch_send addr_send env now later st ev =
     (if data_check env \<and> \<not> ready_fired st \<and> past now (validate_deadline st) then
        Ok (Return (Inl (MasqueE
          (lit ''h2 data-plane validation timeout (handshake ok, no traffic)''))), [CloseSender])
      else if past now (pong_deadline st) then
        Ok (Return (Inl (MasqueE (lit ''h2 keepalive timeout''))), [CloseSender])
      else (case ev of
        KeepaliveTick None \<Rightarrow>
          Ok (Continue (st\<lparr>awaiting_pong := True,
            pong_deadline := Some (later + keepalive_timeout env)\<rparr>), [SendPing])
      | KeepaliveTick (Some e) \<Rightarrow> Ok (Continue st, [])
      | Pong None \<Rightarrow> Ok (Continue (st\<lparr>awaiting_pong := False, pong_deadline := None\<rparr>), [])
      | Pong (Some e) \<Rightarrow> Ok (Return (Inl (MasqueE (lit ''h2 keepalive: '' @ e))), [CloseSender])
      | ProbeTick \<Rightarrow> Ok (Continue st, [SendProbe (probe_framed env)])
      | DeadlineElapsed \<Rightarrow> Ok (Continue st, [])
      | CtrlEvent (Some Migrate) \<Rightarrow> Ok (Continue st, [])
      | CtrlEvent _ \<Rightarrow> Ok (Return (Inr ()), [CloseSender])
      | SenderOutcome (Some r) \<Rightarrow> Ok (Return r, [])
      | SenderOutcome None \<Rightarrow> Ok (Return (Inl (MasqueE (lit ''h2 send task stopped''))), [])
      | Data (Some (Inr chunk)) \<Rightarrow>
          bnd (h2_chunk w ch_send addr_send env st chunk) (\<lambda>(st', eff). Ok (Continue st', eff))
      | Data (Some (Inl e)) \<Rightarrow> Ok (Return (Inl (MasqueE (lit ''h2 body: '' @ e))), [])
      | Data None \<Rightarrow> Ok (Return (Inr ()), [])))"

text \<open>A run over a sequence of turns; an event whose branch is disabled is not delivered.\<close>

fun h2_run ::
    "nat \<Rightarrow> ('ch \<Rightarrow> bytes \<Rightarrow> 'ch \<times> try_send) \<Rightarrow> ('ad \<Rightarrow> assigned_addr \<Rightarrow> 'ad) \<Rightarrow> h2_env \<Rightarrow>
     ('ch, 'ad) h2_loop \<Rightarrow> (nat \<times> nat \<times> h2_event) list \<Rightarrow>
     (aether_error, ('ch, 'ad) h2_loop verdict \<times> h2_effect list) run" where
  "h2_run w ch_send addr_send env st [] = Ok (Continue st, [])"
| "h2_run w ch_send addr_send env st ((now, later, ev) # evs) =
     (if h2_enabled env later st ev then
        bnd (h2_turn w ch_send addr_send env now later st ev) (\<lambda>(v, eff).
          case v of
            Return r \<Rightarrow> Ok (Return r, eff)
          | Continue st' \<Rightarrow>
            bnd (h2_run w ch_send addr_send env st' evs) (\<lambda>(v', eff'). Ok (v', eff @ eff')))
      else h2_run w ch_send addr_send env st evs)"

section \<open>Lemmas: the send task\<close>

lemma fill_batch_Ok:
  assumes "list_all small queue" "fill_batch batch queue = Ok (b, lft)"
  shows "\<exists>taken. queue = taken @ lft \<and> b = batch @ concat (map (capsule_bytes CAPSULE_DATAGRAM) taken)"
  using assms
proof (induction batch queue rule: fill_batch.induct)
  case (2 batch pkt queue)
  show ?case
  proof (cases "length batch < H2_SEND_BATCH_BYTES")
    case True
    then obtain taken where "queue = taken @ lft"
      "b = (batch @ capsule_bytes CAPSULE_DATAGRAM pkt) @ concat (map (capsule_bytes CAPSULE_DATAGRAM) taken)"
      using 2 by (auto simp: append_datagram_capsule_eq)
    then show ?thesis by (intro exI [of _ "pkt # taken"]) simp
  next
    case False
    then show ?thesis using 2 by simp
  qed
qed simp

definition no_capsule :: "pump_turn \<Rightarrow> bool" where
  "no_capsule t = (case t of FromControl (Some (CapsuleMsg _)) _ \<Rightarrow> False | _ \<Rightarrow> True)"

definition pumped :: "pump \<Rightarrow> pump \<Rightarrow> bytes list \<Rightarrow> bool" where
  "pumped st st' sent \<longleftrightarrow> pending st = sent @ pending st' \<and>
     concat (frames st') = concat (frames st) @ concat (map (capsule_bytes CAPSULE_DATAGRAM) sent)"

lemma pumped_trans: "pumped a b xs \<Longrightarrow> pumped b c ys \<Longrightarrow> pumped a c (xs @ ys)"
  by (simp add: pumped_def)

lemma pump_turn_Ok:
  assumes "list_all small (pending st)" "no_capsule t" "pump_turn_step st t = Ok st'"
  shows "\<exists>sent. pumped st st' sent"
proof (cases t)
  case (FromOutbound k fault)
  show ?thesis
  proof (cases "take k (pending st)")
    case Nil
    then show ?thesis
      using assms FromOutbound by (auto simp: pump_turn_step_def pumped_def intro: exI [of _ "[]"])
  next
    case (Cons pkt avail)
    have sm: "small pkt" "list_all small avail"
      using Cons assms(1) by (metis list.pred_inject(2) list_all_append append_take_drop_id)+
    then obtain b lft where b: "fill_batch (capsule_bytes CAPSULE_DATAGRAM pkt) avail = Ok (b, lft)"
        "send_capsule fault (frames st) b = Ok (frames st')" "pending st' = lft @ drop k (pending st)"
      using assms(3) FromOutbound Cons
      by (auto simp: pump_turn_step_def append_datagram_capsule_eq run_simps)
    from fill_batch_Ok [OF sm(2) b(1)] obtain taken where t: "avail = taken @ lft"
        "b = capsule_bytes CAPSULE_DATAGRAM pkt @ concat (map (capsule_bytes CAPSULE_DATAGRAM) taken)"
      by blast
    have "b \<noteq> []" using t by (simp add: capsule_bytes_def flip: length_greater_0_conv)
    then have "frames st' = frames st @ [b]"
      using b(2) by (auto simp: send_capsule_def split: option.splits)
    moreover have "pending st = pkt # taken @ pending st'"
      using Cons t(1) b(3) append_take_drop_id [of k "pending st"] by simp
    ultimately show ?thesis using t by (intro exI [of _ "pkt # taken"]) (simp add: pumped_def)
  qed
next
  case (FromControl m fault)
  then show ?thesis
    using assms by (auto simp: pump_turn_step_def no_capsule_def pumped_def intro: exI [of _ "[]"]
        split: option.splits sender_msg.splits)
next
  case OutboundClosed
  then show ?thesis using assms by (auto simp: pump_turn_step_def pumped_def intro: exI [of _ "[]"])
qed

lemma pump_outbound_Ok:
  assumes "list_all small (pending st)" "list_all no_capsule ts" "pump_outbound st ts = Ok st'"
  shows "\<exists>sent. pumped st st' sent"
  using assms
proof (induction st ts rule: pump_outbound.induct)
  case (1 st)
  then show ?case by (auto simp: pumped_def intro: exI [of _ "[]"])
next
  case (2 st t ts)
  show ?case
  proof (cases "ended st")
    case True
    then show ?thesis using 2 by (auto simp: pumped_def intro: exI [of _ "[]"])
  next
    case False
    then obtain st1 where st1: "pump_turn_step st t = Ok st1" "pump_outbound st1 ts = Ok st'"
      using 2 by (auto simp: run_simps)
    obtain xs where xs: "pumped st st1 xs" using pump_turn_Ok [OF _ _ st1(1)] 2 by auto
    then have "list_all small (pending st1)" using 2 by (simp add: pumped_def)
    then obtain ys where "pumped st1 st' ys" using 2(1) [OF False st1(1)] 2 st1(2) by auto
    then show ?thesis using pumped_trans [OF xs] by blast
  qed
qed

section \<open>Lemmas: draining\<close>

text \<open>A packet the receive path takes for what it is: it looks like IP, and its first byte is not
  that of an encoded context identifier.\<close>

definition carried :: "nat \<Rightarrow> bytes \<Rightarrow> bool" where
  "carried w pkt \<longleftrightarrow> looks_like_ip_packet pkt \<and> hd pkt \<noteq> 0x40 \<and> small pkt \<and> length pkt < 2 ^ w"

lemma capsule_next_datagram:
  "take_capsule w (cbuf p) = Some ((CAPSULE_DATAGRAM, v), r) \<Longrightarrow>
     capsule_next w p = (Ok (Some (Datagram v)), p\<lparr>cbuf := r\<rparr>)"
  by (simp add: capsule_next_eq capsule_of_def capsule_kinds)

lemma capsule_next_wait: "take_capsule w (cbuf p) = None \<Longrightarrow> capsule_next w p = (Ok None, p)"
  by (simp add: capsule_next_eq)

lemma drain_datagrams:
  assumes "dec_all (take_capsule w) (cbuf p) = (map (Pair CAPSULE_DATAGRAM) pkts, r)"
    and "list_all (carried w) pkts" and "\<And>c x. snd (ch_send c x) \<noteq> Closed"
  shows "drain_capsules w ch_send addr_send p ch tx d =
    Ok (d \<or> pkts \<noteq> [], p\<lparr>cbuf := r\<rparr>, foldl (\<lambda>c x. fst (ch_send c x)) ch pkts, tx)"
  using assms(1,2)
proof (induction pkts arbitrary: p ch d)
  case Nil
  then have "take_capsule w (cbuf p) = None" "r = cbuf p"
    by (cases "take_capsule w (cbuf p)"; auto simp: cps.dec_all_None cps.dec_all_Some prod_eq_iff)+
  then show ?case by (simp add: drain_capsules.simps capsule_next_wait)
next
  case (Cons v pkts)
  then obtain s where s: "take_capsule w (cbuf p) = Some ((CAPSULE_DATAGRAM, v), s)"
      "dec_all (take_capsule w) s = (map (Pair CAPSULE_DATAGRAM) pkts, r)"
    by (cases "take_capsule w (cbuf p)") (auto simp: cps.dec_all_None cps.dec_all_Some prod_eq_iff)
  have v: "strip_datagram_context v = Ok v" using Cons.prems(2) by (simp add: strip_bare carried_def)
  obtain c' o' where o: "ch_send ch v = (c', o')" "o' \<noteq> Closed"
    using assms(3) [of ch v] by (cases "ch_send ch v") auto
  show ?case
    using Cons.IH [of "p\<lparr>cbuf := s\<rparr>" c' True] Cons.prems(2) s o
    by (cases o')
      (simp_all add: drain_capsules.simps [of w ch_send addr_send p] capsule_next_datagram v)
qed

text \<open>The receive side of the loop over a sequence of chunks.\<close>

fun receive_chunks ::
    "nat \<Rightarrow> ('ch \<Rightarrow> bytes \<Rightarrow> 'ch \<times> try_send) \<Rightarrow> ('ad \<Rightarrow> assigned_addr \<Rightarrow> 'ad) \<Rightarrow>
     capsule_parser \<Rightarrow> 'ch \<Rightarrow> 'ad option \<Rightarrow> bytes list \<Rightarrow>
     (aether_error, capsule_parser \<times> 'ch \<times> 'ad option) run" where
  "receive_chunks w ch_send addr_send p ch tx [] = Ok (p, ch, tx)"
| "receive_chunks w ch_send addr_send p ch tx (chunk # chunks) =
     bnd (drain_capsules w ch_send addr_send (capsule_push p chunk) ch tx False) (\<lambda>(_, p', ch', tx').
     receive_chunks w ch_send addr_send p' ch' tx' chunks)"

lemma length_datagram: "length (capsule_bytes CAPSULE_DATAGRAM v) \<le> length v + 9"
  using vlen_cases [of "unat (of_nat (length v) :: u64)"]
  by (auto simp: capsule_bytes_def CAPSULE_DATAGRAM_def vlen_def)

lemma all_datagrams:
  assumes "list_all (carried w) pkts"
  shows "dec_all (take_capsule w) (concat (map (capsule_bytes CAPSULE_DATAGRAM) pkts)) =
    (map (Pair CAPSULE_DATAGRAM) pkts, [])"
proof -
  have "list_all (capsule_valid w) (map (Pair CAPSULE_DATAGRAM) pkts)"
    using assms by (simp add: list_all_iff carried_def capsule_valid_def CAPSULE_DATAGRAM_def MAX_VAR_INT_def)
  then show ?thesis
    using cps.dec_all_encoded [of w "map (Pair CAPSULE_DATAGRAM) pkts" "[]"]
    by (simp add: comp_def cps.dec_all_None take_capsule_def)
qed

lemma short_residue:
  assumes "list_all (carried w) pkts" "list_all (\<lambda>v. length v \<le> 65535) pkts"
    and "bs @ y = concat (map (capsule_bytes CAPSULE_DATAGRAM) pkts)"
  shows "length (snd (dec_all (take_capsule w) bs)) \<le> 65544"
proof -
  have "list_all (capsule_valid w) (map (Pair CAPSULE_DATAGRAM) pkts)"
    using assms by (simp add: list_all_iff carried_def capsule_valid_def CAPSULE_DATAGRAM_def MAX_VAR_INT_def)
  then have "snd (dec_all (take_capsule w) bs) = [] \<or>
      (\<exists>v\<in>set pkts. length (snd (dec_all (take_capsule w) bs)) < length (capsule_bytes CAPSULE_DATAGRAM v))"
    using cps.residue [of w "map (Pair CAPSULE_DATAGRAM) pkts" bs y] assms(3) by (auto simp: comp_def)
  then show ?thesis
    using assms(2) length_datagram by (fastforce simp: list_all_iff dest: less_le_trans)
qed

lemma receive_datagrams:
  assumes "list_all (carried w) (got @ pkts)" "list_all (\<lambda>v. length v \<le> 65535) (got @ pkts)"
    and "list_all (\<lambda>c. length c \<le> 65536) chunks"
    and "seen @ concat chunks = concat (map (capsule_bytes CAPSULE_DATAGRAM) (got @ pkts))"
    and "dec_all (take_capsule w) seen = (map (Pair CAPSULE_DATAGRAM) got, cbuf p)"
    and opn: "\<And>c x. snd (ch_send c x) \<noteq> Closed"
  shows "receive_chunks w ch_send addr_send p c tx chunks =
    Ok (p\<lparr>cbuf := []\<rparr>, foldl (\<lambda>c x. fst (ch_send c x)) c pkts, tx)"
  using assms(1-5)
proof (induction chunks arbitrary: got pkts seen p c)
  case Nil
  then have "map (Pair CAPSULE_DATAGRAM) got = map (Pair CAPSULE_DATAGRAM) (got @ pkts)" "cbuf p = []"
    using all_datagrams [of w "got @ pkts"] by auto
  then show ?case by simp
next
  case (Cons chunk chunks)
  let ?full = "concat (map (capsule_bytes CAPSULE_DATAGRAM) (got @ pkts))"
  obtain xs r where xs: "dec_all (take_capsule w) (cbuf p @ chunk) = (xs, r)" by fastforce
  have s: "dec_all (take_capsule w) (seen @ chunk) = (map (Pair CAPSULE_DATAGRAM) got @ xs, r)"
    using cps.dec_all_more [of w seen chunk] Cons.prems(5) xs by simp
  have "map (Pair CAPSULE_DATAGRAM) (got @ pkts) =
      (map (Pair CAPSULE_DATAGRAM) got @ xs) @ fst (dec_all (take_capsule w) (r @ concat chunks))"
    using cps.dec_all_more [of w "seen @ chunk" "concat chunks"] s all_datagrams [OF Cons.prems(1)]
      Cons.prems(4) by simp
  then obtain new rest where n: "pkts = new @ rest" "xs = map (Pair CAPSULE_DATAGRAM) new"
    by (auto simp: map_eq_append_conv)
  have "length (cbuf p) \<le> 65544"
    using short_residue [OF Cons.prems(1,2), of seen] Cons.prems(4,5) by simp
  then have push: "capsule_push p chunk = p\<lparr>cbuf := cbuf p @ chunk\<rparr>"
    using Cons.prems(3) by (simp add: capsule_push_def MAX_CAPSULE_BUF_def)
  have "drain_capsules w ch_send addr_send (capsule_push p chunk) c tx False =
      Ok (new \<noteq> [], p\<lparr>cbuf := r\<rparr>, foldl (\<lambda>c x. fst (ch_send c x)) c new, tx)"
    using drain_datagrams [of w "p\<lparr>cbuf := cbuf p @ chunk\<rparr>" new r ch_send addr_send c tx False] xs n Cons.prems(1) opn
    by (simp add: push)
  moreover have "receive_chunks w ch_send addr_send (p\<lparr>cbuf := r\<rparr>) c' tx chunks =
      Ok (p\<lparr>cbuf := []\<rparr>, foldl (\<lambda>c x. fst (ch_send c x)) c' rest, tx)" for c'
    using Cons.IH [of "got @ new" rest "seen @ chunk" "p\<lparr>cbuf := r\<rparr>" c'] Cons.prems s n by simp
  ultimately show ?case using n by simp
qed

section \<open>Lemmas: the event loop\<close>

lemma drain_Ok: "\<exists>x. drain_capsules w ch_send addr_send p ch tx d = Ok x"
proof (induction p arbitrary: ch tx d rule: measure_induct_rule [of "\<lambda>p. length (cbuf p)"])
  case (less p)
  have n: "fst (capsule_next w p) \<noteq> Panic" using safe_capsule_next [of w p] by (simp add: safe_def)
  have s: "strip_datagram_context v \<noteq> Panic" for v using safe_strip [of v] by (simp add: safe_def)
  show ?case
    using n s less capsule_next_less [of w p] by (subst drain_capsules.simps)
      (auto split: prod.splits run.splits option.splits capsule.splits try_send.splits)
qed

text \<open>The inbound queue with a record of what was handed to it.\<close>

definition logged :: "('ch \<Rightarrow> bytes \<Rightarrow> 'ch \<times> try_send) \<Rightarrow> 'ch \<times> bytes list \<Rightarrow> bytes \<Rightarrow> ('ch \<times> bytes list) \<times> try_send" where
  "logged ch_send = (\<lambda>(ch, log) pkt. let (ch', r) = ch_send ch pkt in ((ch', log @ [pkt]), r))"

text \<open>In how many turns of a run packets came in.\<close>

fun turns_with_data ::
    "nat \<Rightarrow> ('ch \<times> bytes list \<Rightarrow> bytes \<Rightarrow> ('ch \<times> bytes list) \<times> try_send) \<Rightarrow> ('ad \<Rightarrow> assigned_addr \<Rightarrow> 'ad) \<Rightarrow> h2_env \<Rightarrow>
     ('ch \<times> bytes list, 'ad) h2_loop \<Rightarrow> (nat \<times> nat \<times> h2_event) list \<Rightarrow> nat" where
  "turns_with_data w ch_send addr_send env st [] = 0"
| "turns_with_data w ch_send addr_send env st ((now, later, ev) # evs) =
     (if h2_enabled env later st ev then
        (case h2_turn w ch_send addr_send env now later st ev of
           Ok (Continue st', _) \<Rightarrow>
             (if snd (inbound st') = snd (inbound st) then 0 else 1) + turns_with_data w ch_send addr_send env st' evs
         | _ \<Rightarrow> 0)
      else turns_with_data w ch_send addr_send env st evs)"

lemma drain_logged:
  "drain_capsules w (logged ch_send) addr_send p chl tx d = Ok (g, p', chl', tx') \<Longrightarrow>
     \<exists>new. snd chl' = snd chl @ new \<and> (g \<longleftrightarrow> d \<or> new \<noteq> [])"
proof (induction p arbitrary: chl tx d rule: measure_induct_rule [of "\<lambda>p. length (cbuf p)"])
  case (less p)
  obtain r p1 where n: "capsule_next w p = (r, p1)" by fastforce
  note step = less.prems [unfolded drain_capsules.simps [of w "logged ch_send" addr_send p chl tx d] n prod.case]
  show ?case
  proof (cases r)
    case (Ok oc)
    show ?thesis
    proof (cases oc)
      case None
      then show ?thesis using step Ok by auto
    next
      case (Some c)
      have sm: "length (cbuf p1) < length (cbuf p)" using capsule_next_less n Ok Some by blast
      note go = less.IH [OF sm]
      show ?thesis
      proof (cases "\<exists>payload pkt. c = Datagram payload \<and> strip_datagram_context payload = Ok pkt")
        case True
        then obtain payload pkt where c: "c = Datagram payload" "strip_datagram_context payload = Ok pkt" by blast
        obtain ch log ch1 o1 where ch: "chl = (ch, log)" "ch_send ch pkt = (ch1, o1)" by (metis surj_pair)
        show ?thesis using step Ok Some c ch go [of "(ch1, log @ [pkt])" tx True]
          by (cases o1) (auto simp: logged_def)
      next
        case False
        then have "drain_capsules w (logged ch_send) addr_send p1 chl
            (case c of AddressAssign addrs \<Rightarrow> assign_addrs addr_send tx addrs | _ \<Rightarrow> tx) d = Ok (g, p', chl', tx')"
          using step Ok Some by (cases c) (auto split: run.splits)
        then show ?thesis by (rule go)
      qed
    qed
  qed (use step in auto)
qed

text \<open>How far validation has come.\<close>

definition loop_inv :: "h2_env \<Rightarrow> bool \<Rightarrow> ('ch, 'ad) h2_loop \<Rightarrow> bool" where
  "loop_inv env rtx st \<longleftrightarrow>
     ready_fired st \<or> (ready_tx st = rtx \<and> data_check env \<and> (validate_successes st = 0 \<or> validate_successes st = 1))"

definition advances :: "bool \<Rightarrow> ('ch \<times> bytes list, 'ad) h2_loop \<Rightarrow> ('ch \<times> bytes list, 'ad) h2_loop \<Rightarrow> h2_effect list \<Rightarrow> bool" where
  "advances rtx st st' eff \<longleftrightarrow>
     (if ready_fired st \<or> snd (inbound st') = snd (inbound st)
      then ready_fired st' = ready_fired st \<and> validate_successes st' = validate_successes st \<and> count_list eff FireReady = 0
      else if validate_successes st = 0
      then \<not> ready_fired st' \<and> validate_successes st' = 1 \<and> count_list eff FireReady = 0
      else ready_fired st' \<and> count_list eff FireReady = (if rtx then 1 else 0))"

lemma h2_chunk_step:
  assumes "loop_inv env rtx st"
  shows "\<exists>st' eff. h2_chunk w (logged ch_send) addr_send env st chunk = Ok (st', eff) \<and> loop_inv env rtx st' \<and>
    advances rtx st st' eff"
proof -
  obtain g p ch tx where d: "drain_capsules w (logged ch_send) addr_send (capsule_push (capsules st) chunk)
      (inbound st) (addr_tx st) False = Ok (g, p, ch, tx)"
    using drain_Ok [of w "logged ch_send" addr_send "capsule_push (capsules st) chunk" "inbound st" "addr_tx st" False]
    by auto
  then have "g \<longleftrightarrow> snd ch \<noteq> snd (inbound st)" using drain_logged [OF d] by auto
  then show ?thesis
    using assms
    by (auto simp: h2_chunk_def d Let_def loop_inv_def advances_def fire_ready_def DATA_PROBE_REQUIRED_SUCCESSES_def word_le_nat_alt)
qed

lemma h2_turn_step:
  assumes "loop_inv env rtx st"
  shows "case h2_turn w (logged ch_send) addr_send env now later st ev of
     Ok (Continue st', eff) \<Rightarrow> loop_inv env rtx st' \<and> advances rtx st st' eff
   | Ok (Return r, eff) \<Rightarrow> count_list eff FireReady = 0
   | _ \<Rightarrow> False"
proof (cases "\<exists>chunk. ev = Data (Some (Inr chunk))")
  case True
  then obtain chunk where ev: "ev = Data (Some (Inr chunk))" by blast
  from h2_chunk_step [OF assms, of w ch_send addr_send chunk] show ?thesis by (auto simp: h2_turn_def ev)
next
  case False
  then show ?thesis
    using assms
    by (auto simp: h2_turn_def loop_inv_def advances_def split: h2_event.splits option.splits sum.splits control.splits)
qed

text \<open>Readiness is fired once, at the turn that brings the second lot of packets.\<close>

lemma h2_run_ready:
  assumes "loop_inv env rtx st"
  shows "\<exists>v eff. h2_run w (logged ch_send) addr_send env st evs = Ok (v, eff) \<and>
    count_list eff FireReady =
      (if rtx \<and> \<not> ready_fired st \<and> 2 \<le> unat (validate_successes st) + turns_with_data w (logged ch_send) addr_send env st evs
       then 1 else 0)"
  using assms
proof (induction evs arbitrary: st)
  case Nil
  then show ?case by (auto simp: loop_inv_def)
next
  case (Cons e evs)
  obtain now later ev where e: "e = (now, later, ev)" by (cases e)
  show ?case
  proof (cases "h2_enabled env later st ev")
    case True
    note turn = h2_turn_step [OF Cons.prems, of w ch_send addr_send now later ev]
    obtain v eff where t: "h2_turn w (logged ch_send) addr_send env now later st ev = Ok (v, eff)"
      using turn by (auto split: run.splits)
    show ?thesis
    proof (cases v)
      case (Return r)
      have "unat (validate_successes st) \<le> 1 \<or> ready_fired st" using Cons.prems by (auto simp: loop_inv_def)
      then show ?thesis using turn by (auto simp: e True t Return)
    next
      case (Continue st1)
      then have inv: "loop_inv env rtx st1" using turn t by simp
      obtain v' eff' where r: "h2_run w (logged ch_send) addr_send env st1 evs = Ok (v', eff')"
          "count_list eff' FireReady = (if rtx \<and> \<not> ready_fired st1 \<and>
             2 \<le> unat (validate_successes st1) + turns_with_data w (logged ch_send) addr_send env st1 evs then 1 else 0)"
        using Cons.IH [OF inv] by blast
      have "validate_successes st = 0 \<or> validate_successes st = 1" if "\<not> ready_fired st"
        using Cons.prems that by (auto simp: loop_inv_def)
      then show ?thesis using turn by (auto simp: e True t Continue r advances_def split: if_splits)
    qed
  next
    case False
    then show ?thesis using Cons by (simp add: e)
  qed
qed

lemma loop_inv_start: "loop_inv env rtx (fst (h2_start env ch tx rtx t))"
  by (simp add: h2_start_def loop_inv_def fire_ready_def Let_def)

text \<open>While a ping is unanswered its deadline stays.\<close>

lemma h2_turn_waits:
  assumes "h2_turn w ch_send addr_send env now later st ev = Ok (Continue st', eff)" "h2_enabled env later st ev"
    "ready_fired st" "awaiting_pong st" "\<forall>r. ev \<noteq> Pong r"
  shows "ready_fired st' \<and> awaiting_pong st' \<and> pong_deadline st' = pong_deadline st"
  using assms
  by (auto simp: h2_turn_def h2_enabled_def h2_chunk_def bnd_Ok_iff Let_def
      split: if_splits h2_event.splits option.splits sum.splits control.splits)

lemma h2_run_waits:
  assumes "h2_run w ch_send addr_send env st evs = Ok (Continue st', eff)"
    "ready_fired st \<and> awaiting_pong st \<and> pong_deadline st = d" "list_all (\<lambda>(_, _, ev). \<forall>r. ev \<noteq> Pong r) evs"
  shows "ready_fired st' \<and> awaiting_pong st' \<and> pong_deadline st' = d"
  using assms
proof (induction evs arbitrary: st eff)
  case (Cons e evs)
  obtain now later ev where e: "e = (now, later, ev)" by (cases e)
  show ?case
  proof (cases "h2_enabled env later st ev")
    case True
    obtain v eff1 where t: "h2_turn w ch_send addr_send env now later st ev = Ok (v, eff1)"
      using Cons.prems(1) True by (auto simp: e bnd_Ok_iff)
    then obtain st1 eff2 where "h2_turn w ch_send addr_send env now later st ev = Ok (Continue st1, eff1)"
        "h2_run w ch_send addr_send env st1 evs = Ok (Continue st', eff2)"
      using Cons.prems(1) True by (cases v) (auto simp: e bnd_Ok_iff)
    then show ?thesis using Cons.IH [of st1 eff2] Cons.prems(2,3) h2_turn_waits [OF _ True] by (auto simp: e)
  next
    case False
    then show ?thesis using Cons by (simp add: e)
  qed
qed simp

section \<open>Properties\<close>

text \<open>C6. The HTTP/2 carrier delivers. Packets queued for sending, taken by the send task in any
  turns and batched into DATA frames, whose bytes arrive cut into any chunks of up to 64 KiB,
  come out of the other side's parser as the packets that went in: the same ones, in order,
  nothing left over. The packets are IP packets of up to 65535 bytes; the inbound queue may be
  full but is open.\<close>

theorem h2_carrier_delivers:
  fixes tx :: "'ad option"
  assumes "list_all (carried w) pkts" "list_all (\<lambda>v. length v \<le> 65535) pkts"
    and "list_all no_capsule turns"
    and "pump_outbound \<lparr>pending = pkts, frames = [], ended = False\<rparr> turns = Ok st"
    and "list_all (\<lambda>c. length c \<le> 65536) chunks" "concat chunks = concat (frames st)"
    and "\<forall>c x. snd (ch_send c x) \<noteq> Closed"
  shows "\<exists>sent. pkts = sent @ pending st \<and>
    receive_chunks w ch_send addr_send capsule_parser_new ch tx chunks =
      Ok (capsule_parser_new, foldl (\<lambda>c x. fst (ch_send c x)) ch sent, tx)"
proof -
  have "list_all small pkts" using assms(1) by (simp add: list_all_iff carried_def)
  then obtain sent where s: "pkts = sent @ pending st"
      "concat (frames st) = concat (map (capsule_bytes CAPSULE_DATAGRAM) sent)"
    using pump_outbound_Ok [OF _ assms(3,4)] by (auto simp: pumped_def)
  have "receive_chunks w ch_send addr_send capsule_parser_new ch tx chunks =
      Ok (capsule_parser_new\<lparr>cbuf := []\<rparr>, foldl (\<lambda>c x. fst (ch_send c x)) ch sent, tx)"
    using assms s by (intro receive_datagrams [where got = "[]" and seen = "[]"])
      (simp_all add: capsule_parser_new_def cps.dec_all_None take_capsule_def)
  then show ?thesis using s by (auto simp: capsule_parser_new_def)
qed

theorem h2_carrier_delivers_witness:
  "\<exists>sent. [0x45 # replicate 19 0] = sent @ [] \<and>
    receive_chunks 64 (\<lambda>c x. (c @ [x], Sent)) (\<lambda>a b. a) capsule_parser_new [] (None :: unit option)
      [[0], 20 # 0x45 # replicate 19 0] =
      Ok (capsule_parser_new, foldl (\<lambda>c x. fst (c @ [x], Sent)) [] sent, None)"
proof -
  have enc: "capsule_bytes CAPSULE_DATAGRAM (0x45 # replicate 19 0) = 0 # 20 # 0x45 # replicate 19 0"
    by (simp add: capsule_bytes_def CAPSULE_DATAGRAM_def varint_bytes_def vlen_def vtag_def)
  have pump: "pump_outbound \<lparr>pending = [0x45 # replicate 19 0], frames = [], ended = False\<rparr>
      [FromOutbound 1 None] =
      Ok \<lparr>pending = [], frames = [0 # 20 # 0x45 # replicate 19 0], ended = False\<rparr>"
    using enc by (simp add: pump_turn_step_def append_datagram_capsule_eq small_def send_capsule_def)
  have ip: "looks_like_ip_packet (0x45 # replicate 19 0)"
    by (simp add: looks_like_ip_packet_def drop_bit_eq_div word_unat_eq_iff unat_div)
  show ?thesis
    using h2_carrier_delivers [of 64 "[0x45 # replicate 19 0]" "[FromOutbound 1 None]" _
        "[[0], 20 # 0x45 # replicate 19 0]" "\<lambda>c x. (c @ [x], Sent)" "\<lambda>a b. a" "[]" "None :: unit option",
        OF _ _ _ pump] ip
    by (simp add: carried_def small_def no_capsule_def)
qed

text \<open>C11. The tunnel is announced as ready once and only when it works. With the data check on, a run announces it
  exactly when packets of the peer have come in in at least two of its turns, and then once, and otherwise
  not at all; with the check off it is announced once, at the start. This holds whatever the events, their order and
  their times, and so for every beginning of a run; if no one waits for the announcement there is none. The
  loop never panics.\<close>

theorem h2_ready_after_validation:
  "let (st, eff) = h2_start env (ch, []) tx waited t in
   case h2_run w (logged ch_send) addr_send env st evs of
     Ok (v, eff') \<Rightarrow> count_list (eff @ eff') FireReady =
       (if waited then if data_check env then if 2 \<le> turns_with_data w (logged ch_send) addr_send env st evs then 1 else 0 else 1 else 0)
   | _ \<Rightarrow> False"
proof -
  define st where "st = fst (h2_start env (ch, [] :: bytes list) tx waited t)"
  have "loop_inv env waited st" unfolding st_def by (rule loop_inv_start)
  from h2_run_ready [OF this, of w ch_send addr_send evs] obtain v eff' where
    r: "h2_run w (logged ch_send) addr_send env st evs = Ok (v, eff')"
      "count_list eff' FireReady = (if waited \<and> \<not> ready_fired st \<and>
         2 \<le> unat (validate_successes st) + turns_with_data w (logged ch_send) addr_send env st evs then 1 else 0)"
    by blast
  have "h2_start env (ch, []) tx waited t = (st, if data_check env then [SendProbe (probe_framed env)] else if waited then [FireReady] else [])"
    "ready_fired st \<longleftrightarrow> \<not> data_check env" "validate_successes st = 0"
    by (simp_all add: st_def h2_start_def fire_ready_def Let_def)
  then show ?thesis using r by simp
qed

text \<open>C12. A peer that does not answer a ping is given up in time. When a keepalive ping has been sent, and
  no answer to it has come since, whatever else has, then a turn ends the tunnel with the keepalive error, and
  closes the send side, exactly when it begins at least the keepalive timeout after the
  ping; and that is when the loop wakes up on its own. An answer that comes before then ends the waiting.\<close>

theorem h2_silence_ends_tunnel:
  assumes "h2_enabled env later st (KeepaliveTick None)"
    "h2_turn w ch_send addr_send env now later st (KeepaliveTick None) = Ok (Continue st1, eff)"
    "h2_run w ch_send addr_send env st1 evs = Ok (Continue st2, eff2)"
    "list_all (\<lambda>(_, _, ev). \<forall>r. ev \<noteq> Pong r) evs"
  shows "eff = [SendPing] \<and>
    (h2_turn w ch_send addr_send env now' later' st2 ev =
       Ok (Return (Inl (MasqueE (lit ''h2 keepalive timeout''))), [CloseSender]) \<longleftrightarrow> later + keepalive_timeout env \<le> now') \<and>
    (h2_enabled env later' st2 DeadlineElapsed \<longleftrightarrow> later + keepalive_timeout env \<le> later') \<and>
    (now' < later + keepalive_timeout env \<longrightarrow>
       (\<exists>st3. h2_turn w ch_send addr_send env now' later' st2 (Pong None) = Ok (Continue st3, []) \<and>
          (\<forall>t. \<not> h2_enabled env t st3 DeadlineElapsed)))"
proof -
  let ?waits = "\<lambda>st. ready_fired st \<and> awaiting_pong st \<and> pong_deadline st = Some (later + keepalive_timeout env)"
  have first: "eff = [SendPing]" "?waits st1"
    using assms(1,2) by (auto simp: h2_turn_def h2_enabled_def split: if_splits)
  have "?waits st2" using h2_run_waits [OF assms(3) first(2) assms(4)] .
  then show ?thesis using first(1)
    by (auto simp: h2_turn_def h2_enabled_def past_def lit_def bnd_Ok_iff split: h2_event.splits option.splits sum.splits control.splits run.splits)
qed

text \<open>A tunnel without the data check, a ping after five seconds, and then only a message of its owner.\<close>

definition demo_env :: h2_env where
  "demo_env = \<lparr>data_check = False, validation_timeout = 10000, keepalive_timeout = 20000, probe_framed = []\<rparr>"

definition demo_loop :: "(bytes list, unit) h2_loop" where
  "demo_loop = fst (h2_start demo_env [] None True 0)"

theorem h2_silence_ends_tunnel_witness:
  "\<exists>st1 st2 eff2. h2_turn 64 (\<lambda>c x. (c @ [x], Sent)) (\<lambda>a b. a) demo_env 0 5000 demo_loop (KeepaliveTick None) =
       Ok (Continue st1, [SendPing]) \<and>
     h2_run 64 (\<lambda>c x. (c @ [x], Sent)) (\<lambda>a b. a) demo_env st1 [(5000, 6000, CtrlEvent (Some Migrate))] = Ok (Continue st2, eff2) \<and>
     h2_turn 64 (\<lambda>c x. (c @ [x], Sent)) (\<lambda>a b. a) demo_env 25000 25000 st2 DeadlineElapsed =
       Ok (Return (Inl (MasqueE (lit ''h2 keepalive timeout''))), [CloseSender]) \<and>
     \<not> h2_enabled demo_env 24999 st2 DeadlineElapsed"
proof -
  let ?turn = "h2_turn 64 (\<lambda>c x. (c @ [x], Sent)) (\<lambda>a b. a) demo_env"
  let ?run = "h2_run 64 (\<lambda>c x. (c @ [x], Sent)) (\<lambda>a b. a) demo_env"
  have on: "h2_enabled demo_env 5000 demo_loop (KeepaliveTick None)"
    by (simp add: demo_loop_def demo_env_def h2_start_def fire_ready_def h2_enabled_def)
  obtain st1 eff where t: "?turn 0 5000 demo_loop (KeepaliveTick None) = Ok (Continue st1, eff)" "pong_deadline st1 = Some 25000"
    by (simp add: demo_loop_def demo_env_def h2_start_def fire_ready_def h2_turn_def past_def)
  then have r: "?run st1 [(5000, 6000, CtrlEvent (Some Migrate))] = Ok (Continue st1, [])"
    by (simp add: demo_env_def h2_turn_def h2_enabled_def past_def)
  have kt: "keepalive_timeout demo_env = 20000" by (simp add: demo_env_def)
  have quiet: "list_all (\<lambda>(_, _, ev). \<forall>r. ev \<noteq> Pong r) [(5000, 6000, CtrlEvent (Some Migrate))]" by simp
  note at = h2_silence_ends_tunnel [OF on t(1) r quiet, unfolded kt]
  show ?thesis using t r at [of 25000 25000 DeadlineElapsed] at [of 0 24999 DeadlineElapsed]
    by (intro exI [of _ st1] exI [of _ "[]"]) simp
qed

end
