(* ===== verification/Sock.thy ===== *)
theory Sock
  imports Core Net
begin

text \<open>
  A connected stream socket and code that talks over it. What the peer sends arrives in pieces the
  code has no say in (\<open>arrival\<close>); what is written is recorded; a write may find the peer gone. An
  \<open>io\<close> computation threads the socket, or a record that extends it, through reads, writes and
  early returns, as the \<^verbatim>\<open>async\<close> functions of \<^verbatim>\<open>socks.rs\<close> and \<^verbatim>\<open>upstream.rs\<close> do.
\<close>

section \<open>Errors of the operating system\<close>

datatype error_kind =
    NotFound | PermissionDenied | ConnectionRefused | ConnectionReset | ConnectionAborted
  | Interrupted | WouldBlock | TimedOut | AddrInUse | AddrNotAvailable | UnexpectedEof | InvalidData | OtherKind

record io_error =
  kind :: error_kind
  raw_os_error :: "int option"
  io_text :: str

definition io_new :: "error_kind \<Rightarrow> str \<Rightarrow> io_error" where
  "io_new k t = \<lparr>kind = k, raw_os_error = None, io_text = t\<rparr>"

definition io_err :: "io_error \<Rightarrow> aether_error" where
  "io_err e = Io (io_text e)"

section \<open>The socket\<close>

datatype arrival = Chunk bytes | ReadFault io_error

record sock =
  rx :: "arrival list"
  tx :: bytes
  writes :: "io_error option list"

text \<open>The outcome of each coming write is the head of \<open>writes\<close>; an exhausted list means success.\<close>

type_synonym ('s, 'a) io = "'s \<Rightarrow> (aether_error, 'a) run \<times> 's"

definition ret :: "'a \<Rightarrow> ('s, 'a) io" where
  "ret a s = (Ok a, s)"

definition fail :: "aether_error \<Rightarrow> ('s, 'a) io" where
  "fail e s = (Err e, s)"

definition seq :: "('s, 'a) io \<Rightarrow> ('a \<Rightarrow> ('s, 'b) io) \<Rightarrow> ('s, 'b) io" where
  "seq m f s = (case m s of (Ok a, s') \<Rightarrow> f a s' | (Err e, s') \<Rightarrow> (Err e, s') | (Panic, s') \<Rightarrow> (Panic, s'))"

text \<open>\<^verbatim>\<open>let _ = m.await;\<close>: the outcome is dropped, a panic is not.\<close>

definition attempt :: "('s, 'a) io \<Rightarrow> ('s, (aether_error, 'a) run) io" where
  "attempt m s = (case m s of (Panic, s') \<Rightarrow> (Panic, s') | (r, s') \<Rightarrow> (Ok r, s'))"

fun read_segs :: "nat \<Rightarrow> arrival list \<Rightarrow> (io_error, bytes) run \<times> arrival list" where
  "read_segs n [] = (Ok [], [])"
| "read_segs n (ReadFault e # r) = (Err e, r)"
| "read_segs n (Chunk c # r) =
     (if c = [] then read_segs n r
      else (Ok (take n c), if length c \<le> n then r else Chunk (drop n c) # r))"

fun exact_segs :: "nat \<Rightarrow> arrival list \<Rightarrow> (io_error, bytes) run \<times> arrival list" where
  "exact_segs 0 r = (Ok [], r)"
| "exact_segs (Suc n) [] = (Err (io_new UnexpectedEof (lit ''early eof'')), [])"
| "exact_segs (Suc n) (ReadFault e # r) = (Err e, r)"
| "exact_segs (Suc n) (Chunk c # r) =
     (if length c \<le> Suc n then
        (case exact_segs (Suc n - length c) r of
           (Ok b, r') \<Rightarrow> (Ok (c @ b), r') | (Err e, r') \<Rightarrow> (Err e, r') | (Panic, r') \<Rightarrow> (Panic, r'))
      else (Ok (take (Suc n) c), Chunk (drop (Suc n) c) # r))"

text \<open>One \<^verbatim>\<open>read\<close> into a buffer of \<open>n\<close> bytes: what has arrived, at most \<open>n\<close> of it, and nothing only
  at the end of the stream. \<^verbatim>\<open>read_exact\<close> waits for all \<open>n\<close>.\<close>

definition read :: "nat \<Rightarrow> ('x sock_scheme, bytes) io" where
  "read n s = (let (r, q) = read_segs n (rx s) in (map_err io_err r, s\<lparr>rx := q\<rparr>))"

definition read_exact :: "nat \<Rightarrow> ('x sock_scheme, bytes) io" where
  "read_exact n s = (let (r, q) = exact_segs n (rx s) in (map_err io_err r, s\<lparr>rx := q\<rparr>))"

text \<open>A write that fails is recorded with none of its bytes, though some may have left before the fault.\<close>

definition write_all :: "bytes \<Rightarrow> ('x sock_scheme, unit) io" where
  "write_all bs s = (case writes s of
     [] \<Rightarrow> (Ok (), s\<lparr>tx := tx s @ bs\<rparr>)
   | None # ws \<Rightarrow> (Ok (), s\<lparr>tx := tx s @ bs, writes := ws\<rparr>)
   | Some e # ws \<Rightarrow> (Err (io_err e), s\<lparr>writes := ws\<rparr>))"

section \<open>Lemmas\<close>

lemma ret_simp [simp]: "ret a s = (Ok a, s)"
  by (simp add: ret_def)

lemma fail_simp [simp]: "fail e s = (Err e, s)"
  by (simp add: fail_def)

lemma seq_Ok [simp]: "m s = (Ok a, s') \<Longrightarrow> seq m f s = f a s'"
  by (simp add: seq_def)

lemma seq_Err [simp]: "m s = (Err e, s') \<Longrightarrow> seq m f s = (Err e, s')"
  by (simp add: seq_def)

lemma seq_cases:
  "seq m f s = (r, t) \<longleftrightarrow>
     (\<exists>a s'. m s = (Ok a, s') \<and> f a s' = (r, t)) \<or> (\<exists>e. m s = (Err e, t) \<and> r = Err e) \<or>
     m s = (Panic, t) \<and> r = Panic"
  by (auto simp: seq_def split: run.splits prod.splits)

lemma attempt_Ok [simp]: "m s = (Ok a, s') \<Longrightarrow> attempt m s = (Ok (Ok a), s')"
  by (simp add: attempt_def)

lemma attempt_Err [simp]: "m s = (Err e, s') \<Longrightarrow> attempt m s = (Ok (Err e), s')"
  by (simp add: attempt_def)

text \<open>The bytes that arrive in order, when no read fails.\<close>

fun sent :: "arrival list \<Rightarrow> bytes" where
  "sent [] = []"
| "sent (Chunk c # r) = c @ sent r"
| "sent (ReadFault e # r) = []"

fun clean :: "arrival list \<Rightarrow> bool" where
  "clean [] = True"
| "clean (Chunk c # r) = clean r"
| "clean (ReadFault e # r) = False"

lemma exact_segs_sent:
  "n \<le> length (sent r) \<Longrightarrow> \<exists>r'. exact_segs n r = (Ok (take n (sent r)), r') \<and> sent r' = drop n (sent r) \<and>
     clean r' = clean r"
proof (induction n r rule: exact_segs.induct)
  case (4 n c r)
  show ?case
  proof (cases "length c \<le> Suc n")
    case True
    then obtain r' where "exact_segs (Suc n - length c) r = (Ok (take (Suc n - length c) (sent r)), r')"
        "sent r' = drop (Suc n - length c) (sent r)" "clean r' = clean r"
      using "4.IH" [OF True] "4.prems" True by (auto simp: le_diff_conv)
    then show ?thesis using True by simp
  next
    case False
    then show ?thesis by simp
  qed
qed auto

lemma exact_segs_short:
  "clean r \<Longrightarrow> length (sent r) < n \<Longrightarrow>
     exact_segs n r = (Err (io_new UnexpectedEof (lit ''early eof'')), [])"
proof (induction n r rule: exact_segs.induct)
  case (4 n c r)
  then have c: "length c \<le> Suc n" "clean r" "length (sent r) < Suc n - length c" by simp_all
  show ?case using "4.IH" [OF c] c(1) by simp
qed simp_all

lemma exact_segs_safe: "fst (exact_segs n r) \<noteq> Panic"
proof (induction n r rule: exact_segs.induct)
  case (4 n c r)
  show ?case
  proof (cases "length c \<le> Suc n")
    case True
    then show ?thesis
      using "4.IH" [OF True]
      by (cases "exact_segs (Suc n - length c) r"; cases "fst (exact_segs (Suc n - length c) r)") simp_all
  qed simp
qed simp_all

lemma exact_segs_Ok:
  "exact_segs n r = (Ok b, r') \<Longrightarrow> sent r = b @ sent r' \<and> length b = n"
proof (induction n r arbitrary: b r' rule: exact_segs.induct)
  case (4 n c r)
  show ?case
  proof (cases "length c \<le> Suc n")
    case True
    obtain res q where e: "exact_segs (Suc n - length c) r = (res, q)" by (cases "exact_segs (Suc n - length c) r")
    show ?thesis
    proof (cases res)
      case (Ok b2)
      then have "sent r = b2 @ sent q" "length b2 = Suc n - length c" using "4.IH" [OF True] e by blast+
      then show ?thesis using "4.prems" True e Ok by (auto split: if_splits)
    qed (use "4.prems" True e in simp_all)
  next
    case False
    then show ?thesis using "4.prems" by auto
  qed
qed simp_all

lemma read_segs_sent:
  "clean r \<Longrightarrow> 0 < n \<Longrightarrow> \<exists>b r'. read_segs n r = (Ok b, r') \<and> sent r = b @ sent r' \<and> clean r' \<and>
     length b \<le> n \<and> (b = [] \<longrightarrow> sent r = [])"
  by (induction n r rule: read_segs.induct) auto

lemma read_segs_safe: "fst (read_segs n r) \<noteq> Panic"
  by (induction n r rule: read_segs.induct) auto

text \<open>How much is still to come, for loops that read until something happens.\<close>

fun weight :: "arrival list \<Rightarrow> nat" where
  "weight [] = 0"
| "weight (Chunk c # r) = Suc (length c) + weight r"
| "weight (ReadFault e # r) = Suc (weight r)"

lemma read_segs_smaller: "read_segs n r = (Ok b, q) \<Longrightarrow> b \<noteq> [] \<Longrightarrow> weight q < weight r"
  by (induction n r rule: read_segs.induct) (auto split: if_splits)

lemma read_exact_sent:
  assumes "sent (rx s) = b @ rest" "length b = n" "clean (rx s)"
  shows "\<exists>q. read_exact n s = (Ok b, s\<lparr>rx := q\<rparr>) \<and> sent q = rest \<and> clean q"
  using exact_segs_sent [of n "rx s"] assms by (auto simp: read_exact_def)

lemma read_exact_short:
  "clean (rx s) \<Longrightarrow> length (sent (rx s)) < n \<Longrightarrow>
     read_exact n s = (Err (Io (lit ''early eof'')), s\<lparr>rx := []\<rparr>)"
  by (simp add: read_exact_def exact_segs_short io_err_def io_new_def)

lemma write_all_ok [simp]: "writes s = [] \<Longrightarrow> write_all bs s = (Ok (), s\<lparr>tx := tx s @ bs\<rparr>)"
  by (simp add: write_all_def)

lemma io_safe [simp]:
  "fst (read n s) \<noteq> Panic" "fst (read_exact n s) \<noteq> Panic" "fst (write_all bs s) \<noteq> Panic"
proof -
  show "fst (read n s) \<noteq> Panic"
    using read_segs_safe [of n "rx s"] by (cases "read_segs n (rx s)") (auto simp: read_def map_err_iff)
  show "fst (read_exact n s) \<noteq> Panic"
    using exact_segs_safe [of n "rx s"] by (cases "exact_segs n (rx s)") (auto simp: read_exact_def map_err_iff)
  show "fst (write_all bs s) \<noteq> Panic"
    by (auto simp: write_all_def split: list.splits option.splits)
qed

text \<open>A computation that never panics.\<close>

definition calm :: "('s, 'a) io \<Rightarrow> bool" where
  "calm m \<longleftrightarrow> (\<forall>s. fst (m s) \<noteq> Panic)"

lemma calmD: "calm m \<Longrightarrow> fst (m s) \<noteq> Panic"
  by (simp add: calm_def)

lemma calm_simps [simp, intro]:
  "calm (ret a)" "calm (fail e)" "calm (read n)" "calm (read_exact n)" "calm (write_all bs)"
  by (simp_all add: calm_def)

lemma calm_seq [intro]: "calm m \<Longrightarrow> (\<And>a. calm (f a)) \<Longrightarrow> calm (seq m f)"
  by (auto simp: calm_def seq_def split: run.splits prod.splits) (metis fst_conv)+

lemma calm_if [intro]: "(c \<Longrightarrow> calm m) \<Longrightarrow> (\<not> c \<Longrightarrow> calm m') \<Longrightarrow> calm (if c then m else m')"
  by simp

lemma calm_attempt [intro]: "calm m \<Longrightarrow> calm (attempt m)"
  by (auto simp: calm_def attempt_def split: run.splits prod.splits) (metis fst_conv)+

text \<open>\<open>takes m inp out a\<close>: on a socket that works, with \<open>inp\<close> at the front of what the peer sends, in
  whatever pieces it comes, \<open>m\<close> consumes exactly that, writes \<open>out\<close> and returns \<open>a\<close>. The rules
  follow the structure of the code.\<close>

definition takes :: "('x sock_scheme, 'a) io \<Rightarrow> bytes \<Rightarrow> bytes \<Rightarrow> 'a \<Rightarrow> bool" where
  "takes m inp out a \<longleftrightarrow> (\<forall>s rest. sent (rx s) = inp @ rest \<longrightarrow> clean (rx s) \<longrightarrow> writes s = [] \<longrightarrow>
     (\<exists>q. m s = (Ok a, s\<lparr>rx := q, tx := tx s @ out\<rparr>) \<and> sent q = rest \<and> clean q))"

lemma takesD:
  "takes m inp out a \<Longrightarrow> sent (rx s) = inp @ rest \<Longrightarrow> clean (rx s) \<Longrightarrow> writes s = [] \<Longrightarrow>
     \<exists>q. m s = (Ok a, s\<lparr>rx := q, tx := tx s @ out\<rparr>) \<and> sent q = rest \<and> clean q"
  by (auto simp: takes_def)

lemma rx_same [simp]: "s\<lparr>rx := rx s\<rparr> = s"
  by (cases s) simp

lemma takes_ret: "takes (ret a) [] [] a"
  by (auto simp: takes_def intro!: exI [of _ "rx s" for s])

lemma takes_exact: "length b = n \<Longrightarrow> takes (read_exact n) b [] b"
  using read_exact_sent by (fastforce simp: takes_def)

lemma takes_write: "takes (write_all bs) [] bs ()"
  by (auto simp: takes_def intro!: exI [of _ "rx s" for s])

lemma takes_seq:
  assumes m: "takes m i ou a" and f: "takes (f a) j pu b"
  shows "takes (seq m f) (i @ j) (ou @ pu) b"
  unfolding takes_def
proof (intro allI impI)
  fix s :: "'a sock_scheme" and rest
  assume s: "sent (rx s) = (i @ j) @ rest" "clean (rx s)" "writes s = []"
  then obtain q where q: "m s = (Ok a, s\<lparr>rx := q, tx := tx s @ ou\<rparr>)" "sent q = j @ rest" "clean q"
    using takesD [OF m, of s "j @ rest"] by auto
  then obtain q' where "f a (s\<lparr>rx := q, tx := tx s @ ou\<rparr>) = (Ok b, s\<lparr>rx := q', tx := (tx s @ ou) @ pu\<rparr>)"
      "sent q' = rest" "clean q'"
    using takesD [OF f, of "s\<lparr>rx := q, tx := tx s @ ou\<rparr>" rest] s(3) by auto
  then show "\<exists>q. seq m f s = (Ok b, s\<lparr>rx := q, tx := tx s @ ou @ pu\<rparr>) \<and> sent q = rest \<and> clean q"
    using q(1) by (intro exI [of _ q']) simp
qed

lemma takes_exact_seq: "length b = n \<Longrightarrow> takes (f b) j ou a \<Longrightarrow> takes (seq (read_exact n) f) (b @ j) ou a"
  using takes_seq [OF takes_exact, of b n f j ou a] by simp

lemma takes_write_seq: "takes (f ()) j ou a \<Longrightarrow> takes (seq (write_all bs) f) j (bs @ ou) a"
  using takes_seq [OF takes_write, of f j ou a bs] by simp

text \<open>The other direction: what a computation that returned has consumed.\<close>

lemma seq_OkE:
  assumes "seq m f s = (Ok b, t)"
  obtains a s' where "m s = (Ok a, s')" "f a s' = (Ok b, t)"
  using assms by (auto simp: seq_cases)

lemma read_exact_OkD: "read_exact n s = (Ok b, s') \<Longrightarrow> sent (rx s) = b @ sent (rx s') \<and> length b = n"
  using exact_segs_Ok [of n "rx s"] by (auto simp: read_exact_def map_err_iff split: prod.splits)

lemma write_all_OkD: "write_all bs s = (Ok u, s') \<Longrightarrow> sent (rx s) = sent (rx s')"
  by (auto simp: write_all_def split: list.splits option.splits)

end
