(* ===== verification/NetText.thy ===== *)
theory NetText
  imports Net
begin

text \<open>
  The textual forms of addresses as \<^verbatim>\<open>std::net\<close> prints them, IPv4-mapped IPv6 addresses, and the
  facts on printing and reading back the other theories use: numbers, IPv4 addresses and strings
  that are valid UTF-8.
\<close>

section \<open>Printing\<close>

definition hex_digit :: "nat \<Rightarrow> u8" where
  "hex_digit d = of_nat (if d < 10 then 48 + d else 87 + d)"

fun show_hex :: "nat \<Rightarrow> str" where
  "show_hex n = (if n < 16 then [hex_digit n] else show_hex (n div 16) @ [hex_digit (n mod 16)])"

declare show_hex.simps [simp del]

fun pairs16 :: "bytes \<Rightarrow> u16 list" where
  "pairs16 (a # b # r) = u16_be a b # pairs16 r"
| "pairs16 r = []"

definition segments :: "u128 \<Rightarrow> u16 list" where
  "segments a = pairs16 (octets16 a)"

definition to_ipv4_mapped :: "u128 \<Rightarrow> u32 option" where
  "to_ipv4_mapped a =
     (if take 12 (octets16 a) = replicate 10 0 @ [0xff, 0xff] then Some (v4_from (drop 12 (octets16 a)))
      else None)"

text \<open>The longest run of zero groups, the first of them if there are several: its start and its
  length.\<close>

fun zero_run :: "nat \<Rightarrow> nat \<times> nat \<Rightarrow> nat \<times> nat \<Rightarrow> u16 list \<Rightarrow> nat \<times> nat" where
  "zero_run i cur longest [] = longest"
| "zero_run i cur longest (g # gs) =
     (if g = 0 then
        (let cur = (if snd cur = 0 then (i, 1) else (fst cur, snd cur + 1))
         in zero_run (Suc i) cur (if snd cur > snd longest then cur else longest) gs)
      else zero_run (Suc i) (0, 0) longest gs)"

definition show_groups :: "u16 list \<Rightarrow> str" where
  "show_groups gs = join 58 (map (\<lambda>g. show_hex (unat g)) gs)"

definition show_ipv6 :: "u128 \<Rightarrow> str" where
  "show_ipv6 a = (case to_ipv4_mapped a of
     Some v4 \<Rightarrow> lit ''::ffff:'' @ show_ipv4 v4
   | None \<Rightarrow> (let gs = segments a; (start, n) = zero_run 0 (0, 0) (0, 0) gs in
      if n > 1 then show_groups (take start gs) @ lit ''::'' @ show_groups (drop (start + n) gs)
      else show_groups gs))"

definition show_ip :: "ip_addr \<Rightarrow> str" where
  "show_ip ip = (case ip of V4 a \<Rightarrow> show_ipv4 a | V6 a \<Rightarrow> show_ipv6 a)"

definition show_socket :: "socket_addr \<Rightarrow> str" where
  "show_socket s = (case s of
     SockV4 a p \<Rightarrow> show_ipv4 a @ [58] @ show_nat (unat p)
   | SockV6 a p _ scope \<Rightarrow> [91] @ show_ipv6 a @ (if scope = 0 then [] else [37] @ show_nat (unat scope)) @
       [93, 58] @ show_nat (unat p))"

section \<open>Lemmas: numbers\<close>

lemma is_digit_digit: "d < 10 \<Longrightarrow> is_digit (of_nat (48 + d))"
  by (simp add: is_digit_def word_le_nat_alt unat_u8_of_nat del: of_nat_add)

lemma digit_val_digit: "d < 10 \<Longrightarrow> digit_val 10 (of_nat (48 + d)) = Some d"
  by (simp add: digit_val_def is_digit_digit unat_u8_of_nat del: of_nat_add)

lemma show_nat_digits: "list_all is_digit (show_nat n)"
  by (induction n rule: show_nat.induct) (subst show_nat.simps, simp add: is_digit_digit del: of_nat_add)

lemma show_nat_nonempty [simp]: "show_nat n \<noteq> []"
  by (subst show_nat.simps) simp

lemma digits_val_append:
  "digits_val radix acc (a @ b) =
     (case digits_val radix acc a of None \<Rightarrow> None | Some v \<Rightarrow> digits_val radix v b)"
  by (induction radix acc a rule: digits_val.induct) (auto split: option.splits)

lemma digits_val_show: "digits_val 10 0 (show_nat n) = Some n"
proof (induction n rule: show_nat.induct)
  case (1 n)
  have d: "digits_val 10 a [of_nat (48 + n mod 10)] = Some (a * 10 + n mod 10)" for a
    using digit_val_digit [of "n mod 10"] by (simp del: of_nat_add)
  show ?case
  proof (cases "n < 10")
    case True
    then show ?thesis using d [of 0] by (simp add: show_nat.simps [of n] del: of_nat_add)
  next
    case False
    then show ?thesis
      using 1 d [of "n div 10"] by (simp add: show_nat.simps [of n] digits_val_append del: of_nat_add digits_val.simps)
  qed
qed

lemma digit_not_plus: "is_digit b \<Longrightarrow> b \<noteq> 43"
  by (auto simp: is_digit_def)

lemma parse_radix_show: "n < 2 ^ bits \<Longrightarrow> parse_radix 10 bits (show_nat n) = Some n"
proof -
  assume n: "n < 2 ^ bits"
  obtain b s where bs: "show_nat n = b # s" using show_nat_nonempty [of n] by (cases "show_nat n") blast+
  then have "is_digit b" using show_nat_digits [of n] by simp
  then show ?thesis
    using n digits_val_show [of n] bs digit_not_plus [of b] by (simp add: parse_radix_def)
qed

lemma parse_u16_show [simp]: "parse_u16 (show_nat (unat p)) = Some p"
  using parse_radix_show [of "unat p" 16] unat_bounds(1) [of p] by (simp add: parse_u16_def)

section \<open>Lemmas: IPv4 addresses\<close>

lemma digit_val_is_digit: "is_digit b \<Longrightarrow> digit_val 10 b = Some (unat b - 48)"
proof -
  assume b: "is_digit b"
  then have "unat b - 48 < 10" by (auto simp: is_digit_def word_le_nat_alt)
  with b show ?thesis by (simp add: digit_val_def Let_def)
qed

text \<open>The digits of \<open>show_nat\<close>, in front of something that is no digit.\<close>

lemma read_digits_append:
  "list_all is_digit s \<Longrightarrow> r = [] \<or> digit_val 10 (hd r) = None \<Longrightarrow>
     read_digits 10 (s @ r) = (map (\<lambda>b. unat b - 48) s, r)"
proof (induction s)
  case Nil
  then show ?case by (cases r) auto
next
  case (Cons b s)
  then show ?case by (simp add: digit_val_is_digit)
qed

lemma digits_val_fold:
  "list_all is_digit s \<Longrightarrow>
     digits_val 10 acc s = Some (foldl (\<lambda>a d. a * 10 + d) acc (map (\<lambda>b. unat b - 48) s))"
proof (induction s arbitrary: acc)
  case (Cons b s)
  then show ?case by (simp add: digit_val_is_digit)
qed simp

lemma digits_to_nat_show: "digits_to_nat 10 (map (\<lambda>b. unat b - 48) (show_nat n)) = n"
  using digits_val_fold [OF show_nat_digits, of 0 n] digits_val_show [of n] by (simp add: digits_to_nat_def)

lemma show_nat_short: "n < 1000 \<Longrightarrow> length (show_nat n) \<le> 3"
  by (simp add: show_nat.simps [of n] show_nat.simps [of "n div 10"] show_nat.simps [of "n div 10 div 10"])

lemma show_nat_hd: "10 \<le> n \<Longrightarrow> hd (show_nat n) \<noteq> 48"
proof (induction n rule: show_nat.induct)
  case (1 n)
  show ?case
  proof (cases "n div 10 < 10")
    case True
    then have "1 \<le> n div 10" "n div 10 < 10" using 1 by auto
    then have "(of_nat (48 + n div 10) :: u8) \<noteq> 48"
      by (metis add_diff_cancel_left' digit_val_digit is_digit_digit less_one not_less one_le_numeral
          option.inject plus_nat.add_0 add.commute add_0 of_nat_numeral zero_less_numeral)
    then show ?thesis using 1 True by (simp add: show_nat.simps [of n] show_nat.simps [of "n div 10"] del: of_nat_add)
  next
    case False
    then show ?thesis using 1 by (simp add: show_nat.simps [of n])
  qed
qed


lemma read_octet_show:
  assumes "n < 256" "r = [] \<or> digit_val 10 (hd r) = None"
  shows "read_octet (show_nat n @ r) = Some (n, r)"
proof -
  have "hd (map (\<lambda>b. unat b - 48) (show_nat n)) \<noteq> 0" if "1 < length (show_nat n)"
  proof -
    have n: "10 \<le> n" using that by (cases "n < 10") (auto simp: show_nat.simps [of n])
    have "is_digit (hd (show_nat n))" using show_nat_digits [of n] by (cases "show_nat n") auto
    then have "48 \<le> unat (hd (show_nat n))" by (simp add: is_digit_def word_le_nat_alt)
    moreover have "unat (hd (show_nat n)) \<noteq> 48" using show_nat_hd [OF n] word_unat_eq_iff [of "hd (show_nat n)" 48] by simp
    ultimately show ?thesis by (simp add: hd_map)
  qed
  then show ?thesis
    using assms show_nat_short [of n]
    by (auto simp: read_octet_def read_number_def read_digits_append [OF show_nat_digits] digits_to_nat_show)
qed

lemma read_char_Cons [simp]: "read_char c (c # r) = Some ((), r)"
  by (simp add: read_char_def)

lemma digit_val_dot: "digit_val 10 46 = None" "digit_val 10 58 = None"
  by (simp_all add: digit_val_def is_digit_def)

lemma v4_octets: "ipv4 (octets4 a ! 0) (octets4 a ! 1) (octets4 a ! 2) (octets4 a ! 3) = a"
proof -
  have e: "(4 :: nat) = Suc (Suc (Suc (Suc 0)))" by simp
  have "[octets4 a ! 0, octets4 a ! 1, octets4 a ! 2, octets4 a ! 3] = octets4 a"
    unfolding octets4_def be32_def e by simp
  then show ?thesis by (simp add: ipv4_def octets4_def from_be_be)
qed

lemma read_ipv4_show:
  assumes "r = [] \<or> digit_val 10 (hd r) = None"
  shows "read_ipv4_addr (show_ipv4 a @ r) = Some (a, r)"
  using assms v4_octets [of a]
  by (simp add: read_ipv4_addr_def show_ipv4_def Let_def read_octet_show digit_val_dot read_separator_def)

lemma parse_ip_show_ipv4: "parse_ip (show_ipv4 a) = Some (V4 a)"
  using read_ipv4_show [of "[]" a] by (simp add: parse_ip_def parse_whole_def read_ip_addr_def)

section \<open>Lemmas: UTF-8\<close>

lemma utf8_lossy_valid: "utf8_valid bs \<Longrightarrow> utf8_lossy bs = bs"
proof (induction bs rule: utf8_lossy.induct)
  case (1 bs)
  show ?case
  proof (cases "bs = []")
    case False
    obtain n ok where st: "utf8_step bs = (n, ok)" by fastforce
    then have "ok" "utf8_valid (drop n bs)"
      using "1.prems" False by (auto simp: utf8_valid.simps [of bs] split: if_splits)
    then show ?thesis using "1.IH" [OF False st [symmetric]] st False by (simp add: utf8_lossy.simps [of bs])
  qed (simp add: utf8_lossy.simps)
qed

lemma utf8_valid_ascii: "is_ascii bs \<Longrightarrow> utf8_valid bs"
proof (induction bs)
  case (Cons b bs)
  then show ?case by (simp add: utf8_valid.simps [of "b # bs"] utf8_step_def is_ascii_def)
qed (simp add: utf8_valid.simps)

lemma utf8_lossy_ascii: "is_ascii bs \<Longrightarrow> utf8_lossy bs = bs"
  by (simp add: utf8_lossy_valid utf8_valid_ascii)

lemma utf8_lossy_append: "is_ascii a \<Longrightarrow> utf8_lossy (a @ b) = a @ utf8_lossy b"
proof (induction a)
  case (Cons x a)
  then show ?case by (simp add: utf8_lossy.simps [of "x # a @ b"] utf8_step_def is_ascii_def)
qed simp

text \<open>Replacing what is no character leaves a string as it is exactly when there is nothing to replace:
  the replacement is a character itself.\<close>

lemma utf8_lossy_id: "utf8_lossy bs = bs \<longleftrightarrow> utf8_valid bs"
proof (induction bs rule: utf8_lossy.induct)
  case (1 bs)
  show ?case
  proof (cases "bs = []")
    case False
    obtain n ok where st: "utf8_step bs = (n, ok)" by fastforce
    have lossy: "utf8_lossy bs = (if ok then take n bs else [0xEF, 0xBF, 0xBD]) @ utf8_lossy (drop n bs)"
      using st False by (simp add: utf8_lossy.simps [of bs])
    show ?thesis
    proof (cases ok)
      case True
      have "utf8_lossy bs = bs \<longleftrightarrow> take n bs @ utf8_lossy (drop n bs) = take n bs @ drop n bs"
        unfolding lossy using True by simp
      also have "\<dots> \<longleftrightarrow> utf8_lossy (drop n bs) = drop n bs" by (simp only: same_append_eq)
      finally have "utf8_lossy bs = bs \<longleftrightarrow> utf8_lossy (drop n bs) = drop n bs" .
      then show ?thesis using "1.IH" [OF False st [symmetric]] st False True by (simp add: utf8_valid.simps [of bs])
    next
      case invalid: False
      have "utf8_lossy bs \<noteq> bs"
      proof
        assume "utf8_lossy bs = bs"
        then obtain r where "bs = 0xEF # 0xBF # 0xBD # r" using lossy invalid by (auto simp: eq_commute [of _ bs])
        then have "utf8_step bs = (3, True)" by (simp add: utf8_step_def second3_def cont_def)
        then show False using st invalid by simp
      qed
      then show ?thesis using st False invalid by (simp add: utf8_valid.simps [of bs])
    qed
  qed (simp add: utf8_lossy.simps utf8_valid.simps)
qed

lemma digit_ascii: "is_digit b \<Longrightarrow> b < 128"
  by (auto simp: is_digit_def word_le_nat_alt word_less_nat_alt)

lemma show_nat_ascii: "is_ascii (show_nat n)"
  using show_nat_digits [of n] digit_ascii by (auto simp: is_ascii_def list_all_iff)

lemma show_ipv4_ascii: "is_ascii (show_ipv4 a)"
  using show_nat_ascii by (simp add: show_ipv4_def is_ascii_def Let_def)

end
