(* ===== verification/Routing.thy ===== *)
theory Routing
  imports Net
begin

text \<open>
  The routing rules (\<^verbatim>\<open>aether/src/routing.rs\<close>): how a rule list is read and what it decides for a
  host and a port. Regular expressions, IP networks and the Unicode case tables come from other
  crates; they are the record \<open>deps\<close>.
\<close>

section \<open>Data\<close>

datatype action = Proxy | Direct | Block

definition label :: "action \<Rightarrow> str" where
  "label a = (case a of Proxy \<Rightarrow> lit ''proxy'' | Direct \<Rightarrow> lit ''direct'' | Block \<Rightarrow> lit ''block'')"

datatype host = Domain str | Ip ip_addr

record ('re, 'net) deps =
  unicode_lower :: "str \<Rightarrow> str"
  regex_new :: "str \<Rightarrow> 're option"
  regex_is_match :: "'re \<Rightarrow> str \<Rightarrow> bool"
  net_parse :: "str \<Rightarrow> 'net option"
  net_from :: "ip_addr \<Rightarrow> 'net"
  net_contains :: "'net \<Rightarrow> ip_addr \<Rightarrow> bool"

datatype ('re, 'net) matcher =
    DomainSuffix str
  | DomainFull str
  | DomainKeyword str
  | DomainRegex 're
  | Net 'net
  | Ports u16 u16
  | Private

section \<open>Reading rules\<close>

definition normalize_domain :: "('re, 'net) deps \<Rightarrow> str \<Rightarrow> str option" where
  "normalize_domain d v =
     (let cleaned = to_lowercase (unicode_lower d)
            (trim_end_matches 46 (trim_start_matches 46 (trim_start_matches 42 (trim v))))
      in if cleaned = [] then None else Some cleaned)"

definition parse_net :: "('re, 'net) deps \<Rightarrow> str \<Rightarrow> 'net option" where
  "parse_net d v =
     (let v = trim v in
      case net_parse d v of
        Some net \<Rightarrow> Some net
      | None \<Rightarrow> map_option (net_from d) (parse_ip v))"

definition parse_ports :: "str \<Rightarrow> (u16 \<times> u16) option" where
  "parse_ports v =
     (let v = trim v in
      case split_once 45 v of
        Some (lo, hi) \<Rightarrow>
          (case parse_u16 (trim lo) of None \<Rightarrow> None | Some lo \<Rightarrow>
          (case parse_u16 (trim hi) of None \<Rightarrow> None | Some hi \<Rightarrow>
           Some (if hi < lo then (hi, lo) else (lo, hi))))
      | None \<Rightarrow> map_option (\<lambda>single. (single, single)) (parse_u16 v))"

definition kind_and_value :: "('re, 'net) deps \<Rightarrow> str \<Rightarrow> str \<times> str" where
  "kind_and_value d entry = (case split_once 58 entry of
     Some (kind, v) \<Rightarrow>
       if \<not> contains kind [46] \<and> \<not> contains kind [47]
       then (to_lowercase (unicode_lower d) (trim kind), trim v) else ([], entry)
   | None \<Rightarrow> ([], entry))"

definition matcher_parse :: "('re, 'net) deps \<Rightarrow> str \<Rightarrow> ('re, 'net) matcher option" where
  "matcher_parse d entry =
     (let entry = trim entry in
      if entry = [] \<or> starts_with entry [35] then None
      else
        let (kind, v) = kind_and_value d entry in
        if kind = lit ''domain'' \<or> kind = lit ''suffix'' then map_option DomainSuffix (normalize_domain d v)
        else if kind = lit ''full'' \<or> kind = lit ''exact'' then map_option DomainFull (normalize_domain d v)
        else if kind = lit ''keyword'' then
          (let needle = to_lowercase (unicode_lower d) (trim v)
           in if needle = [] then None else Some (DomainKeyword needle))
        else if kind = lit ''regexp'' \<or> kind = lit ''regex'' then map_option DomainRegex (regex_new d v)
        else if kind = lit ''ip'' \<or> kind = lit ''cidr'' then map_option Net (parse_net d v)
        else if kind = lit ''port'' then map_option (\<lambda>(lo, hi). Ports lo hi) (parse_ports v)
        else if kind = lit ''geoip'' \<or> kind = lit ''geosite'' then
          (if eq_ignore_ascii_case v (lit ''private'') then Some Private else None)
        else if kind = [] then
          (if eq_ignore_ascii_case v (lit ''private'') then Some Private
           else case parse_net d v of
             Some net \<Rightarrow> Some (Net net)
           | None \<Rightarrow> map_option DomainSuffix (normalize_domain d v))
        else None)"

definition parse_list :: "('re, 'net) deps \<Rightarrow> str \<Rightarrow> ('re, 'net) matcher list" where
  "parse_list d raw = List.map_filter (matcher_parse d) (split_by (\<lambda>b. b \<in> {10, 44, 59}) raw)"

definition push_list :: "str \<Rightarrow> str \<Rightarrow> str" where
  "push_list target extra =
     (if trim extra = [] then target
      else (if trim target \<noteq> [] then target @ [10] else target) @ extra)"

text \<open>The section a line of the rules file falls into, and the two lists collected so far.\<close>

datatype route_section = InBlock | InDirect | Outside

fun split_lines :: "('re, 'net) deps \<Rightarrow> route_section \<Rightarrow> str list \<Rightarrow> str \<times> str \<Rightarrow> str \<times> str" where
  "split_lines d current [] acc = acc"
| "split_lines d current (line # ls) (block, direct) =
     (let trimmed = trim line in
      if trimmed = [] \<or> starts_with trimmed [35] then split_lines d current ls (block, direct)
      else
        let lowered = to_lowercase (unicode_lower d) trimmed in
        if lowered = lit ''[block]'' then split_lines d InBlock ls (block, direct)
        else if lowered = lit ''[direct]'' then split_lines d InDirect ls (block, direct)
        else if starts_with lowered [91] then split_lines d Outside ls (block, direct)
        else (case current of
          InBlock \<Rightarrow> split_lines d current ls (block @ trimmed @ [10], direct)
        | InDirect \<Rightarrow> split_lines d current ls (block, direct @ trimmed @ [10])
        | Outside \<Rightarrow> split_lines d current ls (block, direct)))"

definition split_sections :: "('re, 'net) deps \<Rightarrow> str \<Rightarrow> str \<times> str" where
  "split_sections d text = split_lines d Outside (lines text) ([], [])"

section \<open>Deciding\<close>

definition v4_is_documentation :: "u32 \<Rightarrow> bool" where
  "v4_is_documentation a \<longleftrightarrow>
     take 3 (octets4 a) \<in> {[192, 0, 2], [198, 51, 100], [203, 0, 113]}"

definition segment0 :: "u128 \<Rightarrow> u16" where
  "segment0 a = u16_be (octets16 a ! 0) (octets16 a ! 1)"

definition is_private :: "ip_addr \<Rightarrow> bool" where
  "is_private ip = (case ip of
     V4 v4 \<Rightarrow> v4_is_private v4 \<or> v4_is_loopback v4 \<or> v4_is_link_local v4 \<or> v4_is_broadcast v4 \<or>
       v4_is_documentation v4 \<or> v4_is_unspecified v4 \<or>
       (octets4 v4 ! 0 = 100 \<and> 64 \<le> octets4 v4 ! 1 \<and> octets4 v4 ! 1 < 128)
   | V6 v6 \<Rightarrow> v6_is_loopback v6 \<or> v6_is_unspecified v6 \<or>
       segment0 v6 AND 0xfe00 = 0xfc00 \<or> segment0 v6 AND 0xffc0 = 0xfe80)"

definition matches :: "('re, 'net) deps \<Rightarrow> ('re, 'net) matcher \<Rightarrow> host \<Rightarrow> u16 \<Rightarrow> bool" where
  "matches d m host port = (case m of
     Ports lo hi \<Rightarrow> port \<ge> lo \<and> port \<le> hi
   | Private \<Rightarrow> (case host of
       Ip ip \<Rightarrow> is_private ip | Domain name \<Rightarrow> eq_ignore_ascii_case name (lit ''localhost''))
   | Net net \<Rightarrow> (case host of Ip ip \<Rightarrow> net_contains d net ip | Domain _ \<Rightarrow> False)
   | DomainSuffix sfx \<Rightarrow> (case host of
       Domain name \<Rightarrow> (let name = to_lowercase (unicode_lower d) name
                       in name = sfx \<or> ends_with name (46 # sfx))
     | Ip _ \<Rightarrow> False)
   | DomainFull full \<Rightarrow> (case host of Domain name \<Rightarrow> eq_ignore_ascii_case name full | Ip _ \<Rightarrow> False)
   | DomainKeyword needle \<Rightarrow> (case host of
       Domain name \<Rightarrow> contains (to_lowercase (unicode_lower d) name) needle | Ip _ \<Rightarrow> False)
   | DomainRegex pattern \<Rightarrow> (case host of
       Domain name \<Rightarrow> regex_is_match d pattern name | Ip _ \<Rightarrow> False))"

record ('re, 'net) rule_set =
  block_rules :: "('re, 'net) matcher list"
  direct_rules :: "('re, 'net) matcher list"

definition rules_parse :: "('re, 'net) deps \<Rightarrow> str \<Rightarrow> str \<Rightarrow> ('re, 'net) rule_set" where
  "rules_parse d block direct = \<lparr>block_rules = parse_list d block, direct_rules = parse_list d direct\<rparr>"

text \<open>\<open>file\<close> is the text of the rules file, if one is named and can be read.\<close>

definition rules_from_env ::
    "('re, 'net) deps \<Rightarrow> (string \<Rightarrow> str option) \<Rightarrow> (str \<Rightarrow> str option) \<Rightarrow> ('re, 'net) rule_set" where
  "rules_from_env d env read_file =
     (let block = (case env ''AETHER_ROUTE_BLOCK'' of Some v \<Rightarrow> v | None \<Rightarrow> []);
          direct = (case env ''AETHER_ROUTE_DIRECT'' of Some v \<Rightarrow> v | None \<Rightarrow> []);
          (block, direct) = (case env ''AETHER_ROUTES_FILE'' of
            None \<Rightarrow> (block, direct)
          | Some path \<Rightarrow> (case read_file path of
              None \<Rightarrow> (block, direct)
            | Some text \<Rightarrow>
              (let (fb, fd) = split_sections d text in (push_list block fb, push_list direct fd))))
      in rules_parse d block direct)"

definition rules_is_empty :: "('re, 'net) rule_set \<Rightarrow> bool" where
  "rules_is_empty rs \<longleftrightarrow> block_rules rs = [] \<and> direct_rules rs = []"

definition is_domain_rule :: "('re, 'net) matcher \<Rightarrow> bool" where
  "is_domain_rule m = (case m of
     DomainSuffix _ \<Rightarrow> True | DomainFull _ \<Rightarrow> True | DomainKeyword _ \<Rightarrow> True | DomainRegex _ \<Rightarrow> True
   | _ \<Rightarrow> False)"

definition has_domain_rules :: "('re, 'net) rule_set \<Rightarrow> bool" where
  "has_domain_rules rs \<longleftrightarrow> list_ex is_domain_rule (block_rules rs @ direct_rules rs)"

definition decide :: "('re, 'net) deps \<Rightarrow> ('re, 'net) rule_set \<Rightarrow> host \<Rightarrow> u16 \<Rightarrow> action" where
  "decide d rs host port =
     (if list_ex (\<lambda>rule. matches d rule host port) (block_rules rs) then Block
      else if list_ex (\<lambda>rule. matches d rule host port) (direct_rules rs) then Direct
      else Proxy)"

section \<open>Lemmas: plain rules\<close>

text \<open>A rule that is a bare host name as users write them: letters in lower case, digits, hyphens,
  underscores and dots, with no dot at its ends, and neither an address nor the word
  \<^verbatim>\<open>private\<close>.\<close>

definition name_byte :: "u8 \<Rightarrow> bool" where
  "name_byte b \<longleftrightarrow> is_lower b \<or> is_digit b \<or> b = 45 \<or> b = 46 \<or> b = 95"

definition plain_rule :: "('re, 'net) deps \<Rightarrow> str \<Rightarrow> bool" where
  "plain_rule d h \<longleftrightarrow> h \<noteq> [] \<and> list_all name_byte h \<and> hd h \<noteq> 46 \<and> last h \<noteq> 46 \<and>
     h \<noteq> lit ''private'' \<and> parse_net d h = None"

lemma name_byte_facts:
  assumes "name_byte b"
  shows "visible b" "b \<noteq> 58" "b \<noteq> 35" "b \<noteq> 42" "b \<noteq> 10" "b \<noteq> 44" "b \<noteq> 59" "b < 128" "lower b = b"
  using assms
  by (auto simp: name_byte_def visible_def is_lower_def is_digit_def ascii_ws_def lower_def is_upper_def
      word_le_nat_alt word_less_nat_alt)

lemma lower_name: "list_all name_byte h \<Longrightarrow> map lower h = h"
  by (induction h) (auto simp: name_byte_facts)

lemma split_once_None: "c \<notin> set s \<Longrightarrow> split_once c s = None"
  by (induction s) auto

lemma dropWhile_hd: "s \<noteq> [] \<Longrightarrow> \<not> p (hd s) \<Longrightarrow> dropWhile p s = s"
  by (cases s) auto

lemma normalize_plain:
  assumes "plain_rule d h"
  shows "normalize_domain d h = Some h"
proof -
  have h: "h \<noteq> []" "list_all name_byte h" "hd h \<noteq> 46" "last h \<noteq> 46"
    using assms by (auto simp: plain_rule_def)
  then have e: "name_byte (hd h)" "name_byte (last h)" by (auto simp: list_all_iff)
  have t: "trim h = h" using h e name_byte_facts(1) by (simp add: trim_visible)
  have s: "trim_start_matches 46 (trim_start_matches 42 h) = h"
    using h e name_byte_facts(4) [of "hd h"] by (simp add: trim_start_matches_def dropWhile_hd)
  have r: "trim_end_matches 46 h = h"
    using h by (simp add: trim_end_matches_def dropWhile_hd hd_rev)
  have "is_ascii h" using h(2) name_byte_facts(8) by (auto simp: is_ascii_def list_all_iff)
  then show ?thesis
    using h by (simp add: normalize_domain_def t s r to_lowercase_def lower_name)
qed

lemma parse_plain:
  assumes "plain_rule d h"
  shows "matcher_parse d h = Some (DomainSuffix h)"
proof -
  have h: "h \<noteq> []" "list_all name_byte h" "h \<noteq> lit ''private''" "parse_net d h = None"
    using assms by (auto simp: plain_rule_def)
  then have e: "name_byte (hd h)" "name_byte (last h)" by (auto simp: list_all_iff)
  have t: "trim h = h" using h e name_byte_facts(1) by (simp add: trim_visible)
  have "58 \<notin> set h" using h(2) name_byte_facts(2) by (auto simp: list_all_iff)
  then have k: "kind_and_value d h = ([], h)" by (simp add: kind_and_value_def split_once_None)
  have c: "\<not> starts_with h [35]"
    using h(1) e name_byte_facts(3) [of "hd h"] by (cases h) (auto simp: starts_with_def)
  have "map lower (lit ''private'') = lit ''private''" by (simp add: lit_def lower_def is_upper_def)
  then have "\<not> eq_ignore_ascii_case h (lit ''private'')"
    using h by (simp add: eq_ignore_ascii_case_def lower_name)
  then show ?thesis
    using h normalize_plain [OF assms] by (simp add: matcher_parse_def t k c lit_def)
qed

definition sep :: "u8 \<Rightarrow> bool" where
  "sep b \<longleftrightarrow> b \<in> {10, 44, 59}"

text \<open>The text of a rule list: each rule followed by one of the separators.\<close>

definition rules_text :: "(str \<times> u8) list \<Rightarrow> str" where
  "rules_text rs = concat (map (\<lambda>(h, c). h @ [c]) rs)"

lemma matcher_parse_Nil [simp]: "matcher_parse d [] = None"
  by (simp add: matcher_parse_def trim_def trim_start_def trim_end_def strip.simps)

lemma parse_rules_text:
  assumes "list_all (\<lambda>(h, c). plain_rule d h \<and> sep c) rs"
  shows "parse_list d (rules_text rs) = map (\<lambda>(h, c). DomainSuffix h) rs"
  using assms
proof (induction rs)
  case Nil
  then show ?case by (simp add: parse_list_def rules_text_def List.map_filter_def)
next
  case (Cons r rs)
  obtain h c where r: "r = (h, c)" by (cases r)
  have h: "plain_rule d h" "sep c" using Cons.prems by (auto simp: r)
  then have "\<not> list_ex (\<lambda>b. b \<in> {10, 44, 59}) h"
    by (auto simp: plain_rule_def list_all_iff list_ex_iff dest: name_byte_facts)
  then have s: "split_by (\<lambda>b. b \<in> {10, 44, 59}) (h @ c # rules_text rs) =
      h # split_by (\<lambda>b. b \<in> {10, 44, 59}) (rules_text rs)"
    using h(2) split_by_append [of "\<lambda>b. b \<in> {10, 44, 59}" c h] split_by_none [of "\<lambda>b. b \<in> {10, 44, 59}" h]
    by (simp add: sep_def)
  have "rules_text (r # rs) = h @ c # rules_text rs" by (simp add: rules_text_def r)
  then show ?case
    using Cons s by (simp add: parse_list_def List.map_filter_def parse_plain [OF h(1)] r)
qed

section \<open>Properties\<close>

text \<open>C24. A rule list of host names means what it says. Written with newlines, commas or semicolons,
  it blocks a name exactly when the name's labels end with the labels of a listed host: the host
  itself and its subdomains, never a name that merely ends with the same letters. What is not
  blocked and listed as direct the same way goes direct, the rest through the proxy; the block
  list wins.\<close>

theorem host_rules_decide:
  assumes "list_all (\<lambda>(h, c). plain_rule d h \<and> sep c) bs" "list_all (\<lambda>(h, c). plain_rule d h \<and> sep c) ds"
  shows "decide d (rules_parse d (rules_text bs) (rules_text ds)) (Domain name) port =
    (if \<exists>(h, c) \<in> set bs. suffix (split_on 46 h) (split_on 46 (to_lowercase (unicode_lower d) name)) then Block
     else if \<exists>(h, c) \<in> set ds. suffix (split_on 46 h) (split_on 46 (to_lowercase (unicode_lower d) name)) then Direct
     else Proxy)"
proof -
  have m: "matches d (DomainSuffix h) (Domain name) port \<longleftrightarrow>
      suffix (split_on 46 h) (split_on 46 (to_lowercase (unicode_lower d) name))" for h
    by (simp add: matches_def Let_def labels_suffix)
  show ?thesis
    using parse_rules_text [OF assms(1)] parse_rules_text [OF assms(2)]
    by (auto simp: decide_def rules_parse_def m list_ex_iff split_beta)
qed

text \<open>Dependencies for the examples: no regular expressions, single addresses as networks.\<close>

definition demo_deps :: "(unit, ip_addr) deps" where
  "demo_deps = \<lparr>unicode_lower = id, regex_new = (\<lambda>_. None), regex_is_match = (\<lambda>_ _. False),
     net_parse = (\<lambda>_. None), net_from = id, net_contains = (=)\<rparr>"

lemma plain_demo: "plain_rule demo_deps (lit ''x.net'')"
proof -
  have "parse_net demo_deps (lit ''x.net'') = None"
    by (simp add: parse_net_def demo_deps_def lit_def trim_visible visible_def ascii_ws_def parse_ip_None
        digit_val_def is_digit_def)
  then show ?thesis
    by (simp add: plain_rule_def lit_def name_byte_def is_lower_def is_digit_def)
qed

theorem host_rules_decide_witness:
  "decide demo_deps (rules_parse demo_deps (rules_text [(lit ''x.net'', 44)]) (rules_text [])) (Domain (lit ''A.x.net'')) 443 = Block
   \<and> decide demo_deps (rules_parse demo_deps (rules_text [(lit ''x.net'', 44)]) (rules_text [])) (Domain (lit ''ax.net'')) 443 = Proxy"
  using host_rules_decide [of demo_deps "[(lit ''x.net'', 44)]" "[]" "lit ''A.x.net''" 443]
    host_rules_decide [of demo_deps "[(lit ''x.net'', 44)]" "[]" "lit ''ax.net''" 443] plain_demo
  by (simp add: sep_def to_lowercase_def is_ascii_def lit_def lower_def is_upper_def suffix_def
      demo_deps_def Cons_eq_append_conv)

text \<open>An IPv6 address or network can be listed only with its kind in front. A bare one is read as
  a rule of the unknown kind that stands before its first colon and dropped without a word, while
  the same text after \<^verbatim>\<open>ip:\<close> is the network; so is a bare IPv4 entry.\<close>

theorem bare_ipv6_rule_is_dropped:
  "matcher_parse d (lit ''2606:4700::/32'') = None \<and>
   matcher_parse d (lit ''ip:2606:4700::/32'') = map_option Net (parse_net d (lit ''2606:4700::/32''))"
  by (simp add: matcher_parse_def kind_and_value_def lit_def trim_visible visible_def ascii_ws_def
      starts_with_def contains_def to_lowercase_def is_ascii_def lower_def is_upper_def)

text \<open>A trailing dot, with which a client may write any host name, takes the name out of the
  reach of every host rule that has no trailing dot itself, as no rule has once it is read: a
  blocked name with a dot behind it is not blocked.\<close>

theorem trailing_dot_escapes_host_rules:
  assumes "list_all (\<lambda>(h, c). plain_rule d h \<and> sep c) bs" "is_ascii name"
  shows "decide d (rules_parse d (rules_text bs) []) (Domain (name @ [46])) port = Proxy"
proof -
  have dot: "\<not> suffix (split_on 46 h) (split_on 46 (to_lowercase (unicode_lower d) (name @ [46])))"
    if "plain_rule d h" for h
  proof
    assume "suffix (split_on 46 h) (split_on 46 (to_lowercase (unicode_lower d) (name @ [46])))"
    moreover have "to_lowercase (unicode_lower d) (name @ [46]) = map lower name @ [46]"
      using assms(2) by (simp add: to_lowercase_def is_ascii_def lower_def is_upper_def)
    ultimately have "map lower name @ [46] = h \<or> ends_with (map lower name @ [46]) (46 # h)"
      by (simp only: labels_suffix)
    moreover have "h \<noteq> []" "last h \<noteq> 46" using that by (auto simp: plain_rule_def)
    ultimately show False
      by (auto simp: ends_with_def dest!: arg_cong [of _ _ last])
  qed
  have "matches d (DomainSuffix h) (Domain (name @ [46])) port = False" if "plain_rule d h" for h
    using dot [OF that] by (simp add: matches_def Let_def labels_suffix)
  moreover have "parse_list d [] = []" by (simp add: parse_list_def List.map_filter_def)
  ultimately show ?thesis
    using parse_rules_text [OF assms(1)] assms(1)
    by (auto simp: decide_def rules_parse_def list_ex_iff list_all_iff split_beta)
qed

theorem trailing_dot_escapes_host_rules_witness:
  "decide demo_deps (rules_parse demo_deps (rules_text [(lit ''x.net'', 44)]) [])
     (Domain (lit ''x.net'' @ [46])) 443 = Proxy"
  by (rule trailing_dot_escapes_host_rules)
    (use plain_demo in \<open>simp_all add: sep_def is_ascii_def lit_def\<close>)

end
