(* ===== verification/Socks.thy ===== *)
theory Socks
  imports Sock NetText Routing
begin

text \<open>
  The SOCKS5 server's wire format (\<^verbatim>\<open>aether/src/socks.rs\<close>): the greeting and the request a client
  sends, the replies, the header of relayed datagrams, and the listener that takes the clients.
\<close>

section \<open>The protocol\<close>

definition VER :: u8 where "VER = 5"
definition CMD_CONNECT :: u8 where "CMD_CONNECT = 1"
definition CMD_UDP_ASSOCIATE :: u8 where "CMD_UDP_ASSOCIATE = 3"
definition ATYP_V4 :: u8 where "ATYP_V4 = 1"
definition ATYP_DOMAIN :: u8 where "ATYP_DOMAIN = 3"
definition ATYP_V6 :: u8 where "ATYP_V6 = 4"
definition REP_OK :: u8 where "REP_OK = 0"
definition REP_GENERAL :: u8 where "REP_GENERAL = 1"
definition REP_NOT_ALLOWED :: u8 where "REP_NOT_ALLOWED = 2"
definition REP_NOT_SUPPORTED :: u8 where "REP_NOT_SUPPORTED = 7"

datatype target = TIp ip_addr | TDomain str

definition show_target :: "target \<Rightarrow> str" where
  "show_target t = (case t of TIp ip \<Rightarrow> show_ip ip | TDomain name \<Rightarrow> name)"

definition host_of :: "target \<Rightarrow> host" where
  "host_of t = (case t of TDomain name \<Rightarrow> Domain name | TIp ip \<Rightarrow> Ip ip)"

section \<open>Reading a request\<close>

definition handshake :: "('x sock_scheme, unit) io" where
  "handshake =
     seq (read_exact 2) (\<lambda>prefix.
     if prefix ! 0 \<noteq> VER then fail (Other (lit ''bad greeting version''))
     else
     seq (read_exact (unat (prefix ! 1))) (\<lambda>methods.
     seq (write_all [VER, 0]) (\<lambda>_.
     ret ())))"

definition read_target :: "u8 \<Rightarrow> ('x sock_scheme, target \<times> u16) io" where
  "read_target atyp =
     seq (if atyp = ATYP_V4 then seq (read_exact 4) (\<lambda>b. ret (TIp (V4 (v4_from b))))
          else if atyp = ATYP_V6 then seq (read_exact 16) (\<lambda>b. ret (TIp (V6 (v6_from b))))
          else if atyp = ATYP_DOMAIN then
            seq (read_exact 1) (\<lambda>len.
            seq (read_exact (unat (len ! 0))) (\<lambda>name.
            ret (TDomain (utf8_lossy name))))
          else fail (Other (lit ''bad atyp''))) (\<lambda>target.
     seq (read_exact 2) (\<lambda>port.
     ret (target, u16_be (port ! 0) (port ! 1))))"

definition read_request :: "('x sock_scheme, u8 \<times> target \<times> u16) io" where
  "read_request =
     seq handshake (\<lambda>_.
     seq (read_exact 4) (\<lambda>head.
     if head ! 0 \<noteq> VER then fail (Other (lit ''bad socks version''))
     else
     seq (read_target (head ! 3)) (\<lambda>(target, port).
     ret (head ! 1, target, port))))"

section \<open>Replies\<close>

definition reply :: "u8 \<Rightarrow> ('x sock_scheme, unit) io" where
  "reply code = write_all [VER, code, 0, ATYP_V4, 0, 0, 0, 0, 0, 0]"

definition reply_bound :: "socket_addr \<Rightarrow> ('x sock_scheme, unit) io" where
  "reply_bound bound = write_all ([VER, REP_OK, 0] @
     (case sock_ip bound of V4 v4 \<Rightarrow> ATYP_V4 # octets4 v4 | V6 v6 \<Rightarrow> ATYP_V6 # octets16 v6) @
     be16 (sock_port bound))"

text \<open>\<^verbatim>\<open>"0.0.0.0:0".parse().unwrap()\<close>\<close>

definition any_bound :: socket_addr where
  "any_bound = SockV4 0 0"

section \<open>Relayed datagrams\<close>

definition parse_udp_request :: "bytes \<Rightarrow> (target \<times> u16 \<times> bytes) opt" where
  "parse_udp_request buf =
     (if length buf < 4 \<or> buf ! 2 \<noteq> 0 then Err ()
      else
        bnd (ix buf 3) (\<lambda>atyp.
        bnd (if atyp = ATYP_V4 then
               (if length buf < 4 + 4 then Err ()
                else bnd (ix buf 4) (\<lambda>a. bnd (ix buf 5) (\<lambda>b. bnd (ix buf 6) (\<lambda>c. bnd (ix buf 7) (\<lambda>d.
                     Ok (TIp (V4 (ipv4 a b c d)), 4 + 4))))))
             else if atyp = ATYP_V6 then
               (if length buf < 4 + 16 then Err ()
                else bnd (sl buf 4 (4 + 16)) (\<lambda>b. Ok (TIp (V6 (v6_from b)), 4 + 16)))
             else if atyp = ATYP_DOMAIN then
               bnd (ok_or () (get buf 4)) (\<lambda>len.
               if length buf < 4 + 1 + unat len then Err ()
               else bnd (sl buf (4 + 1) (4 + 1 + unat len)) (\<lambda>name.
                    Ok (TDomain (utf8_lossy name), 4 + 1 + unat len)))
             else Err ()) (\<lambda>(target, pos).
        if length buf < pos + 2 then Err ()
        else bnd (ix buf pos) (\<lambda>p0. bnd (ix buf (pos + 1)) (\<lambda>p1.
             bnd (sl buf (pos + 2) (length buf)) (\<lambda>payload.
             Ok (target, u16_be p0 p1, payload)))))))"

definition build_udp_reply :: "socket_addr \<Rightarrow> bytes \<Rightarrow> bytes" where
  "build_udp_reply src data = [0, 0, 0] @
     (case sock_ip src of V4 v4 \<Rightarrow> ATYP_V4 # octets4 v4 | V6 v6 \<Rightarrow> ATYP_V6 # octets16 v6) @
     be16 (sock_port src) @ data"

section \<open>Lemmas: what a client sends\<close>

text \<open>The messages of RFC 1928 a client sends: the greeting with the methods it offers, and a
  request or datagram header with a destination. A name on the wire is any bytes; the server reads
  it as text, with replacement characters for what is not UTF-8.\<close>

definition greeting_bytes :: "bytes \<Rightarrow> bytes" where
  "greeting_bytes methods = [VER, of_nat (length methods)] @ methods"

fun target_bytes :: "target \<Rightarrow> bytes" where
  "target_bytes (TIp (V4 a)) = ATYP_V4 # octets4 a"
| "target_bytes (TIp (V6 a)) = ATYP_V6 # octets16 a"
| "target_bytes (TDomain name) = ATYP_DOMAIN # of_nat (length name) # name"

fun target_fits :: "target \<Rightarrow> bool" where
  "target_fits (TIp ip) = True"
| "target_fits (TDomain name) = (length name < 256)"

fun as_read :: "target \<Rightarrow> target" where
  "as_read (TIp ip) = TIp ip"
| "as_read (TDomain name) = TDomain (utf8_lossy name)"

definition request_bytes :: "u8 \<Rightarrow> u8 \<Rightarrow> target \<Rightarrow> u16 \<Rightarrow> bytes" where
  "request_bytes cmd rsv t port = [VER, cmd, rsv] @ target_bytes t @ be16 port"

lemmas atyp_defs = ATYP_V4_def ATYP_V6_def ATYP_DOMAIN_def

lemma v4_from_octets [simp]: "v4_from (octets4 a) = a"
  by (simp add: v4_from_def octets4_def from_be_be)

lemma v6_from_octets [simp]: "v6_from (octets16 a) = a"
  by (simp add: v6_from_def octets16_def from_be_be)

lemma length_octets [simp]: "length (octets4 a) = 4" "length (octets16 b) = 16"
  by (simp_all add: octets4_def octets16_def)

lemma octets4_v4_from: "length b = 4 \<Longrightarrow> octets4 (v4_from b) = b"
proof -
  assume b: "length b = 4"
  have "from_be b < 4294967296" using from_be_less [of b] b by simp
  then show ?thesis using b to_be_from_be [OF b] by (simp add: octets4_def v4_from_def be32_def unat_of_nat)
qed

lemma octets16_v6_from: "length b = 16 \<Longrightarrow> octets16 (v6_from b) = b"
proof -
  assume b: "length b = 16"
  have "from_be b < 340282366920938463463374607431768211456" using from_be_less [of b] b by simp
  then show ?thesis using b to_be_from_be [OF b] by (simp add: octets16_def v6_from_def be128_def unat_of_nat)
qed

lemma unat_len: "n < 256 \<Longrightarrow> unat (of_nat n :: u8) = n"
  by (simp add: unat_u8_of_nat)

lemma len_unat: "length xs = unat (b :: u8) \<Longrightarrow> of_nat (length xs) = b"
  by simp

lemma two_bytes: "length p = 2 \<Longrightarrow> p = [p ! 0, p ! 1]"
  by (cases p; cases "tl p") auto

lemma takes_handshake: "length ms < 256 \<Longrightarrow> takes handshake (greeting_bytes ms) [VER, 0] ()"
proof -
  assume ms: "length ms < 256"
  have "takes (seq (write_all [VER, 0]) (\<lambda>_. ret ())) [] ([VER, 0] @ []) ()"
    by (intro takes_write_seq takes_ret)
  then have "takes (seq (read_exact (unat (of_nat (length ms) :: u8))) (\<lambda>_. seq (write_all [VER, 0]) (\<lambda>_. ret ())))
      (ms @ []) [VER, 0] ()"
    by (intro takes_exact_seq) (simp_all add: unat_len [OF ms])
  then show ?thesis
    unfolding handshake_def greeting_bytes_def by (intro takes_exact_seq) simp_all
qed

text \<open>The part of a request behind the address type, and its type.\<close>

definition target_body :: "target \<Rightarrow> bytes" where
  "target_body t = tl (target_bytes t)"

definition target_type :: "target \<Rightarrow> u8" where
  "target_type t = hd (target_bytes t)"

lemma target_split: "target_bytes t = target_type t # target_body t"
  by (cases t rule: target_bytes.cases) (simp_all add: target_body_def target_type_def)

lemma takes_read_target:
  assumes "target_fits t"
  shows "takes (read_target (target_type t)) (target_body t @ be16 port) [] (as_read t, port)"
proof -
  have p: "takes (seq (read_exact 2) (\<lambda>p. ret (x, u16_be (p ! 0) (p ! 1)))) (be16 port @ []) [] (x, port)"
    for x :: target
  proof (rule takes_exact_seq)
    have "u16_be (be16 port ! 0) (be16 port ! 1) = port" by (rule u16_be_be16)
    then show "takes (ret (x, u16_be (be16 port ! 0) (be16 port ! 1))) [] [] (x, port)"
      using takes_ret [of "(x, port)"] by (simp only:)
  qed simp
  have "takes (seq m (\<lambda>target. seq (read_exact 2) (\<lambda>p. ret (target, u16_be (p ! 0) (p ! 1)))))
      (target_body t @ be16 port) [] (as_read t, port)"
    if "takes m (target_body t) [] (as_read t)" for m :: "('x sock_scheme, target) io"
  proof -
    have "takes (seq m (\<lambda>target. seq (read_exact 2) (\<lambda>p. ret (target, u16_be (p ! 0) (p ! 1)))))
        (target_body t @ be16 port @ []) ([] @ []) (as_read t, port)"
      by (rule takes_seq [OF that p])
    then show ?thesis by (simp only: append_Nil2)
  qed
  moreover have "takes (if target_type t = ATYP_V4 then seq (read_exact 4) (\<lambda>b. ret (TIp (V4 (v4_from b))))
          else if target_type t = ATYP_V6 then seq (read_exact 16) (\<lambda>b. ret (TIp (V6 (v6_from b))))
          else if target_type t = ATYP_DOMAIN then
            seq (read_exact 1) (\<lambda>len.
            seq (read_exact (unat (len ! 0))) (\<lambda>name.
            ret (TDomain (utf8_lossy name))))
          else fail (Other (lit ''bad atyp''))) (target_body t) [] (as_read t)"
  proof (cases t rule: target_bytes.cases)
    case (1 a)
    have "takes (seq (read_exact 4) (\<lambda>b. ret (TIp (V4 (v4_from b))))) (octets4 a @ []) [] (TIp (V4 a))"
      by (rule takes_exact_seq) (use takes_ret [of "TIp (V4 a)"] in simp_all)
    then show ?thesis by (simp add: 1 target_type_def target_body_def atyp_defs)
  next
    case (2 a)
    have "takes (seq (read_exact 16) (\<lambda>b. ret (TIp (V6 (v6_from b))))) (octets16 a @ []) [] (TIp (V6 a))"
      by (rule takes_exact_seq) (use takes_ret [of "TIp (V6 a)"] in simp_all)
    then show ?thesis by (simp add: 2 target_type_def target_body_def atyp_defs)
  next
    case (3 name)
    have "takes (seq (read_exact (length name)) (\<lambda>name. ret (TDomain (utf8_lossy name)))) (name @ []) []
        (TDomain (utf8_lossy name))"
      by (rule takes_exact_seq) (use takes_ret in simp_all)
    then have "takes (seq (read_exact 1) (\<lambda>len. seq (read_exact (unat (len ! 0))) (\<lambda>name.
        ret (TDomain (utf8_lossy name))))) ([of_nat (length name)] @ name) [] (TDomain (utf8_lossy name))"
      using assms by (intro takes_exact_seq) (simp_all add: 3 unat_len)
    then show ?thesis by (simp add: 3 target_type_def target_body_def atyp_defs)
  qed
  ultimately show ?thesis unfolding read_target_def by blast
qed

lemma takes_read_request:
  assumes "length ms < 256" "target_fits t"
  shows "takes read_request (greeting_bytes ms @ request_bytes cmd rsv t port) [VER, 0] (cmd, as_read t, port)"
proof -
  have "takes (seq (read_target (target_type t)) (\<lambda>(target, port). ret (cmd, target, port)))
      ((target_body t @ be16 port) @ []) ([] @ []) (cmd, as_read t, port)"
    by (rule takes_seq [OF takes_read_target [OF assms(2)]]) (use takes_ret in simp)
  then have "takes (seq (read_exact 4) (\<lambda>head. if head ! 0 \<noteq> VER then fail (Other (lit ''bad socks version''))
      else seq (read_target (head ! 3)) (\<lambda>(target, port). ret (head ! 1, target, port))))
      ([VER, cmd, rsv, target_type t] @ target_body t @ be16 port) [] (cmd, as_read t, port)"
    by (intro takes_exact_seq) simp_all
  from takes_seq [OF takes_handshake [OF assms(1)], of "\<lambda>_. seq (read_exact 4) (\<lambda>head. if head ! 0 \<noteq> VER
      then fail (Other (lit ''bad socks version'')) else seq (read_target (head ! 3)) (\<lambda>(target, port).
      ret (head ! 1, target, port)))", OF this]
  show ?thesis by (simp add: read_request_def request_bytes_def target_split)
qed


section \<open>Lemmas: what the server accepts\<close>

lemma handshake_OkD:
  assumes "handshake s = (Ok u, s')"
  shows "\<exists>ms. length ms < 256 \<and> sent (rx s) = greeting_bytes ms @ sent (rx s')"
proof -
  from assms obtain p ms where p: "sent (rx s) = p @ ms @ sent (rx s')" "length p = 2" "p ! 0 = VER"
      "length ms = unat (p ! 1)"
    unfolding handshake_def
    by (auto elim!: seq_OkE split: if_splits dest!: read_exact_OkD write_all_OkD)
  then have "sent (rx s) = greeting_bytes ms @ sent (rx s')"
    using two_bytes [of p] by (simp add: greeting_bytes_def)
  moreover have "length ms < 256" unfolding p(4) by (rule unat_u8_less)
  ultimately show ?thesis by blast
qed

lemma read_target_OkD:
  assumes "read_target atyp s = (Ok (t, port), s')"
  shows "\<exists>raw. target_fits raw \<and> target_type raw = atyp \<and> t = as_read raw \<and>
    sent (rx s) = target_body raw @ be16 port @ sent (rx s')"
proof -
  from assms obtain s1 p where m: "(if atyp = ATYP_V4 then seq (read_exact 4) (\<lambda>b. ret (TIp (V4 (v4_from b))))
          else if atyp = ATYP_V6 then seq (read_exact 16) (\<lambda>b. ret (TIp (V6 (v6_from b))))
          else if atyp = ATYP_DOMAIN then
            seq (read_exact 1) (\<lambda>len.
            seq (read_exact (unat (len ! 0))) (\<lambda>name.
            ret (TDomain (utf8_lossy name))))
          else fail (Other (lit ''bad atyp''))) s = (Ok t, s1)"
      and p: "read_exact 2 s1 = (Ok p, s')" "port = u16_be (p ! 0) (p ! 1)"
    unfolding read_target_def by (auto elim!: seq_OkE)
  have port: "sent (rx s1) = be16 port @ sent (rx s')"
    using read_exact_OkD [OF p(1)] two_bytes [of p] be16_u16_be [of "p ! 0" "p ! 1"] by (simp add: p(2))
  consider (v4) "atyp = ATYP_V4" | (v6) "atyp = ATYP_V6" | (dom) "atyp = ATYP_DOMAIN"
    using m by (auto split: if_splits)
  then have "\<exists>raw. target_fits raw \<and> target_type raw = atyp \<and> t = as_read raw \<and>
      sent (rx s) = target_body raw @ sent (rx s1)"
  proof cases
    case v4
    then obtain b where "sent (rx s) = b @ sent (rx s1)" "length b = 4" "t = TIp (V4 (v4_from b))"
      using m by (auto elim!: seq_OkE dest!: read_exact_OkD)
    then show ?thesis
      using v4 by (intro exI [of _ t]) (simp add: target_type_def target_body_def octets4_v4_from)
  next
    case v6
    then obtain b where "sent (rx s) = b @ sent (rx s1)" "length b = 16" "t = TIp (V6 (v6_from b))"
      using m by (auto simp: atyp_defs elim!: seq_OkE dest!: read_exact_OkD)
    then show ?thesis
      using v6 by (intro exI [of _ t]) (simp add: target_type_def target_body_def octets16_v6_from)
  next
    case dom
    then obtain l name where n: "sent (rx s) = l @ name @ sent (rx s1)" "length l = 1" "length name = unat (l ! 0)"
        "t = TDomain (utf8_lossy name)"
      using m by (auto simp: atyp_defs elim!: seq_OkE dest!: read_exact_OkD)
    have "l = [of_nat (length name)]" using n(2) by (cases l) (auto simp: n(3))
    moreover have "length name < 256" unfolding n(3) by (rule unat_u8_less)
    ultimately show ?thesis
      using dom n by (intro exI [of _ "TDomain name"]) (simp add: target_type_def target_body_def)
  qed
  then show ?thesis using port by auto
qed

lemma read_request_OkD:
  assumes "read_request s = (Ok (cmd, t, port), s')"
  shows "\<exists>ms rsv raw. length ms < 256 \<and> target_fits raw \<and> t = as_read raw \<and>
    sent (rx s) = greeting_bytes ms @ request_bytes cmd rsv raw port @ sent (rx s')"
proof -
  from assms obtain s1 s2 h where h: "handshake s = (Ok (), s1)" "read_exact 4 s1 = (Ok h, s2)" "h ! 0 = VER"
      "read_target (h ! 3) s2 = (Ok (t, port), s')" "h ! 1 = cmd"
    unfolding read_request_def by (auto elim!: seq_OkE split: if_splits)
  have "h = [h ! 0, h ! 1, h ! 2, h ! 3]"
    using read_exact_OkD [OF h(2)] by (auto simp: numeral_eq_Suc length_Suc_conv)
  then obtain rsv atyp where hd4: "h = [VER, cmd, rsv, atyp]" using h(3,5) by metis
  then obtain raw where raw: "target_fits raw" "target_type raw = atyp" "t = as_read raw"
      "sent (rx s2) = target_body raw @ be16 port @ sent (rx s')"
    using read_target_OkD [OF h(4)] by auto
  obtain ms where ms: "length ms < 256" "sent (rx s) = greeting_bytes ms @ sent (rx s1)"
    using handshake_OkD [OF h(1)] by blast
  have "sent (rx s) = greeting_bytes ms @ request_bytes cmd rsv raw port @ sent (rx s')"
    using read_exact_OkD [OF h(2)] by (simp add: request_bytes_def target_split hd4 raw ms)
  then show ?thesis using ms(1) raw(1,3) by blast
qed


lemma calm_read_request [intro]: "calm read_request"
  unfolding read_request_def handshake_def read_target_def split_beta by (intro calm_seq calm_if calm_simps)

section \<open>Lemmas: datagrams\<close>

definition datagram_bytes :: "u8 \<Rightarrow> u8 \<Rightarrow> target \<Rightarrow> u16 \<Rightarrow> bytes \<Rightarrow> bytes" where
  "datagram_bytes a b t port payload = [a, b, 0] @ target_bytes t @ be16 port @ payload"

lemma ix_at: "n = length pre \<Longrightarrow> ix (pre @ x # post) n = Ok x"
  by simp

lemma sl_at: "n = length pre \<Longrightarrow> m = n + length mid \<Longrightarrow> sl (pre @ mid @ post) n m = Ok mid"
  by simp

lemma u16_be_port [simp]: "u16_be (be16 w ! 0) (be16 w ! Suc 0) = w"
  using u16_be_be16 [of w] by simp

lemma udp_tail:
  assumes "n = length pre"
  shows "ix (pre @ be16 port @ payload) n = Ok (be16 port ! 0)"
    "ix (pre @ be16 port @ payload) (n + 1) = Ok (be16 port ! 1)"
    "sl (pre @ be16 port @ payload) (n + 2) (length (pre @ be16 port @ payload)) = Ok payload"
    "\<not> length (pre @ be16 port @ payload) < n + 2"
  using assms by (simp_all add: ix_def nth_append)

lemma octets4_list: "octets4 a = [octets4 a ! 0, octets4 a ! 1, octets4 a ! 2, octets4 a ! 3]"
  by (rule nth_equalityI) (auto simp: nth_Cons' numeral_eq_Suc less_Suc_eq)

lemma parse_udp_datagram:
  assumes "target_fits raw"
  shows "parse_udp_request (datagram_bytes a b raw port payload) = Ok (as_read raw, port, payload)"
proof (cases raw rule: target_bytes.cases)
  case (1 ip)
  let ?pre = "[a, b, 0, ATYP_V4, octets4 ip ! 0, octets4 ip ! 1, octets4 ip ! 2, octets4 ip ! 3]"
  have "datagram_bytes a b raw port payload = ?pre @ be16 port @ payload"
    using octets4_list [of ip] by (simp add: 1 datagram_bytes_def)
  then show ?thesis
    using v4_octets [of ip] udp_tail [of 8 ?pre port payload]
    by (simp add: 1 parse_udp_request_def ix_def)
next
  case (2 ip)
  let ?pre = "[a, b, 0, ATYP_V6] @ octets16 ip"
  have m: "datagram_bytes a b raw port payload = ?pre @ be16 port @ payload"
    by (simp add: 2 datagram_bytes_def)
  have s: "sl (?pre @ be16 port @ payload) 4 20 = Ok (octets16 ip)"
    using sl_at [of 4 "[a, b, 0, ATYP_V6]" 20 "octets16 ip"] by simp
  show ?thesis
    unfolding m using s udp_tail [of 20 ?pre port payload]
    by (simp add: 2 parse_udp_request_def atyp_defs)
next
  case (3 name)
  let ?pre = "[a, b, 0, ATYP_DOMAIN, of_nat (length name)] @ name"
  have m: "datagram_bytes a b raw port payload = ?pre @ be16 port @ payload"
    by (simp add: 3 datagram_bytes_def)
  have n: "unat (of_nat (length name) :: u8) = length name" using assms by (simp add: 3 unat_len)
  have s: "sl (?pre @ be16 port @ payload) 5 (5 + length name) = Ok name"
    using sl_at [of 5 "[a, b, 0, ATYP_DOMAIN, of_nat (length name)]" "5 + length name" name] by simp
  show ?thesis
    unfolding m using s udp_tail [of "5 + length name" ?pre port payload]
    by (simp add: 3 parse_udp_request_def atyp_defs get_def n)
qed


lemma split_tail:
  assumes "pos + 2 \<le> length buf"
  shows "buf = take pos buf @ be16 (u16_be (buf ! pos) (buf ! Suc pos)) @ drop (Suc (Suc pos)) buf"
proof -
  have "drop pos buf = buf ! pos # buf ! Suc pos # drop (Suc (Suc pos)) buf"
    using assms by (simp add: Cons_nth_drop_Suc)
  then have "buf = take pos buf @ [buf ! pos, buf ! Suc pos] @ drop (Suc (Suc pos)) buf"
    by (metis append_Cons append_Nil append_take_drop_id)
  then show ?thesis by (simp add: be16_u16_be)
qed

lemma take4: "4 \<le> length buf \<Longrightarrow> take 4 buf = [buf ! 0, buf ! 1, buf ! 2, buf ! 3]"
  by (rule nth_equalityI) (auto simp: nth_Cons' numeral_eq_Suc less_Suc_eq)

lemma parse_udp_OkD:
  assumes "parse_udp_request buf = Ok (t, port, payload)"
  shows "\<exists>a b raw. target_fits raw \<and> t = as_read raw \<and> buf = datagram_bytes a b raw port payload"
proof -
  have l: "4 \<le> length buf" "buf ! 2 = 0"
    using assms by (auto simp: parse_udp_request_def split: if_splits)
  then have f: "take 4 buf = [buf ! 0, buf ! 1, 0, buf ! 3]" using take4 [of buf] by simp
  have "\<exists>pos raw. pos + 2 \<le> length buf \<and> target_fits raw \<and> t = as_read raw \<and>
      take pos buf = [buf ! 0, buf ! 1, 0] @ target_bytes raw \<and>
      port = u16_be (buf ! pos) (buf ! Suc pos) \<and> payload = drop (Suc (Suc pos)) buf"
  proof -
    consider (v4) "buf ! 3 = ATYP_V4" | (v6) "buf ! 3 = ATYP_V6" | (dom) "buf ! 3 = ATYP_DOMAIN"
      using assms l by (auto simp: parse_udp_request_def ix_def split: if_splits)
    then show ?thesis
    proof cases
      case v4
      then have p: "10 \<le> length buf" "t = TIp (V4 (ipv4 (buf ! 4) (buf ! 5) (buf ! 6) (buf ! 7)))"
          "port = u16_be (buf ! 8) (buf ! 9)" "payload = drop 10 buf"
        using assms l by (auto simp: parse_udp_request_def split: if_splits)
      have "take 4 (drop 4 buf) = [buf ! 4, buf ! 5, buf ! 6, buf ! 7]"
        using p(1) take4 [of "drop 4 buf"] by (simp add: numeral_eq_Suc)
      then have o: "[buf ! 4, buf ! 5, buf ! 6, buf ! 7] = octets4 (ipv4 (buf ! 4) (buf ! 5) (buf ! 6) (buf ! 7))"
        using octets4_v4_from [of "[buf ! 4, buf ! 5, buf ! 6, buf ! 7]"] by (simp add: ipv4_def v4_from_def)
      have "take 8 buf = take 4 buf @ take 4 (drop 4 buf)"
        using take_add [of 4 4 buf] by simp
      then show ?thesis
        using p o f v4 \<open>take 4 (drop 4 buf) = _\<close>
        by (intro exI [of _ 8] exI [of _ t]) (simp add: numeral_eq_Suc)
    next
      case v6
      then have p: "22 \<le> length buf" "t = TIp (V6 (v6_from (take 16 (drop 4 buf))))"
          "port = u16_be (buf ! 20) (buf ! 21)" "payload = drop 22 buf"
        using assms l by (auto simp: parse_udp_request_def atyp_defs split: if_splits)
      have "take 20 buf = take 4 buf @ take 16 (drop 4 buf)"
        using take_add [of 4 16 buf] by simp
      then show ?thesis
        using p f v6 by (intro exI [of _ 20] exI [of _ t]) (simp add: octets16_v6_from)
    next
      case dom
      then have p: "7 + unat (buf ! 4) \<le> length buf" "t = TDomain (utf8_lossy (take (unat (buf ! 4)) (drop 5 buf)))"
          "port = u16_be (buf ! (5 + unat (buf ! 4))) (buf ! (6 + unat (buf ! 4)))" "payload = drop (7 + unat (buf ! 4)) buf"
        using assms l by (auto simp: parse_udp_request_def atyp_defs run_simps split: if_splits)
      have "take (5 + unat (buf ! 4)) buf = take 4 buf @ [buf ! 4] @ take (unat (buf ! 4)) (drop 5 buf)"
        using p(1) take_add [of 5 "unat (buf ! 4)" buf] take_Suc_conv_app_nth [of 4 buf] by simp
      moreover have "length (take (unat (buf ! 4)) (drop 5 buf)) = unat (buf ! 4)" using p(1) by simp
      ultimately show ?thesis
        using p f dom
        by (intro exI [of _ "5 + unat (buf ! 4)"] exI [of _ "TDomain (take (unat (buf ! 4)) (drop 5 buf))"]) simp
    qed
  qed
  then obtain pos raw where r: "pos + 2 \<le> length buf" "target_fits raw" "t = as_read raw"
      "take pos buf = [buf ! 0, buf ! 1, 0] @ target_bytes raw"
      "port = u16_be (buf ! pos) (buf ! Suc pos)" "payload = drop (Suc (Suc pos)) buf" by blast
  have "buf = take pos buf @ be16 port @ payload" unfolding r(5,6) by (rule split_tail [OF r(1)])
  then have "buf = datagram_bytes (buf ! 0) (buf ! 1) raw port payload"
    unfolding r(4) datagram_bytes_def by simp
  then show ?thesis using r(2,3) by blast
qed

lemma parse_udp_safe: "safe (parse_udp_request buf)"
  by (auto simp: parse_udp_request_def split_beta run_simps intro!: safe_bnd split: if_splits)


section \<open>Properties\<close>

text \<open>C7. The server reads exactly the requests of the protocol, in whatever pieces they come. When
  the reads and the write work, a request is read with a result and a remainder exactly when the
  client's bytes are a greeting with any methods, a request with that command, port and
  destination, and that remainder; the greeting has then been answered with \<^verbatim>\<open>05 00\<close>. A name
  is read as text, every other destination as it is. Nothing a client sends makes it panic.\<close>

theorem socks_request_exact:
  assumes "clean (rx s)" "writes s = []"
  shows "((\<exists>s'. read_request s = (Ok (cmd, t, port), s') \<and> sent (rx s') = rest \<and> tx s' = tx s @ [5, 0]) \<longleftrightarrow>
     (\<exists>ms rsv raw. length ms < 256 \<and> target_fits raw \<and> t = as_read raw \<and>
        sent (rx s) = greeting_bytes ms @ request_bytes cmd rsv raw port @ rest)) \<and>
    fst (read_request s) \<noteq> Panic"
proof (intro conjI iffI)
  assume "\<exists>s'. read_request s = (Ok (cmd, t, port), s') \<and> sent (rx s') = rest \<and> tx s' = tx s @ [5, 0]"
  then show "\<exists>ms rsv raw. length ms < 256 \<and> target_fits raw \<and> t = as_read raw \<and>
      sent (rx s) = greeting_bytes ms @ request_bytes cmd rsv raw port @ rest"
    using read_request_OkD by blast
next
  assume "\<exists>ms rsv raw. length ms < 256 \<and> target_fits raw \<and> t = as_read raw \<and>
      sent (rx s) = greeting_bytes ms @ request_bytes cmd rsv raw port @ rest"
  then obtain ms rsv raw where r: "length ms < 256" "target_fits raw" "t = as_read raw"
      "sent (rx s) = (greeting_bytes ms @ request_bytes cmd rsv raw port) @ rest" by auto
  from takesD [OF takes_read_request [OF r(1,2)] r(4) assms]
  show "\<exists>s'. read_request s = (Ok (cmd, t, port), s') \<and> sent (rx s') = rest \<and> tx s' = tx s @ [5, 0]"
    by (auto simp: r(3) VER_def)
next
  show "fst (read_request s) \<noteq> Panic"
    by (rule calmD [OF calm_read_request])
qed

theorem socks_request_exact_witness:
  "(\<exists>s'. read_request \<lparr>rx = [Chunk [5], Chunk [1, 0, 5, 1, 0, 1, 10, 0], Chunk [0, 1, 0, 80, 7]], tx = [], writes = []\<rparr>
       = (Ok (1, TIp (V4 (v4_from [10, 0, 0, 1])), 80), s') \<and> sent (rx s') = [7] \<and> tx s' = [5, 0])"
proof -
  have o: "octets4 (v4_from [10, 0, 0, 1]) = [10, 0, 0, 1]" by (rule octets4_v4_from) simp
  have "\<exists>ms rsv raw. length ms < 256 \<and> target_fits raw \<and> TIp (V4 (v4_from [10, 0, 0, 1])) = as_read raw \<and>
      [5, 1, 0, 5, 1, 0, 1, 10, 0, 0, 1, 0, 80, 7] = greeting_bytes ms @ request_bytes 1 rsv raw 80 @ [7]"
    by (rule exI [of _ "[0]"], rule exI [of _ 0], rule exI [of _ "TIp (V4 (v4_from [10, 0, 0, 1]))"])
      (simp add: o ATYP_V4_def be16_eq greeting_bytes_def request_bytes_def VER_def)
  then show ?thesis
    using socks_request_exact [of "\<lparr>rx = [Chunk [5], Chunk [1, 0, 5, 1, 0, 1, 10, 0], Chunk [0, 1, 0, 80, 7]], tx = [], writes = []\<rparr>"
        1 "TIp (V4 (v4_from [10, 0, 0, 1]))" 80 "[7]"]
    by simp
qed

text \<open>C32. Datagrams on the relay are understood exactly when they are unfragmented and hold a
  destination: with their destination, port and payload, whatever the reserved bytes; nothing else
  is taken and no datagram makes the parser panic. A reply names its source the same way.\<close>

theorem udp_datagram_exact:
  "(parse_udp_request buf = Ok (t, port, payload) \<longleftrightarrow>
     (\<exists>a b raw. target_fits raw \<and> t = as_read raw \<and>
        buf = [a, b, 0] @ target_bytes raw @ be16 port @ payload)) \<and>
   parse_udp_request buf \<noteq> Panic \<and>
   parse_udp_request (build_udp_reply src data) = Ok (TIp (sock_ip src), sock_port src, data)"
proof (intro conjI)
  show "parse_udp_request buf = Ok (t, port, payload) \<longleftrightarrow>
     (\<exists>a b raw. target_fits raw \<and> t = as_read raw \<and>
        buf = [a, b, 0] @ target_bytes raw @ be16 port @ payload)"
  proof
    assume "\<exists>a b raw. target_fits raw \<and> t = as_read raw \<and> buf = [a, b, 0] @ target_bytes raw @ be16 port @ payload"
    then show "parse_udp_request buf = Ok (t, port, payload)"
      using parse_udp_datagram unfolding datagram_bytes_def by blast
  qed (use parse_udp_OkD in \<open>simp add: datagram_bytes_def\<close>)
  show "parse_udp_request buf \<noteq> Panic" using parse_udp_safe [of buf] by (simp add: safe_def)
  have "build_udp_reply src data = datagram_bytes 0 0 (TIp (sock_ip src)) (sock_port src) data"
    by (simp add: build_udp_reply_def datagram_bytes_def split: ip_addr.splits)
  then show "parse_udp_request (build_udp_reply src data) = Ok (TIp (sock_ip src), sock_port src, data)"
    by (simp add: parse_udp_datagram)
qed

end
