(* ===== verification/Dns.thy ===== *)
theory Dns
  imports Core Net
begin

text \<open>
  DNS messages as the program writes and reads them: the queries, the check that a reply answers
  the query that was sent, the answers, and the names and addresses of resolvers
  (\<^verbatim>\<open>aether/src/dns.rs\<close>, and the resolver of \<^verbatim>\<open>aether/src/socks.rs\<close>, which carries its own copy of
  some of it). Identifiers drawn at random are arguments.
\<close>

section \<open>Queries\<close>

definition RR_HTTPS :: u16 where "RR_HTTPS = 65"
definition SVCPARAM_ECH :: u16 where "SVCPARAM_ECH = 5"
definition QTYPE_A :: u16 where "QTYPE_A = 1"
definition QTYPE_AAAA :: u16 where "QTYPE_AAAA = 28"
definition RCODE_NXDOMAIN :: u8 where "RCODE_NXDOMAIN = 3"

definition query_label :: "str \<Rightarrow> bytes" where
  "query_label l = of_nat (length l) # l"

definition build_query :: "u16 \<Rightarrow> str \<Rightarrow> u16 \<Rightarrow> bytes \<times> u16" where
  "build_query qid name qtype =
     (be16 qid @ [1, 0] @ [0, 1] @ [0, 0, 0, 0, 0, 0] @
      concat (map query_label (filter (\<lambda>l. l \<noteq> []) (split_on 46 name))) @
      [0] @ be16 qtype @ [0, 1], qid)"

definition build_dns_query :: "u16 \<Rightarrow> str \<Rightarrow> u16 \<Rightarrow> bytes \<times> u16" where
  "build_dns_query qid name qtype =
     (be16 qid @ [1, 0] @ [0, 1] @ [0, 0, 0, 0, 0, 0] @
      concat (map query_label (split_on 46 name)) @ [0] @ be16 qtype @ [0, 1], qid)"

definition tcp_message :: "bytes \<Rightarrow> bytes" where
  "tcp_message msg = be16 (of_nat (length msg)) @ msg"

section \<open>Replies\<close>

definition u16_at :: "bytes \<Rightarrow> nat \<Rightarrow> ('e, u16) run" where
  "u16_at buf i = bnd (ix buf i) (\<lambda>a. bnd (ix buf (i + 1)) (\<lambda>b. Ok (u16_be a b)))"

fun match_labels :: "bytes \<Rightarrow> str list \<Rightarrow> u16 \<Rightarrow> nat \<Rightarrow> bool opt" where
  "match_labels msg [] qtype pos =
     (if get msg pos \<noteq> Some 0 then Ok False
      else let pos = pos + 1 in
        if pos + 4 > length msg then Ok False
        else bnd (u16_at msg pos) (\<lambda>t. Ok (t = qtype)))"
| "match_labels msg (label # labels) qtype pos =
     (if label = [] then match_labels msg labels qtype pos
      else case get msg pos of
        None \<Rightarrow> Ok False
      | Some v \<Rightarrow>
        let len = unat v in
        if len \<noteq> length label then Ok False
        else let pos = pos + 1; fin = pos + len in
          if fin > length msg then Ok False
          else bnd (sl msg pos fin) (\<lambda>s.
            if \<not> eq_ignore_ascii_case s label then Ok False
            else match_labels msg labels qtype fin))"

definition response_matches :: "bytes \<Rightarrow> u16 \<Rightarrow> str \<Rightarrow> u16 \<Rightarrow> bool opt" where
  "response_matches msg expected_id expected_name expected_qtype =
     (if length msg < 12 then Ok False
      else bnd (u16_at msg 0) (\<lambda>i. if i \<noteq> expected_id then Ok False
      else bnd (ix msg 2) (\<lambda>f. if f AND 0x80 = 0 then Ok False
      else bnd (u16_at msg 4) (\<lambda>n. if n \<noteq> 1 then Ok False
      else match_labels msg (split_on 46 expected_name) expected_qtype 12))))"

definition dns_response_matches :: "bytes \<Rightarrow> u16 \<Rightarrow> str \<Rightarrow> u16 \<Rightarrow> bool opt" where
  "dns_response_matches resp expected_id expected_name expected_qtype =
     (if length resp < 12 then Ok False
      else bnd (u16_at resp 0) (\<lambda>i. if i \<noteq> expected_id then Ok False
      else bnd (ix resp 2) (\<lambda>f. if f AND 0x80 = 0 then Ok False
      else bnd (u16_at resp 4) (\<lambda>n. if n \<noteq> 1 then Ok False
      else match_labels resp (split_on 46 expected_name) expected_qtype 12))))"

function skip_name :: "bytes \<Rightarrow> nat \<Rightarrow> nat opt" where
  "skip_name buf pos = (case get buf pos of
     None \<Rightarrow> Err ()
   | Some len \<Rightarrow>
     if len AND 0xc0 = 0xc0 then Ok (pos + 2)
     else if len = 0 then Ok (pos + 1)
     else skip_name buf (pos + (1 + unat len)))"
  by pat_completeness auto
termination
  by (relation "measure (\<lambda>(buf, pos). length buf - pos)") (auto simp: get_def split: if_splits)

declare skip_name.simps [simp del]

primrec skip_questions :: "bytes \<Rightarrow> nat \<Rightarrow> nat \<Rightarrow> nat opt" where
  "skip_questions msg 0 pos = Ok pos"
| "skip_questions msg (Suc n) pos =
     bnd (skip_name msg pos) (\<lambda>pos. skip_questions msg n (pos + 4))"

text \<open>The header of a resource record at \<open>pos\<close>: its type, the start and the length of its data.\<close>

definition record_at :: "bytes \<Rightarrow> nat \<Rightarrow> (u16 \<times> nat \<times> nat) opt" where
  "record_at msg pos =
     bnd (skip_name msg pos) (\<lambda>pos.
     if pos + 10 > length msg then Err ()
     else bnd (u16_at msg pos) (\<lambda>rtype.
       bnd (u16_at msg (pos + 8)) (\<lambda>l.
       let rdlen = unat l; pos = pos + 10 in
       if pos + rdlen > length msg then Err () else Ok (rtype, pos, rdlen))))"

function svcparams_loop :: "bytes \<Rightarrow> nat \<Rightarrow> nat \<Rightarrow> bytes opt" where
  "svcparams_loop msg fin p =
     (if p + 4 \<le> fin then
        bnd (u16_at msg p) (\<lambda>key.
        bnd (u16_at msg (p + 2)) (\<lambda>l.
        let len = unat l; q = p + 4 in
        if q + len > fin then Err ()
        else if key = SVCPARAM_ECH then sl msg q (q + len)
        else svcparams_loop msg fin (q + len)))
      else Err ())"
  by pat_completeness auto
termination
  by (relation "measure (\<lambda>(_, fin, p). fin - p)") auto

declare svcparams_loop.simps [simp del]

definition parse_svcparams_ech :: "bytes \<Rightarrow> nat \<Rightarrow> nat \<Rightarrow> bytes opt" where
  "parse_svcparams_ech msg rdata_start rdlen =
     (let fin = rdata_start + rdlen in
      if rdata_start + 2 > fin then Err ()
      else bnd (skip_name msg (rdata_start + 2)) (\<lambda>p. svcparams_loop msg fin p))"

primrec https_answers :: "bytes \<Rightarrow> nat \<Rightarrow> nat \<Rightarrow> bytes opt" where
  "https_answers msg 0 pos = Err ()"
| "https_answers msg (Suc n) pos =
     bnd (record_at msg pos) (\<lambda>(rtype, start, rdlen).
     if rtype = RR_HTTPS then
       (case parse_svcparams_ech msg start rdlen of
          Ok ech \<Rightarrow> Ok ech
        | Panic \<Rightarrow> Panic
        | Err _ \<Rightarrow> https_answers msg n (start + rdlen))
     else https_answers msg n (start + rdlen))"

definition parse_https_ech :: "bytes \<Rightarrow> bytes opt" where
  "parse_https_ech msg =
     (if length msg < 12 then Err ()
      else bnd (u16_at msg 4) (\<lambda>qd.
      bnd (u16_at msg 6) (\<lambda>an.
      bnd (skip_questions msg (unat qd) 12) (\<lambda>pos.
      https_answers msg (unat an) pos))))"

primrec address_answers :: "bytes \<Rightarrow> u16 \<Rightarrow> nat \<Rightarrow> nat \<Rightarrow> ip_addr opt" where
  "address_answers resp qtype 0 pos = Err ()"
| "address_answers resp qtype (Suc n) pos =
     bnd (record_at resp pos) (\<lambda>(rtype, start, rdlen).
     if rtype = qtype \<and> qtype = QTYPE_A \<and> rdlen = 4 then
       bnd (ix resp start) (\<lambda>a. bnd (ix resp (start + 1)) (\<lambda>b.
       bnd (ix resp (start + 2)) (\<lambda>c. bnd (ix resp (start + 3)) (\<lambda>d.
       Ok (V4 (ipv4 a b c d))))))
     else if rtype = qtype \<and> qtype = QTYPE_AAAA \<and> rdlen = 16 then
       bnd (sl resp start (start + 16)) (\<lambda>octets. Ok (V6 (v6_from octets)))
     else address_answers resp qtype n (start + rdlen))"

definition parse_dns_answer :: "bytes \<Rightarrow> u16 \<Rightarrow> ip_addr opt" where
  "parse_dns_answer resp qtype =
     (if length resp < 12 then Err ()
      else bnd (u16_at resp 4) (\<lambda>qd.
      bnd (u16_at resp 6) (\<lambda>an.
      bnd (skip_questions resp (unat qd) 12) (\<lambda>pos.
      address_answers resp qtype (unat an) pos))))"

definition dns_rcode :: "bytes \<Rightarrow> u8 option" where
  "dns_rcode resp = map_option (\<lambda>flags. flags AND 0x0f) (get resp 3)"

definition answer_ech :: "bytes \<Rightarrow> str \<Rightarrow> (aether_error, bytes) run" where
  "answer_ech msg domain = (case parse_https_ech msg of
     Panic \<Rightarrow> Panic
   | Ok ech \<Rightarrow> if ech \<noteq> [] then Ok ech
       else Err (Ech (domain @ lit '' has no HTTPS record with an ech parameter''))
   | Err _ \<Rightarrow> Err (Ech (domain @ lit '' has no HTTPS record with an ech parameter'')))"

section \<open>Lemmas: reading\<close>

lemma safe_u16_at [simp]: "safe (u16_at buf i) \<longleftrightarrow> i + 1 < length buf"
  by (auto simp: u16_at_def ix_def)

lemma u16_at_Ok: "i + 1 < length buf \<Longrightarrow> u16_at buf i = Ok (u16_be (buf ! i) (buf ! (i + 1)))"
  by (simp add: u16_at_def)

lemma skip_name_spec:
  "case skip_name buf pos of Ok p \<Rightarrow> pos < p | Err _ \<Rightarrow> True | Panic \<Rightarrow> False"
proof (induction buf pos rule: skip_name.induct)
  case (1 buf pos)
  show ?case
    by (subst skip_name.simps) (use 1 in \<open>force split: option.splits run.splits\<close>)
qed

lemma safe_skip_name [simp]: "safe (skip_name buf pos)"
  using skip_name_spec [where buf = buf and pos = pos] by (auto simp: safe_def)

lemma skip_name_less: "skip_name buf pos = Ok p \<Longrightarrow> pos < p"
  using skip_name_spec [where buf = buf and pos = pos] by simp

lemma safe_skip_questions [simp]: "safe (skip_questions msg n pos)"
  by (induction n arbitrary: pos) (auto intro!: safe_bnd)

lemma safe_record_at [simp]: "safe (record_at msg pos)"
  by (auto simp: record_at_def Let_def intro!: safe_bnd)

lemma record_at_in:
  "record_at msg pos = Ok (t, start, len) \<Longrightarrow> start + len \<le> length msg"
  by (auto simp: record_at_def Let_def run_simps split: if_splits)

lemma safe_svcparams_loop: "fin \<le> length msg \<Longrightarrow> safe (svcparams_loop msg fin p)"
proof (induction msg fin p rule: svcparams_loop.induct)
  case (1 msg fin p)
  show ?case
    by (subst svcparams_loop.simps) (use 1 in \<open>auto simp: Let_def intro!: safe_bnd\<close>)
qed

lemma safe_svcparams: "start + len \<le> length msg \<Longrightarrow> safe (parse_svcparams_ech msg start len)"
  by (auto simp: parse_svcparams_ech_def Let_def safe_svcparams_loop intro!: safe_bnd)

lemma safe_https_answers: "safe (https_answers msg n pos)"
proof (induction n arbitrary: pos)
  case (Suc n)
  have "parse_svcparams_ech msg a b \<noteq> Panic" if "record_at msg pos = Ok (t, a, b)" for t a b
    using safe_svcparams record_at_in [OF that] by (metis safe_simps(3))
  then show ?case using Suc by (auto intro!: safe_bnd split: run.splits)
qed simp

lemma safe_address_answers: "safe (address_answers resp q n pos)"
proof (induction n arbitrary: pos)
  case (Suc n)
  then show ?case by (auto dest!: record_at_in intro!: safe_bnd)
qed simp

lemma safe_match_labels: "safe (match_labels msg labels q pos)"
  by (induction msg labels q pos rule: match_labels.induct)
    (auto simp: Let_def intro!: safe_bnd split: option.splits)

section \<open>Lemmas: the question of a reply\<close>

text \<open>The labels a matching question carries: those of the name, empty ones left out, in any case.\<close>

definition same_labels :: "str list \<Rightarrow> str list \<Rightarrow> bool" where
  "same_labels ls labels \<longleftrightarrow> list_all2 (\<lambda>l l'. length l < 256 \<and> eq_ignore_ascii_case l l') ls labels"

lemma eq_ignore_length: "eq_ignore_ascii_case a b \<Longrightarrow> length a = length b"
  unfolding eq_ignore_ascii_case_def by (metis length_map)

lemma be16_split: "take 2 bs = be16 q \<longleftrightarrow> (\<exists>r. bs = be16 q @ r)"
  by (metis append_eq_conv_conj append_take_drop_id length_be(1))

lemma question_end:
  "match_labels msg [] q pos = Ok True \<longleftrightarrow>
     (\<exists>cc rest. length cc = 2 \<and> drop pos msg = 0 # be16 q @ cc @ rest)"
proof
  assume m: "match_labels msg [] q pos = Ok True"
  then have l: "pos + 5 \<le> length msg" and z: "msg ! pos = 0"
    by (auto simp: get_def Let_def split: if_splits)
  have q: "u16_be (msg ! (pos + 1)) (msg ! (pos + 2)) = q"
    using m l z by (auto simp: get_def Let_def u16_at_Ok split: if_splits)
  have "drop pos msg = msg ! pos # msg ! (pos + 1) # msg ! (pos + 2) # drop (pos + 3) msg"
    using l by (simp add: Cons_nth_drop_Suc numeral_3_eq_3)
  also have "\<dots> = 0 # be16 q @ take 2 (drop (pos + 3) msg) @ drop 2 (drop (pos + 3) msg)"
    using z q be16_u16_be [of "msg ! (pos + 1)" "msg ! (pos + 2)"]
    by (metis append_Cons append_Nil append_take_drop_id)
  finally show "\<exists>cc rest. length cc = 2 \<and> drop pos msg = 0 # be16 q @ cc @ rest"
    using l by (intro exI [of _ "take 2 (drop (pos + 3) msg)"] exI [of _ "drop 2 (drop (pos + 3) msg)"]) auto
next
  assume "\<exists>cc rest. length cc = 2 \<and> drop pos msg = 0 # be16 q @ cc @ rest"
  then obtain cc rest where d: "length cc = 2" "drop pos msg = 0 # be16 q @ cc @ rest" by blast
  have "length (drop pos msg) = 5 + length rest" unfolding d(2) using d(1) by simp
  then have l: "pos + 5 \<le> length msg" by simp
  have n: "msg ! (pos + i) = (0 # be16 q @ cc @ rest) ! i" if "pos + i < length msg" for i
    using that d(2) by (metis less_imp_le_nat add_leD1 nth_drop)
  have "msg ! pos = 0" "msg ! (pos + 1) = be16 q ! 0" "msg ! (pos + 2) = be16 q ! 1"
    using n [of 0] n [of 1] n [of 2] l by (simp_all add: nth_append)
  then show "match_labels msg [] q pos = Ok True"
    using l u16_be_be16 [of q] by (simp add: get_def Let_def u16_at_Ok)
qed

lemma question_label:
  assumes "label \<noteq> []"
  shows "match_labels msg (label # labels) q pos = Ok True \<longleftrightarrow>
    (\<exists>l r. length l < 256 \<and> eq_ignore_ascii_case l label \<and> drop pos msg = query_label l @ r \<and>
       match_labels msg labels q (pos + 1 + length l) = Ok True)"
proof
  assume m: "match_labels msg (label # labels) q pos = Ok True"
  let ?n = "length label"
  have n: "pos < length msg" "unat (msg ! pos) = ?n" "pos + 1 + ?n \<le> length msg"
    using m assms by (auto simp: get_def Let_def split: if_splits)
  let ?l = "take ?n (drop (pos + 1) msg)"
  have e: "eq_ignore_ascii_case ?l label" "match_labels msg labels q (pos + 1 + ?n) = Ok True"
    using m assms n by (auto simp: get_def Let_def split: if_splits)
  have "of_nat ?n = msg ! pos" by (simp flip: n(2))
  then have "drop pos msg = query_label ?l @ drop (pos + 1 + ?n) msg"
    using n append_take_drop_id [of ?n "drop (pos + 1) msg"]
    by (simp add: query_label_def Cons_nth_drop_Suc add.commute)
  moreover have "?n < 256" using n(2) unat_u8_less [of "msg ! pos"] by simp
  ultimately show "\<exists>l r. length l < 256 \<and> eq_ignore_ascii_case l label \<and> drop pos msg = query_label l @ r \<and>
       match_labels msg labels q (pos + 1 + length l) = Ok True"
    using e n by (intro exI [of _ ?l] exI [of _ "drop (pos + 1 + ?n) msg"]) auto
next
  assume "\<exists>l r. length l < 256 \<and> eq_ignore_ascii_case l label \<and> drop pos msg = query_label l @ r \<and>
       match_labels msg labels q (pos + 1 + length l) = Ok True"
  then obtain l r where l: "length l < 256" "eq_ignore_ascii_case l label"
      "drop pos msg = query_label l @ r" "match_labels msg labels q (pos + 1 + length l) = Ok True"
    by blast
  have len: "length label = length l" using eq_ignore_length [OF l(2)] by simp
  have "length (drop pos msg) = 1 + length l + length r" unfolding l(3) by (simp add: query_label_def)
  then have fit: "pos + 1 + length l \<le> length msg" by simp
  have "msg ! pos = of_nat (length l)"
    using l(3) fit by (metis Cons_nth_drop_Suc query_label_def append_Cons list.inject add_leD1 Suc_eq_plus1 Suc_le_lessD)
  moreover have "take (length l) (drop (pos + 1) msg) = l"
  proof -
    have "drop 1 (drop pos msg) = l @ r" using l(3) by (simp add: query_label_def)
    then show ?thesis by (metis add.commute append_eq_conv_conj drop_drop)
  qed
  ultimately show "match_labels msg (label # labels) q pos = Ok True"
    using assms l fit len by (simp add: get_def Let_def unat_of_nat)
qed

lemma match_labels_iff:
  "match_labels msg labels q pos = Ok True \<longleftrightarrow>
     (\<exists>ls cc rest. same_labels ls (filter (\<lambda>l. l \<noteq> []) labels) \<and> length cc = 2 \<and>
        drop pos msg = concat (map query_label ls) @ [0] @ be16 q @ cc @ rest)"
proof (induction labels arbitrary: pos)
  case Nil
  then show ?case using question_end [of msg q pos] by (auto simp: same_labels_def)
next
  case (Cons label labels)
  show ?case
  proof (cases "label = []")
    case True
    then show ?thesis using Cons by simp
  next
    case False
    have step: "drop (pos + 1 + length l) msg = t" if "drop pos msg = query_label l @ t" for l t
    proof -
      have "drop (length (query_label l)) (drop pos msg) = t" using that by simp
      then show ?thesis by (simp add: query_label_def add.commute)
    qed
    have "match_labels msg (label # labels) q pos = Ok True \<longleftrightarrow>
      (\<exists>l r ls cc rest. length l < 256 \<and> eq_ignore_ascii_case l label \<and> drop pos msg = query_label l @ r \<and>
        same_labels ls (filter (\<lambda>l. l \<noteq> []) labels) \<and> length cc = 2 \<and>
        r = concat (map query_label ls) @ [0] @ be16 q @ cc @ rest)"
      unfolding question_label [OF False] Cons.IH by (blast dest: step)
    moreover have "(\<exists>ls. same_labels ls (label # L) \<and> P ls) \<longleftrightarrow>
      (\<exists>l ls. length l < 256 \<and> eq_ignore_ascii_case l label \<and> same_labels ls L \<and> P (l # ls))" for L P
      by (auto simp: same_labels_def list_all2_Cons2)
    ultimately show ?thesis using False by simp blast
  qed
qed

section \<open>Lemmas: answers\<close>

text \<open>A name on the wire: labels, then the root or a pointer.\<close>

definition wire_name :: "str list \<Rightarrow> u16 option \<Rightarrow> bytes" where
  "wire_name ls ptr = concat (map query_label ls) @ (case ptr of None \<Rightarrow> [0] | Some p \<Rightarrow> be16 p)"

definition wire_name_wf :: "str list \<Rightarrow> u16 option \<Rightarrow> bool" where
  "wire_name_wf ls ptr \<longleftrightarrow> list_all (\<lambda>l. l \<noteq> [] \<and> length l < 64) ls \<and>
     (case ptr of None \<Rightarrow> True | Some p \<Rightarrow> be16 p ! 0 AND 0xc0 = 0xc0)"

lemma label_len_byte:
  assumes "l \<noteq> []" "length l < 64"
  shows "(of_nat (length l) :: u8) AND 0xc0 \<noteq> 0xc0" "(of_nat (length l) :: u8) \<noteq> 0"
    "unat (of_nat (length l) :: u8) = length l"
proof -
  have u: "unat (of_nat (length l) :: u8) = length l" using assms by (simp add: unat_of_nat)
  show "unat (of_nat (length l) :: u8) = length l" by (rule u)
  show "(of_nat (length l) :: u8) \<noteq> 0" using u assms by (auto simp: word_unat_eq_iff)
  have "(of_nat (length l) :: u8) AND 0xc0 = 0"
  proof -
    have "take_bit 6 (of_nat (length l) :: u8) = of_nat (length l)"
      using assms(2) u by (simp add: word_unat_eq_iff take_bit_eq_mod unat_mod)
    moreover have "take_bit 6 w AND 0xc0 = 0" for w :: u8
    proof (rule bit_word_eqI)
      fix n assume "n < LENGTH(8)"
      then have "n < 8" by simp
      then consider "n = 0" | "n = 1" | "n = 2" | "n = 3" | "n = 4" | "n = 5" | "n = 6" | "n = 7" by linarith
      then show "bit (take_bit 6 w AND 0xc0) n = bit (0 :: u8) n"
        by cases (simp_all add: bit_and_iff bit_take_bit_iff bit_numeral_simps)
    qed
    ultimately show ?thesis by metis
  qed
  then show "(of_nat (length l) :: u8) AND 0xc0 \<noteq> 0xc0" by simp
qed

lemma skip_name_wire:
  assumes "wire_name_wf ls ptr" "pos = length pre"
  shows "skip_name (pre @ wire_name ls ptr @ post) pos = Ok (pos + length (wire_name ls ptr))"
  using assms
proof (induction ls arbitrary: pre pos)
  case Nil
  show ?case
  proof (cases ptr)
    case None
    then show ?thesis using Nil by (simp add: skip_name.simps wire_name_def get_def)
  next
    case (Some p)
    then show ?thesis
      using Nil by (simp add: skip_name.simps wire_name_def get_def be16_eq wire_name_wf_def nth_append)
  qed
next
  case (Cons l ls)
  have l: "l \<noteq> []" "length l < 64" using Cons.prems by (auto simp: wire_name_wf_def)
  have e: "pre @ wire_name (l # ls) ptr @ post = (pre @ query_label l) @ wire_name ls ptr @ post"
    by (simp add: wire_name_def)
  have g: "get (pre @ wire_name (l # ls) ptr @ post) pos = Some (of_nat (length l))"
    using Cons.prems by (simp add: get_def wire_name_def query_label_def)
  have "skip_name (pre @ wire_name (l # ls) ptr @ post) pos =
      skip_name ((pre @ query_label l) @ wire_name ls ptr @ post) (pos + (1 + length l))"
    using label_len_byte [OF l] g by (subst skip_name.simps) (simp add: e)
  also have "\<dots> = Ok (pos + (1 + length l) + length (wire_name ls ptr))"
    using Cons.prems by (intro Cons.IH) (auto simp: wire_name_wf_def query_label_def)
  finally show ?case by (simp add: wire_name_def query_label_def)
qed

lemma u16_at_be16: "n = length pre \<Longrightarrow> u16_at (pre @ be16 w @ post) n = Ok w"
  using u16_be_be16 [of w] by (simp add: u16_at_Ok nth_append)

record dns_rr =
  rr_labels :: "str list"
  rr_ptr :: "u16 option"
  rr_type :: u16
  rr_class_ttl :: bytes
  rr_data :: bytes

definition rr_bytes :: "dns_rr \<Rightarrow> bytes" where
  "rr_bytes r = wire_name (rr_labels r) (rr_ptr r) @ be16 (rr_type r) @ rr_class_ttl r @
     be16 (of_nat (length (rr_data r))) @ rr_data r"

definition rr_wf :: "dns_rr \<Rightarrow> bool" where
  "rr_wf r \<longleftrightarrow> wire_name_wf (rr_labels r) (rr_ptr r) \<and> length (rr_class_ttl r) = 6 \<and>
     length (rr_data r) < 65536"

definition rr_head :: "dns_rr \<Rightarrow> nat" where
  "rr_head r = length (wire_name (rr_labels r) (rr_ptr r)) + 10"

lemma length_rr_bytes: "rr_wf r \<Longrightarrow> length (rr_bytes r) = rr_head r + length (rr_data r)"
  by (simp add: rr_bytes_def rr_wf_def rr_head_def)

lemma record_at_rr:
  assumes "rr_wf r" "pos = length pre"
  shows "record_at (pre @ rr_bytes r @ post) pos =
    Ok (rr_type r, pos + rr_head r, length (rr_data r))"
proof -
  let ?w = "wire_name (rr_labels r) (rr_ptr r)" and ?m = "pre @ rr_bytes r @ post"
  have n: "skip_name ?m pos = Ok (pos + length ?w)"
    using skip_name_wire [of "rr_labels r" "rr_ptr r" pos pre] assms by (simp add: rr_bytes_def rr_wf_def)
  have t: "(u16_at ?m (pos + length ?w) :: u16 opt) = Ok (rr_type r)"
    using u16_at_be16 [of "pos + length ?w" "pre @ ?w" "rr_type r"] assms by (simp add: rr_bytes_def)
  have l: "(u16_at ?m (pos + length ?w + 8) :: u16 opt) = Ok (of_nat (length (rr_data r)))"
    using u16_at_be16 [of "pos + length ?w + 8" "pre @ ?w @ be16 (rr_type r) @ rr_class_ttl r"] assms
    by (simp add: rr_bytes_def rr_wf_def)
  have fit: "pos + length ?w + 10 + length (rr_data r) \<le> length ?m"
    using length_rr_bytes [OF assms(1)] assms(2) by (simp add: rr_head_def)
  have u: "unat (of_nat (length (rr_data r)) :: u16) = length (rr_data r)"
    using assms(1) by (simp add: unat_of_nat rr_wf_def)
  show ?thesis
    using n t l fit by (simp add: record_at_def Let_def rr_head_def u)
qed

text \<open>The addresses a record carries for a question of type A or AAAA.\<close>

definition rr_address :: "u16 \<Rightarrow> dns_rr \<Rightarrow> ip_addr option" where
  "rr_address q r =
     (if rr_type r = q \<and> q = QTYPE_A \<and> length (rr_data r) = 4 then Some (V4 (v4_from (rr_data r)))
      else if rr_type r = q \<and> q = QTYPE_AAAA \<and> length (rr_data r) = 16 then Some (V6 (v6_from (rr_data r)))
      else None)"

fun first_address :: "u16 \<Rightarrow> dns_rr list \<Rightarrow> ip_addr option" where
  "first_address q [] = None"
| "first_address q (r # rs) = (case rr_address q r of Some ip \<Rightarrow> Some ip | None \<Rightarrow> first_address q rs)"

lemma data_at:
  assumes "rr_wf r" "length pre + rr_head r = s"
  shows "take (length (rr_data r)) (drop s (pre @ rr_bytes r @ post)) = rr_data r"
    "\<And>i. i < length (rr_data r) \<Longrightarrow> (pre @ rr_bytes r @ post) ! (s + i) = rr_data r ! i"
proof -
  let ?h = "pre @ wire_name (rr_labels r) (rr_ptr r) @ be16 (rr_type r) @ rr_class_ttl r @
      be16 (of_nat (length (rr_data r)))"
  have m: "pre @ rr_bytes r @ post = ?h @ rr_data r @ post" "length ?h = s"
    using assms by (simp_all add: rr_bytes_def rr_head_def rr_wf_def)
  show "take (length (rr_data r)) (drop s (pre @ rr_bytes r @ post)) = rr_data r"
    unfolding m(1) using m(2) by simp
  show "(pre @ rr_bytes r @ post) ! (s + i) = rr_data r ! i" if "i < length (rr_data r)" for i
    unfolding m(1) using m(2) that by (metis nth_append nth_append_length_plus)
qed

lemma address_answers_first:
  assumes "list_all rr_wf rs" "pos = length pre"
  shows "address_answers (pre @ concat (map rr_bytes rs) @ post) q (length rs) pos =
    ok_or () (first_address q rs)"
  using assms
proof (induction rs arbitrary: pre pos)
  case (Cons r rs)
  let ?rest = "concat (map rr_bytes rs) @ post"
  let ?m = "pre @ rr_bytes r @ ?rest"
  have r: "rr_wf r" using Cons.prems by simp
  note at = record_at_rr [where post = ?rest, OF r Cons.prems(2)]
  have len: "pos + rr_head r + length (rr_data r) \<le> length ?m"
    using Cons.prems(2) length_rr_bytes [OF r] by simp
  have d: "take (length (rr_data r)) (drop (pos + rr_head r) ?m) = rr_data r"
    and i: "\<And>i. i < length (rr_data r) \<Longrightarrow> ?m ! (pos + rr_head r + i) = rr_data r ! i"
    using data_at [where pre = pre and s = "pos + rr_head r" and post = ?rest, OF r] Cons.prems(2) by auto
  show ?case
  proof (cases "rr_address q r")
    case None
    have "address_answers ?m q (length (r # rs)) pos =
        address_answers ((pre @ rr_bytes r) @ ?rest) q (length rs) (pos + rr_head r + length (rr_data r))"
      using None at by (auto simp: rr_address_def split: if_splits)
    also have "\<dots> = ok_or () (first_address q rs)"
      using Cons.prems length_rr_bytes [OF r] by (intro Cons.IH) auto
    finally show ?thesis using None by simp
  next
    case (Some ip)
    then consider (A) "rr_type r = q" "q = QTYPE_A" "length (rr_data r) = 4" "ip = V4 (v4_from (rr_data r))"
      | (AAAA) "rr_type r = q" "q = QTYPE_AAAA" "q \<noteq> QTYPE_A" "length (rr_data r) = 16"
        "ip = V6 (v6_from (rr_data r))"
      by (auto simp: rr_address_def QTYPE_A_def QTYPE_AAAA_def split: if_splits)
    then show ?thesis
    proof cases
      case A
      obtain x0 x1 x2 x3 where x: "rr_data r = [x0, x1, x2, x3]"
        using A(3) by (auto simp: numeral_eq_Suc length_Suc_conv)
      show ?thesis
        using A at Some i [of 0] i [of 1] i [of 2] i [of 3] len
        by (simp add: x ipv4_def v4_from_def)
    next
      case AAAA
      then show ?thesis using at Some d len by simp
    qed
  qed
qed simp

section \<open>Properties\<close>

lemma header_split:
  assumes "12 \<le> length msg"
  shows "msg = [msg ! 0, msg ! 1, msg ! 2, msg ! 3, msg ! 4, msg ! 5] @ take 6 (drop 6 msg) @ drop 12 msg"
proof -
  have "msg = take 6 msg @ take 6 (drop 6 msg) @ drop 12 msg"
    by (metis append_take_drop_id drop_drop numeral_Bit0 mult_2 add.commute numeral_code(2) semiring_norm(2) semiring_norm(6))
  moreover have "take 6 msg = [msg ! 0, msg ! 1, msg ! 2, msg ! 3, msg ! 4, msg ! 5]"
    using assms by (intro nth_equalityI) (auto simp: nth_Cons numeral_eq_Suc split: nat.splits)
  ultimately show ?thesis by simp
qed

lemma response_matches_head:
  "response_matches msg qid name q = Ok True \<longleftrightarrow>
     12 \<le> length msg \<and> u16_be (msg ! 0) (msg ! 1) = qid \<and> msg ! 2 AND 0x80 \<noteq> 0 \<and>
     u16_be (msg ! 4) (msg ! 5) = 1 \<and> match_labels msg (split_on 46 name) q 12 = Ok True"
  by (auto simp: response_matches_def u16_at_Ok split: if_splits)

definition reply_for :: "bytes \<Rightarrow> u16 \<Rightarrow> str \<Rightarrow> u16 \<Rightarrow> bool" where
  "reply_for msg qid name q \<longleftrightarrow>
     (\<exists>f1 f2 counts ls cc rest. f1 AND 0x80 \<noteq> 0 \<and> length counts = 6 \<and> length cc = 2 \<and>
        same_labels ls (filter (\<lambda>l. l \<noteq> []) (split_on 46 name)) \<and>
        msg = be16 qid @ [f1, f2, 0, 1] @ counts @ concat (map query_label ls) @ [0] @ be16 q @ cc @ rest)"

lemma accepted_reply_for:
  assumes "response_matches msg qid name q = Ok True"
  shows "reply_for msg qid name q"
proof -
  have l: "12 \<le> length msg" and h: "u16_be (msg ! 0) (msg ! 1) = qid" "msg ! 2 AND 0x80 \<noteq> 0"
      "u16_be (msg ! 4) (msg ! 5) = 1"
    using assms by (auto simp: response_matches_head)
  obtain ls cc rest where q: "same_labels ls (filter (\<lambda>l. l \<noteq> []) (split_on 46 name))" "length cc = 2"
      "drop 12 msg = concat (map query_label ls) @ [0] @ be16 q @ cc @ rest"
    using assms by (auto simp: response_matches_head match_labels_iff)
  have e: "[msg ! 0, msg ! 1] = be16 qid" "[msg ! 4, msg ! 5] = [0, 1]"
    using h(1,3) be16_u16_be [of "msg ! 0" "msg ! 1"] be16_u16_be [of "msg ! 4" "msg ! 5"]
    by (auto simp: be16_eq)
  have "msg = be16 qid @ [msg ! 2, msg ! 3, 0, 1] @ take 6 (drop 6 msg) @
      concat (map query_label ls) @ [0] @ be16 q @ cc @ rest"
    using header_split [OF l] e q(3) by (metis append_Cons append_Nil)
  moreover have "length (take 6 (drop 6 msg)) = 6" using l by simp
  ultimately show "reply_for msg qid name q"
    unfolding reply_for_def using h(2) q by blast
qed

lemma reply_for_accepted:
  assumes "reply_for msg qid name q"
  shows "response_matches msg qid name q = Ok True"
proof -
  obtain f1 f2 counts ls cc rest where m: "f1 AND 0x80 \<noteq> 0" "length counts = 6" "length cc = 2"
      "same_labels ls (filter (\<lambda>l. l \<noteq> []) (split_on 46 name))"
      "msg = be16 qid @ [f1, f2, 0, 1] @ counts @ concat (map query_label ls) @ [0] @ be16 q @ cc @ rest"
    using assms unfolding reply_for_def by blast
  have d: "drop 12 msg = concat (map query_label ls) @ [0] @ be16 q @ cc @ rest"
    using m(2) by (simp add: m(5))
  have "u16_be (msg ! 0) (msg ! 1) = qid" "msg ! 2 = f1" "u16_be (msg ! 4) (msg ! 5) = 1" "12 \<le> length msg"
    using u16_be_be16 [of qid] m(2) by (simp_all add: m(5) nth_append u16_be_def from_be_def)
  then show "response_matches msg qid name q = Ok True"
    using m(1,3,4) d by (auto simp: response_matches_head match_labels_iff)
qed

lemma response_matches_iff: "response_matches msg qid name q = Ok True \<longleftrightarrow> reply_for msg qid name q"
  using accepted_reply_for reply_for_accepted by blast

lemma safe_response_matches: "safe (response_matches msg qid name q)"
  by (auto simp: response_matches_def safe_match_labels intro!: safe_bnd)

lemma match_labels_total: "\<exists>b. match_labels msg labels q pos = Ok b"
  by (induction msg labels q pos rule: match_labels.induct)
    (auto simp: Let_def u16_at_Ok split: option.splits)

lemma response_matches_total: "\<exists>b. response_matches msg qid name q = Ok b"
  by (auto simp: response_matches_def u16_at_Ok match_labels_total)

lemma same_check: "dns_response_matches = response_matches"
  by (intro ext) (simp add: dns_response_matches_def response_matches_def)

text \<open>A reply counts as the answer to a query exactly when it is one: it has the query's
  identifier, is marked as a response, holds one question, and that question is the name asked
  for, label by label in any case, with the type asked for; nothing else is accepted and no reply
  makes the check panic. Both copies of the check are the same function.\<close>

theorem dns_reply_accepted_iff:
  "(response_matches msg qid name q = Ok True \<longleftrightarrow>
     (\<exists>f1 f2 counts ls cc rest. f1 AND 0x80 \<noteq> 0 \<and> length counts = 6 \<and> length cc = 2 \<and>
        same_labels ls (filter (\<lambda>l. l \<noteq> []) (split_on 46 name)) \<and>
        msg = be16 qid @ [f1, f2, 0, 1] @ counts @ concat (map query_label ls) @ [0] @ be16 q @ cc @ rest)) \<and>
   response_matches msg qid name q \<noteq> Panic \<and>
   dns_response_matches msg qid name q = response_matches msg qid name q"
  using response_matches_iff [of msg qid name q] safe_response_matches [of msg qid name q]
  by (auto simp: reply_for_def safe_def same_check)

lemma same_labels_refl:
  "list_all (\<lambda>l. length l < 256) labels \<Longrightarrow> same_labels labels labels"
  by (induction labels) (auto simp: same_labels_def eq_ignore_ascii_case_def)

text \<open>The answer to one's own query is accepted: a reply that repeats the identifier and the
  question of the query, with the response bit set and anything behind the question, passes the
  check; for every name with labels of less than 256 bytes, also one with a trailing dot.\<close>

theorem own_query_answered:
  assumes "list_all (\<lambda>l. length l < 256) (split_on 46 name)" "f1 AND 0x80 \<noteq> 0" "length counts = 6"
  shows "response_matches (be16 qid @ [f1, f2, 0, 1] @ counts @ drop 12 (fst (build_query qid name q)) @ rest)
    qid name q = Ok True"
proof -
  let ?ls = "filter (\<lambda>l. l \<noteq> []) (split_on 46 name)"
  have "list_all (\<lambda>l. length l < 256) ?ls" using assms(1) by (auto simp: list_all_iff)
  moreover have "drop 12 (fst (build_query qid name q)) = concat (map query_label ?ls) @ [0] @ be16 q @ [0, 1]"
    by (simp add: build_query_def)
  ultimately have "reply_for (be16 qid @ [f1, f2, 0, 1] @ counts @ drop 12 (fst (build_query qid name q)) @ rest) qid name q"
    unfolding reply_for_def using assms(2,3)
    by (intro exI [of _ f1] exI [of _ f2] exI [of _ counts] exI [of _ ?ls] exI [of _ "[0, 1]"] exI [of _ rest])
      (simp add: same_labels_refl)
  then show ?thesis by (simp only: response_matches_iff)
qed

theorem own_query_answered_witness:
  "response_matches (be16 7 @ [0x81, 0, 0, 1] @ [0, 0, 0, 0, 0, 0] @ drop 12 (fst (build_query 7 (lit ''a.b'') 65)) @ [])
    7 (lit ''a.b'') 65 = Ok True"
  by (rule own_query_answered) (simp_all add: lit_def)

text \<open>The resolver behind the proxy cannot resolve a name that ends with a dot. Its query
  writes the empty label of the trailing dot as a label, so the question carries a stray byte, and
  no reply that repeats the question is accepted, whatever its flags, counts and records.\<close>

theorem trailing_dot_never_resolves:
  assumes "list_all (\<lambda>l. l \<noteq> [] \<and> length l < 256) (split_on 46 name)" "length counts = 6" "q \<noteq> 0"
  shows "dns_response_matches
    (be16 qid @ [f1, f2, 0, 1] @ counts @ drop 12 (fst (build_dns_query qid (name @ [46]) q)) @ rest)
    qid (name @ [46]) q = Ok False"
proof -
  let ?L = "split_on 46 name"
  let ?msg = "be16 qid @ [f1, f2, 0, 1] @ counts @ drop 12 (fst (build_dns_query qid (name @ [46]) q)) @ rest"
  have sp: "split_on 46 (name @ [46]) = ?L @ [[]]"
    using split_by_append [of "\<lambda>b. b = 46" 46 name "[]"] by simp
  have fl: "filter (\<lambda>l. l \<noteq> []) ?L = ?L" using assms(1) by (simp add: list_all_iff filter_id_conv)
  have "\<not> reply_for ?msg qid (name @ [46]) q"
  proof
    assume "reply_for ?msg qid (name @ [46]) q"
    then obtain g1 g2 cs ls cc r where m: "length cs = 6" "same_labels ls ?L"
        "?msg = be16 qid @ [g1, g2, 0, 1] @ cs @ concat (map query_label ls) @ [0] @ be16 q @ cc @ r"
      by (auto simp: reply_for_def sp fl)
    have len: "length (concat (map query_label ls)) = length (concat (map query_label ?L))"
      using m(2) unfolding same_labels_def
      by (induction rule: list_all2_induct) (auto simp: query_label_def dest: eq_ignore_length)
    have "drop 12 ?msg = concat (map query_label ls) @ 0 # be16 q @ cc @ r"
      unfolding m(3) using m(1) by simp
    then have "concat (map query_label ls) @ 0 # be16 q @ cc @ r =
        concat (map query_label ?L) @ 0 # 0 # be16 q @ [0, 1] @ rest"
      using assms(2) by (simp add: build_dns_query_def sp query_label_def)
    then have "be16 q @ cc @ r = 0 # be16 q @ [0, 1] @ rest" using len by simp
    then have "be16 q = be16 0" by (auto simp: be16_eq)
    then have "q = 0" by (simp only: be16_inject)
    then show False using assms(3) by simp
  qed
  then show ?thesis
    using response_matches_iff [of ?msg qid "name @ [46]" q] response_matches_total [of ?msg qid "name @ [46]" q]
    by (auto simp: same_check)
qed

theorem trailing_dot_never_resolves_witness:
  "dns_response_matches
    (be16 7 @ [0x81, 0x80, 0, 1] @ [0, 1, 0, 0, 0, 0] @ drop 12 (fst (build_dns_query 7 (lit ''a.b'' @ [46]) 1)) @ [])
    7 (lit ''a.b'' @ [46]) 1 = Ok False"
  by (rule trailing_dot_never_resolves) (simp_all add: lit_def)

text \<open>A resource record written out in a message, behind whatever name: its type, its class and time to live, the
  length of its data and the data.\<close>

definition record_in :: "bytes \<Rightarrow> u16 \<Rightarrow> bytes \<Rightarrow> bool" where
  "record_in msg rtype data \<longleftrightarrow> length data < 65536 \<and>
     (\<exists>pre class_ttl post. msg = pre @ be16 rtype @ class_ttl @ be16 (of_nat (length data)) @ data @ post \<and> length class_ttl = 6)"

lemma u16_at_take:
  assumes "u16_at msg i = Ok v"
  shows "take 2 (drop i msg) = be16 v" "i + 2 \<le> length msg"
proof -
  have i: "i + 1 < length msg" "v = u16_be (msg ! i) (msg ! (i + 1))"
    using assms by (auto simp: u16_at_def ix_def bnd_Ok_iff split: if_splits)
  then have "drop i msg = msg ! i # msg ! (i + 1) # drop (i + 2) msg" by (simp add: Cons_nth_drop_Suc)
  then show "take 2 (drop i msg) = be16 v" "i + 2 \<le> length msg" using i by (simp_all add: be16_u16_be)
qed

lemma cut_at: "i \<le> j \<Longrightarrow> j \<le> length msg \<Longrightarrow> drop i msg = take (j - i) (drop i msg) @ drop j msg"
  by (metis append_take_drop_id drop_drop le_add_diff_inverse2)

lemma record_at_in_reply:
  assumes "record_at msg pos = Ok (rtype, start, len)"
  shows "record_in msg rtype (take len (drop start msg))" "start + len \<le> length msg"
proof -
  obtain p l where p: "(u16_at msg p :: u16 opt) = Ok rtype" "(u16_at msg (p + 8) :: u16 opt) = Ok l" "start = p + 10" "len = unat l" "p + 10 + unat l \<le> length msg"
    using assms by (auto simp: record_at_def Let_def bnd_Ok_iff split: if_splits)
  then show fits: "start + len \<le> length msg" by simp
  let ?data = "take len (drop start msg)"
  have data: "length ?data = len" using fits by simp
  have "drop p msg = take 2 (drop p msg) @ take 6 (drop (p + 2) msg) @ take 2 (drop (p + 8) msg) @ ?data @ drop (start + len) msg"
    using cut_at [of p "p + 2" msg] cut_at [of "p + 2" "p + 8" msg] cut_at [of "p + 8" "p + 10" msg] cut_at [of start "start + len" msg] p(3-5)
    by simp
  then have "msg = take p msg @ be16 rtype @ take 6 (drop (p + 2) msg) @ be16 (of_nat (length ?data)) @ ?data @ drop (start + len) msg"
    using append_take_drop_id [of p msg] u16_at_take(1) [OF p(1)] u16_at_take(1) [OF p(2)] data p(4) by simp
  moreover have "length (take 6 (drop (p + 2) msg)) = 6" using p(5) by simp
  ultimately show "record_in msg rtype ?data"
    unfolding record_in_def using data p(4) unat_bounds(1) [of l] by (intro conjI) (simp, blast)
qed

lemma address_answers_in_reply:
  "address_answers msg q n pos = Ok a \<Longrightarrow> \<exists>data. record_in msg q data \<and>
     (q = QTYPE_A \<and> length data = 4 \<and> a = V4 (v4_from data) \<or> q = QTYPE_AAAA \<and> length data = 16 \<and> a = V6 (v6_from data))"
proof (induction n arbitrary: pos)
  case (Suc n)
  obtain rtype start len where r: "record_at msg pos = Ok (rtype, start, len)" using Suc.prems by (auto simp: bnd_Ok_iff)
  note found = record_at_in_reply [OF r]
  let ?data = "take len (drop start msg)"
  have size: "length ?data = len" using found(2) by simp
  consider (v4) "rtype = q" "q = QTYPE_A" "len = 4" | (v6) "rtype = q" "q = QTYPE_AAAA" "len = 16" "\<not> (q = QTYPE_A \<and> len = 4)"
    | (other) "address_answers msg q n (start + len) = Ok a"
    using Suc.prems r by (auto split: if_splits)
  then show ?case
  proof cases
    case v4
    have "?data = [msg ! start, msg ! (start + 1), msg ! (start + 2), msg ! (start + 3)]"
      using found(2) v4(3) by (intro nth_equalityI) (auto simp: less_Suc_eq numeral_eq_Suc)
    then have "a = V4 (v4_from ?data)" using Suc.prems r v4 found(2) by (simp add: ipv4_def v4_from_def)
    then show ?thesis using found(1) v4 size by blast
  next
    case v6
    then have "a = V6 (v6_from ?data)" using Suc.prems r found(2) by simp
    then show ?thesis using found(1) v6 size by blast
  next
    case other
    then show ?thesis by (rule Suc.IH)
  qed
qed simp

lemma svcparams_in_data:
  "svcparams_loop msg fin p = Ok ech \<Longrightarrow> fin \<le> length msg \<Longrightarrow> start \<le> p \<Longrightarrow> length ech < 65536 \<and>
     (\<exists>before after. take (fin - start) (drop start msg) = before @ be16 SVCPARAM_ECH @ be16 (of_nat (length ech)) @ ech @ after)"
proof (induction msg fin p rule: svcparams_loop.induct)
  case (1 msg fin p)
  have room: "p + 4 \<le> fin" using "1.prems"(1) unfolding svcparams_loop.simps [of msg fin p] by (simp split: if_splits)
  define key where "key = u16_be (msg ! p) (msg ! (p + 1))"
  define l where "l = u16_be (msg ! (p + 2)) (msg ! (p + 3))"
  have kl: "(u16_at msg p :: u16 opt) = Ok key" "(u16_at msg (p + 2) :: u16 opt) = Ok l"
    using room "1.prems"(2) u16_at_Ok [of p msg] u16_at_Ok [of "p + 2" msg] by (simp_all add: key_def l_def numeral_3_eq_3)
  have step: "svcparams_loop msg fin p = (if p + 4 + unat l > fin then Err () else if key = SVCPARAM_ECH then sl msg (p + 4) (p + 4 + unat l)
      else svcparams_loop msg fin (p + 4 + unat l))"
    unfolding svcparams_loop.simps [of msg fin p] kl bnd.simps Let_def using room by simp
  have fits: "p + 4 + unat l \<le> fin" using "1.prems"(1) unfolding step by (simp split: if_splits)
  show ?case
  proof (cases "key = SVCPARAM_ECH")
    case True
    have "sl msg (p + 4) (p + 4 + unat l) = (Ok ech :: bytes opt)" using "1.prems"(1) fits True unfolding step by simp
    then have ech: "ech = take (unat l) (drop (p + 4) msg)" "length ech = unat l" using fits "1.prems"(2) by auto
    have "drop start (take fin msg) = take (p - start) (drop start (take fin msg)) @ drop p (take fin msg)"
      using cut_at [of start p "take fin msg"] "1.prems"(2,3) room by simp
    also have "drop p (take fin msg) = be16 key @ be16 l @ ech @ drop (p + 4 + unat l) (take fin msg)"
      using cut_at [of p "p + 2" "take fin msg"] cut_at [of "p + 2" "p + 4" "take fin msg"] cut_at [of "p + 4" "p + 4 + unat l" "take fin msg"]
        u16_at_take(1) [OF kl(1)] u16_at_take(1) [OF kl(2)] "1.prems"(2) room fits ech(1)
      by (simp add: drop_take take_take min_def)
    finally show ?thesis using True ech(2) unat_bounds(1) [of l] by (auto simp: drop_take)
  next
    case False
    then have "svcparams_loop msg fin (p + 4 + unat l) = Ok ech" using "1.prems"(1) fits unfolding step by simp
    moreover have "\<not> p + 4 + unat l > fin" "start \<le> p + 4 + unat l" using fits "1.prems"(3) by simp_all
    ultimately show ?thesis using "1.IH" [OF room kl refl refl _ False _ "1.prems"(2)] by blast
  qed
qed

lemma https_answers_in_reply:
  "https_answers msg n pos = Ok ech \<Longrightarrow> length ech < 65536 \<and>
     (\<exists>before after. record_in msg RR_HTTPS (before @ be16 SVCPARAM_ECH @ be16 (of_nat (length ech)) @ ech @ after))"
proof (induction n arbitrary: pos)
  case (Suc n)
  obtain rtype start len where r: "record_at msg pos = Ok (rtype, start, len)" using Suc.prems by (auto simp: bnd_Ok_iff)
  note found = record_at_in_reply [OF r]
  consider (here) "rtype = RR_HTTPS" "parse_svcparams_ech msg start len = Ok ech" | (other) "https_answers msg n (start + len) = Ok ech"
    using Suc.prems r by (auto split: if_splits run.splits)
  then show ?case
  proof cases
    case here
    then obtain p where p: "skip_name msg (start + 2) = Ok p" "svcparams_loop msg (start + len) p = Ok ech"
      by (auto simp: parse_svcparams_ech_def Let_def bnd_Ok_iff split: if_splits)
    have "start \<le> p" using skip_name_less [OF p(1)] by simp
    from svcparams_in_data [OF p(2) found(2) this] obtain before after where "length ech < 65536"
        "take len (drop start msg) = before @ be16 SVCPARAM_ECH @ be16 (of_nat (length ech)) @ ech @ after" by auto
    then show ?thesis using found(1) here(1) by metis
  next
    case other
    then show ?thesis by (rule Suc.IH)
  qed
qed simp


text \<open>The address taken from a reply is that of the first record of the asked type with an
  address of that type's length, in whatever order aliases and other records come, with names
  written out or compressed.\<close>

theorem dns_answer_is_first_address:
  assumes "list_all rr_wf rrs" "length rrs < 65536" "wire_name_wf qname None" "length cc = 2" "length counts = 4"
  shows "parse_dns_answer (be16 qid @ [f1, f2, 0, 1] @ be16 (of_nat (length rrs)) @ counts @
      wire_name qname None @ be16 q @ cc @ concat (map rr_bytes rrs) @ extra) q =
    ok_or () (first_address q rrs)"
proof -
  let ?h = "be16 qid @ [f1, f2, 0, 1] @ be16 (of_nat (length rrs)) @ counts"
  let ?m = "?h @ wire_name qname None @ be16 q @ cc @ concat (map rr_bytes rrs) @ extra"
  have an: "(u16_at ?m 6 :: u16 opt) = Ok (of_nat (length rrs))"
    using u16_at_be16 [of 6 "be16 qid @ [f1, f2, 0, 1]"] by simp
  have qd: "(u16_at ?m 4 :: u16 opt) = Ok 1"
    using u16_at_be16 [of 4 "be16 qid @ [f1, f2]" 1] by (simp add: be16_eq)
  have sk: "skip_name ?m 12 = Ok (12 + length (wire_name qname None))"
    using skip_name_wire [OF assms(3), of 12 ?h] assms(5) by simp
  have "address_answers ?m q (length rrs) (16 + length (wire_name qname None)) = ok_or () (first_address q rrs)"
    using address_answers_first [OF assms(1), of "16 + length (wire_name qname None)"
        "?h @ wire_name qname None @ be16 q @ cc" extra q] assms(4,5) by simp
  moreover have "12 + length (wire_name qname None) + 4 = 16 + length (wire_name qname None)" by simp
  ultimately show ?thesis
    using an qd sk assms(2,5) by (simp add: parse_dns_answer_def unat_of_nat)
qed

theorem dns_answer_is_first_address_witness:
  "parse_dns_answer (be16 7 @ [0x81, 0x80, 0, 1] @ be16 (of_nat 1) @ [0, 0, 0, 0] @
      wire_name [lit ''a''] None @ be16 1 @ [0, 1] @
      concat (map rr_bytes [\<lparr>rr_labels = [], rr_ptr = Some 0xc00c, rr_type = 1,
        rr_class_ttl = [0, 1, 0, 0, 0, 60], rr_data = [10, 0, 0, 1]\<rparr>]) @ []) 1 =
    ok_or () (Some (V4 (v4_from [10, 0, 0, 1])))"
proof -
  have "be16 0xc00c ! 0 AND 0xc0 = 0xc0" by (simp add: be16_eq)
  then show ?thesis
    using dns_answer_is_first_address [of "[\<lparr>rr_labels = [], rr_ptr = Some 0xc00c, rr_type = 1,
        rr_class_ttl = [0, 1, 0, 0, 0, 60], rr_data = [10, 0, 0, 1]\<rparr>]" "[lit ''a'']" "[0, 1]"
        "[0, 0, 0, 0]" 7 "0x81" "0x80" 1 "[]"]
    by (simp add: rr_wf_def wire_name_wf_def rr_address_def QTYPE_A_def lit_def)
qed

end
