(* ===== verification/Resolver.thy ===== *)
theory Resolver
  imports Socks Dns
begin

text \<open>
  Resolving names through the tunnel (\<^verbatim>\<open>aether/src/socks.rs\<close>): the resolvers asked, the exchange
  with them one after another, and the preference for IPv4. The datagram channel of the tunnel is
  given by the outcome of each send, the random identifier of each query, and the sequence of what
  the waiting code sees: a datagram, the passing of its deadline, or the end of the channel.
\<close>

section \<open>The resolvers\<close>

definition sep_dns :: "u8 \<Rightarrow> bool" where
  "sep_dns b \<longleftrightarrow> b \<in> {44, 32, 59}"

definition resolver_entry :: "str \<Rightarrow> socket_addr option" where
  "resolver_entry entry = (case parse_socket_addr entry of
     Some s \<Rightarrow> Some s | None \<Rightarrow> map_option (\<lambda>ip. socket_new ip 53) (parse_ip entry))"

fun add_resolvers :: "socket_addr list \<Rightarrow> str list \<Rightarrow> socket_addr list" where
  "add_resolvers servers [] = servers"
| "add_resolvers servers (token # ts) =
     (let entry = trim token in
      if entry = [] then add_resolvers servers ts
      else case resolver_entry entry of
        None \<Rightarrow> add_resolvers servers ts
      | Some server \<Rightarrow>
        add_resolvers (if server \<in> set servers then servers else servers @ [server]) ts)"

definition default_resolvers :: "socket_addr list" where
  "default_resolvers = [SockV4 (ipv4 1 1 1 1) 53, SockV4 (ipv4 1 0 0 1) 53]"

definition resolver_addresses :: "(string \<Rightarrow> str option) \<Rightarrow> socket_addr list" where
  "resolver_addresses env =
     (let configured = (case env ''AETHER_DNS'' of Some v \<Rightarrow> v | None \<Rightarrow> []);
          servers = add_resolvers [] (split_by sep_dns configured)
      in if servers = [] then default_resolvers else servers)"

section \<open>The exchange\<close>

datatype dns_answer = Found ip_addr | NoRecord | NoSuchName

datatype dns_event = DnsReply socket_addr bytes | ChannelClosed | DeadlinePassed

record dns_io =
  send_to :: "nat \<Rightarrow> socket_addr \<Rightarrow> bytes \<Rightarrow> aether_error option"
  query_id :: "nat \<Rightarrow> u16"

definition read_answer :: "bytes \<Rightarrow> u16 \<Rightarrow> (aether_error, dns_answer) run" where
  "read_answer m q = (case parse_dns_answer m q of
     Ok ip \<Rightarrow> Ok (Found ip)
   | Err _ \<Rightarrow> Ok (if dns_rcode m = Some RCODE_NXDOMAIN then NoSuchName else NoRecord)
   | Panic \<Rightarrow> Panic)"

text \<open>Waiting for the answer to one query; \<open>None\<close> is the timeout. When nothing more arrives the
  deadline passes.\<close>

fun await_answer ::
    "str \<Rightarrow> u16 \<Rightarrow> u16 \<Rightarrow> dns_event list \<Rightarrow> (aether_error, dns_answer option) run \<times> dns_event list" where
  "await_answer name q qid [] = (Ok None, [])"
| "await_answer name q qid (DeadlinePassed # r) = (Ok None, r)"
| "await_answer name q qid (ChannelClosed # r) = (Err (Other (lit ''dns channel closed'')), r)"
| "await_answer name q qid (DnsReply src m # r) =
     (case dns_response_matches m qid name q of
        Ok True \<Rightarrow> (bnd (read_answer m q) (\<lambda>a. Ok (Some a)), r)
      | Panic \<Rightarrow> (Panic, r)
      | _ \<Rightarrow> await_answer name q qid r)"

fun try_servers ::
    "dns_io \<Rightarrow> str \<Rightarrow> u16 \<Rightarrow> nat \<Rightarrow> aether_error \<Rightarrow> socket_addr list \<Rightarrow> dns_event list \<Rightarrow>
     (aether_error, dns_answer) run \<times> nat \<times> dns_event list" where
  "try_servers io name q n lst [] evs = (Err lst, n, evs)"
| "try_servers io name q n lst (server # ss) evs =
     (let (query, qid) = build_dns_query (query_id io n) name q in
      case send_to io n server query of
        Some e \<Rightarrow> try_servers io name q (Suc n) e ss evs
      | None \<Rightarrow>
        (case await_answer name q qid evs of
           (Ok (Some a), r) \<Rightarrow> (Ok a, Suc n, r)
         | (Ok None, r) \<Rightarrow>
           try_servers io name q (Suc n) (Other (lit ''dns timeout from '' @ show_socket server)) ss r
         | (Err e, r) \<Rightarrow> (Err e, Suc n, r)
         | (Panic, r) \<Rightarrow> (Panic, Suc n, r)))"

definition dns_exchange ::
    "(string \<Rightarrow> str option) \<Rightarrow> dns_io \<Rightarrow> str \<Rightarrow> u16 \<Rightarrow> nat \<Rightarrow> dns_event list \<Rightarrow>
     (aether_error, dns_answer) run \<times> nat \<times> dns_event list" where
  "dns_exchange env io name q n evs =
     try_servers io name q n (Other (lit ''dns timeout'')) (resolver_addresses env) evs"

definition resolve_preferring_v4 ::
    "(string \<Rightarrow> str option) \<Rightarrow> dns_io \<Rightarrow> dns_event list \<Rightarrow> str \<Rightarrow> (aether_error, ip_addr) run" where
  "resolve_preferring_v4 env io evs name =
     (case dns_exchange env io name QTYPE_A 0 evs of (r, n, evs') \<Rightarrow>
      bnd r (\<lambda>a. case a of
          Found ip \<Rightarrow> Ok ip
        | NoSuchName \<Rightarrow> Err (Other (name @ lit '' does not exist''))
        | NoRecord \<Rightarrow>
          bnd (fst (dns_exchange env io name QTYPE_AAAA n evs')) (\<lambda>a.
            case a of
              Found ip \<Rightarrow> Ok ip
            | _ \<Rightarrow> Err (Other (lit ''no A or AAAA record for '' @ name)))))"

text \<open>\<^verbatim>\<open>dns_resolve\<close> opens a datagram channel in the tunnel for the exchange; \<open>open_udp\<close> is its outcome.\<close>

record dns_world =
  open_udp :: "(aether_error, dns_io \<times> dns_event list) run"

definition dns_resolve ::
    "(string \<Rightarrow> str option) \<Rightarrow> dns_world \<Rightarrow> str \<Rightarrow> (aether_error, ip_addr) run" where
  "dns_resolve env w name = bnd (open_udp w) (\<lambda>(io, evs). resolve_preferring_v4 env io evs name)"

definition resolve ::
    "(string \<Rightarrow> str option) \<Rightarrow> dns_world \<Rightarrow> target \<Rightarrow> (aether_error, ip_addr) run" where
  "resolve env w target = (case target of
     TIp ip \<Rightarrow> Ok ip
   | TDomain name \<Rightarrow> (case parse_ip name of Some ip \<Rightarrow> Ok ip | None \<Rightarrow> dns_resolve env w name))"

section \<open>Lemmas\<close>

lemma add_resolvers_distinct: "distinct servers \<Longrightarrow> distinct (add_resolvers servers ts)"
  by (induction servers ts rule: add_resolvers.induct) (auto simp: Let_def split: option.splits)

lemma add_resolvers_set:
  "set (add_resolvers servers ts) = set servers \<union> {s. \<exists>t \<in> set ts. trim t \<noteq> [] \<and> resolver_entry (trim t) = Some s}"
  by (induction servers ts rule: add_resolvers.induct) (auto simp: Let_def split: option.splits)

lemma try_servers_Cons [simp]:
  "try_servers io name q n lst (server # ss) evs =
     (case send_to io n server (fst (build_dns_query (query_id io n) name q)) of
        Some e \<Rightarrow> try_servers io name q (Suc n) e ss evs
      | None \<Rightarrow>
        (case await_answer name q (query_id io n) evs of
           (Ok (Some a), r) \<Rightarrow> (Ok a, Suc n, r)
         | (Ok None, r) \<Rightarrow>
           try_servers io name q (Suc n) (Other (lit ''dns timeout from '' @ show_socket server)) ss r
         | (Err e, r) \<Rightarrow> (Err e, Suc n, r)
         | (Panic, r) \<Rightarrow> (Panic, Suc n, r)))"
  by (simp add: build_dns_query_def)

declare try_servers.simps(2) [simp del]

definition ignored :: "str \<Rightarrow> u16 \<Rightarrow> u16 \<Rightarrow> dns_event \<Rightarrow> bool" where
  "ignored name q qid ev = (case ev of
     DnsReply src m \<Rightarrow> dns_response_matches m qid name q = Ok False | _ \<Rightarrow> False)"

lemma await_ignored:
  "list_all (ignored name q qid) w \<Longrightarrow> await_answer name q qid (w @ r) = await_answer name q qid r"
  by (induction w) (auto simp: ignored_def split: dns_event.splits)

lemma await_Found:
  "await_answer name q qid evs = (Ok (Some (Found ip)), t) \<Longrightarrow>
     \<exists>src m. DnsReply src m \<in> set evs \<and> dns_response_matches m qid name q = Ok True \<and> parse_dns_answer m q = Ok ip"
proof (induction evs)
  case (Cons ev evs)
  show ?case
  proof (cases ev)
    case (DnsReply src m)
    show ?thesis
    proof (cases "dns_response_matches m qid name q = Ok True")
      case True
      then have "parse_dns_answer m q = Ok ip"
        using Cons.prems DnsReply by (auto simp: read_answer_def split: run.splits if_splits)
      then show ?thesis using True DnsReply by (intro exI [of _ src] exI [of _ m]) simp
    next
      case False
      then have "await_answer name q qid evs = (Ok (Some (Found ip)), t)"
        using Cons.prems DnsReply by (auto split: run.splits bool.splits)
      from Cons.IH [OF this] show ?thesis by (meson list.set_intros(2))
    qed
  qed (use Cons.prems in simp_all)
qed simp

lemma await_suffix: "await_answer name q qid evs = (x, t) \<Longrightarrow> set t \<subseteq> set evs"
proof (induction evs)
  case (Cons ev evs)
  then show ?case by (cases ev) (auto split: run.splits bool.splits)
qed simp

lemma try_servers_Found:
  "try_servers io name q n lst ss evs = (Ok (Found ip), n', t) \<Longrightarrow>
     \<exists>k src m. n \<le> k \<and> k < n + length ss \<and> DnsReply src m \<in> set evs \<and>
       dns_response_matches m (query_id io k) name q = Ok True \<and> parse_dns_answer m q = Ok ip"
proof (induction ss arbitrary: n lst evs)
  case (Cons server ss)
  show ?case
  proof (cases "send_to io n server (fst (build_dns_query (query_id io n) name q))")
    case (Some e)
    then have "try_servers io name q (Suc n) e ss evs = (Ok (Found ip), n', t)"
      using Cons.prems by simp
    from Cons.IH [OF this] show ?thesis by auto (metis Suc_leD)
  next
    case None
    obtain x u where a: "await_answer name q (query_id io n) evs = (x, u)" by fastforce
    have t: "(case x of Ok (Some a) \<Rightarrow> (Ok a, Suc n, u)
        | Ok None \<Rightarrow> try_servers io name q (Suc n) (Other (lit ''dns timeout from '' @ show_socket server)) ss u
        | Err e \<Rightarrow> (Err e, Suc n, u) | Panic \<Rightarrow> (Panic, Suc n, u)) = (Ok (Found ip), n', t)"
      using Cons.prems None a by (simp split: run.splits option.splits)
    then consider "x = Ok (Some (Found ip))"
      | "try_servers io name q (Suc n) (Other (lit ''dns timeout from '' @ show_socket server)) ss u = (Ok (Found ip), n', t)"
      by (auto split: run.splits option.splits)
    then show ?thesis
    proof cases
      case 1
      then show ?thesis using await_Found [of name q "query_id io n" evs ip u] a by (intro exI [of _ n]) auto
    next
      case 2
      then show ?thesis using Cons.IH [OF 2] await_suffix [OF a] by auto (metis Suc_leD subsetD)
    qed
  qed
qed simp

text \<open>The resolvers before the one that answers are silent: whatever arrives in their time is not the
  answer to their query.\<close>

lemma try_servers_silent:
  assumes "length ws = length before" "\<forall>i server query. send_to io i server query = None"
    "\<And>i. i < length ws \<Longrightarrow> list_all (ignored name q (query_id io (n + i))) (ws ! i)"
    "list_all (ignored name q (query_id io (n + length before))) w"
    "dns_response_matches m (query_id io (n + length before)) name q = Ok True"
    "read_answer m q = Ok a"
  shows "try_servers io name q n lst (before @ server # after)
      (concat (map (\<lambda>w. w @ [DeadlinePassed]) ws) @ w @ DnsReply src m # r) =
    (Ok a, Suc (n + length before), r)"
  using assms
proof (induction before arbitrary: ws n lst)
  case Nil
  then show ?case by (simp add: await_ignored)
next
  case (Cons s0 before)
  obtain w0 ws' where ws: "ws = w0 # ws'" using Cons.prems(1) by (cases ws) auto
  have w0: "list_all (ignored name q (query_id io n)) w0" using Cons.prems(3) [of 0] by (simp add: ws)
  have "try_servers io name q (Suc n) (Other (lit ''dns timeout from '' @ show_socket s0)) (before @ server # after)
      (concat (map (\<lambda>w. w @ [DeadlinePassed]) ws') @ w @ DnsReply src m # r) =
    (Ok a, Suc (Suc n + length before), r)"
  proof (rule Cons.IH)
    show "list_all (ignored name q (query_id io (Suc n + i))) (ws' ! i)" if "i < length ws'" for i
      using Cons.prems(3) [of "Suc i"] that by (simp add: ws)
  qed (use Cons.prems in \<open>simp_all add: ws\<close>)
  then show ?case
    using Cons.prems(2) w0 by (simp add: ws await_ignored)
qed


lemma try_servers_frame:
  "try_servers io name q n lst ss evs = (x, n', t) \<Longrightarrow> n' \<le> n + length ss \<and> set t \<subseteq> set evs"
proof (induction ss arbitrary: n lst evs)
  case (Cons server ss)
  show ?case
  proof (cases "send_to io n server (fst (build_dns_query (query_id io n) name q))")
    case (Some e)
    then have "try_servers io name q (Suc n) e ss evs = (x, n', t)" using Cons.prems by simp
    from Cons.IH [OF this] show ?thesis by simp
  next
    case None
    obtain y u where a: "await_answer name q (query_id io n) evs = (y, u)" by fastforce
    have "n' = Suc n \<and> t = u \<or> try_servers io name q (Suc n)
        (Other (lit ''dns timeout from '' @ show_socket server)) ss u = (x, n', t)"
      using Cons.prems None a by (auto split: run.splits option.splits)
    then show ?thesis
      using Cons.IH [of "Suc n" "Other (lit ''dns timeout from '' @ show_socket server)" u] await_suffix [OF a]
      by auto
  qed
qed simp

text \<open>A reply for the examples: the address 10.0.0.1 for the name \<^verbatim>\<open>a\<close>, to a query with identifier 7.\<close>

definition demo_reply :: bytes where
  "demo_reply = [0, 7, 0x80, 0, 0, 1, 0, 1, 0, 0, 0, 0, 1, 97, 0, 0, 1, 0, 1,
     0xc0, 12, 0, 1, 0, 1, 0, 0, 0, 60, 0, 4, 10, 0, 0, 1]"

definition demo_io :: dns_io where
  "demo_io = \<lparr>send_to = (\<lambda>_ _ _. None), query_id = (\<lambda>_. 7)\<rparr>"

definition no_env :: "string \<Rightarrow> str option" where
  "no_env _ = None"

lemma demo_matches: "dns_response_matches demo_reply (query_id demo_io k) (lit ''a'') 1 = Ok True"
  unfolding same_check response_matches_iff reply_for_def
  by (rule exI [of _ "0x80"], rule exI [of _ 0], rule exI [of _ "[0,1,0,0,0,0]"], rule exI [of _ "[lit ''a'']"],
     rule exI [of _ "[0,1]"], rule exI [of _ "drop 19 demo_reply"])
   (simp add: demo_reply_def demo_io_def be16_eq query_label_def same_labels_def eq_ignore_ascii_case_def lit_def)

lemma demo_answer: "parse_dns_answer demo_reply 1 = Ok (V4 (v4_from [10, 0, 0, 1]))"
  by (simp add: parse_dns_answer_def demo_reply_def u16_at_def ix_def skip_name.simps record_at_def u16_be_def
      from_be_def QTYPE_A_def get_def ipv4_def v4_from_def)

lemma demo_send [simp]: "send_to demo_io i server query = None"
  by (simp add: demo_io_def)

lemma trim_Nil [simp]: "trim [] = []"
  by (simp add: trim_def trim_start_def trim_end_def strip.simps)

lemma no_env_resolvers: "resolver_addresses no_env = [SockV4 (ipv4 1 1 1 1) 53, SockV4 (ipv4 1 0 0 1) 53]"
  by (simp add: resolver_addresses_def no_env_def default_resolvers_def)

section \<open>Properties\<close>

text \<open>C14. An address comes only from an answer to one's own question. What \<^verbatim>\<open>resolve_preferring_v4\<close>
  returns is read from a datagram that arrived, carries the identifier of one of the queries sent
  (each resolver is asked at most twice), is a response with one question, and that question is
  the name asked for, label by label, and the type asked for, A or AAAA; where the datagram came
  from plays no part.\<close>

theorem dns_resolve_authentic:
  assumes "resolve_preferring_v4 env io evs name = Ok ip"
  shows "\<exists>k src m q. k < 2 * length (resolver_addresses env) \<and> q \<in> {QTYPE_A, QTYPE_AAAA} \<and>
    DnsReply src m \<in> set evs \<and> parse_dns_answer m q = Ok ip \<and>
    (\<exists>f1 f2 counts ls cc rest. f1 AND 0x80 \<noteq> 0 \<and> length counts = 6 \<and> length cc = 2 \<and>
       same_labels ls (filter (\<lambda>l. l \<noteq> []) (split_on 46 name)) \<and>
       m = be16 (query_id io k) @ [f1, f2, 0, 1] @ counts @ concat (map query_label ls) @ [0] @ be16 q @ cc @ rest)"
proof -
  let ?n = "length (resolver_addresses env)"
  obtain x n t where e: "dns_exchange env io name QTYPE_A 0 evs = (x, n, t)" by (cases "dns_exchange env io name QTYPE_A 0 evs")
  have f: "n \<le> ?n" "set t \<subseteq> set evs"
    using try_servers_frame e unfolding dns_exchange_def by fastforce+
  have "\<exists>k src m q. k < 2 * ?n \<and> q \<in> {QTYPE_A, QTYPE_AAAA} \<and> DnsReply src m \<in> set evs \<and>
      dns_response_matches m (query_id io k) name q = Ok True \<and> parse_dns_answer m q = Ok ip"
  proof (cases "x = Ok (Found ip)")
    case True
    then obtain k src m where "k < ?n" "DnsReply src m \<in> set evs"
      "dns_response_matches m (query_id io k) name QTYPE_A = Ok True" "parse_dns_answer m QTYPE_A = Ok ip"
      using try_servers_Found [of io name QTYPE_A 0 "Other (lit ''dns timeout'')" "resolver_addresses env" evs ip n t] e
      unfolding dns_exchange_def by auto
    then show ?thesis by (intro exI [of _ k] exI [of _ src] exI [of _ m] exI [of _ QTYPE_A]) auto
  next
    case False
    then have "fst (dns_exchange env io name QTYPE_AAAA n t) = Ok (Found ip)"
      using assms e
      by (cases x; cases "fst (dns_exchange env io name QTYPE_AAAA n t)")
        (auto simp: resolve_preferring_v4_def split: dns_answer.splits)
    then obtain n' t' where "try_servers io name QTYPE_AAAA n (Other (lit ''dns timeout'')) (resolver_addresses env) t =
        (Ok (Found ip), n', t')"
      unfolding dns_exchange_def by (metis prod.collapse)
    from try_servers_Found [OF this] obtain k src m where "n \<le> k" "k < n + ?n" "DnsReply src m \<in> set t"
      "dns_response_matches m (query_id io k) name QTYPE_AAAA = Ok True" "parse_dns_answer m QTYPE_AAAA = Ok ip"
      by blast
    then show ?thesis
      using f by (intro exI [of _ k] exI [of _ src] exI [of _ m] exI [of _ QTYPE_AAAA]) auto
  qed
  then obtain k src m q where r: "k < 2 * ?n" "q \<in> {QTYPE_A, QTYPE_AAAA}" "DnsReply src m \<in> set evs"
      "parse_dns_answer m q = Ok ip" "reply_for m (query_id io k) name q"
    unfolding same_check response_matches_iff by blast
  show ?thesis
    by (intro exI [of _ k] exI [of _ src] exI [of _ m] exI [of _ q] conjI r(1-4) r(5) [unfolded reply_for_def])
qed

theorem dns_resolve_authentic_witness:
  "\<exists>k src m q. k < 2 * length (resolver_addresses no_env) \<and> q \<in> {QTYPE_A, QTYPE_AAAA} \<and>
    DnsReply src m \<in> set [DnsReply any_bound demo_reply] \<and> parse_dns_answer m q = Ok (V4 (v4_from [10, 0, 0, 1])) \<and>
    (\<exists>f1 f2 counts ls cc rest. f1 AND 0x80 \<noteq> 0 \<and> length counts = 6 \<and> length cc = 2 \<and>
       same_labels ls (filter (\<lambda>l. l \<noteq> []) (split_on 46 (lit ''a''))) \<and>
       m = be16 (query_id demo_io k) @ [f1, f2, 0, 1] @ counts @ concat (map query_label ls) @ [0] @ be16 q @ cc @ rest)"
  by (rule dns_resolve_authentic)
    (simp add: resolve_preferring_v4_def dns_exchange_def no_env_resolvers demo_answer demo_matches read_answer_def
      QTYPE_A_def)

text \<open>C33. Silent resolvers are passed over. If the resolvers before one of them let their time pass,
  whatever else arrives meanwhile, late answers to earlier queries included, and that one answers
  its own query, the exchange returns what its answer holds and leaves the rest of the channel
  untouched.\<close>

theorem dns_failover:
  assumes "resolver_addresses env = before @ server # after" "length ws = length before"
    "\<forall>i server query. send_to io i server query = None"
    "\<And>i. i < length ws \<Longrightarrow> list_all (ignored name q (query_id io i)) (ws ! i)"
    "list_all (ignored name q (query_id io (length before))) w"
    "dns_response_matches m (query_id io (length before)) name q = Ok True"
    "parse_dns_answer m q = Ok ip"
  shows "dns_exchange env io name q 0
      (concat (map (\<lambda>w. w @ [DeadlinePassed]) ws) @ w @ DnsReply src m # r) =
    (Ok (Found ip), Suc (length before), r)"
  using try_servers_silent [of ws before io name q 0 w m "Found ip" "Other (lit ''dns timeout'')" server after src r]
    assms
  by (simp add: dns_exchange_def read_answer_def)

theorem dns_failover_witness:
  "dns_exchange no_env demo_io (lit ''a'') 1 0
      (concat (map (\<lambda>w. w @ [DeadlinePassed]) [[]]) @ [] @ DnsReply any_bound demo_reply # []) =
    (Ok (Found (V4 (v4_from [10, 0, 0, 1]))), Suc (length [SockV4 (ipv4 1 1 1 1) 53]), [])"
  by (rule dns_failover [where server = "SockV4 (ipv4 1 0 0 1) 53" and after = "[]"])
    (simp_all add: no_env_resolvers demo_answer demo_matches)

text \<open>C39. There is always a resolver to ask, and none is asked twice in a row: the list is never
  empty, holds no duplicates, and is exactly what the setting names, as addresses with or without
  a port, or Cloudflare's two when it names none.\<close>

theorem resolvers_well_formed:
  "resolver_addresses env \<noteq> [] \<and> distinct (resolver_addresses env) \<and>
   (let named = {s. \<exists>t \<in> set (split_by (\<lambda>b. b \<in> {44, 32, 59}) (case env ''AETHER_DNS'' of Some v \<Rightarrow> v | None \<Rightarrow> [])).
        trim t \<noteq> [] \<and> (case parse_socket_addr (trim t) of Some x \<Rightarrow> s = x
          | None \<Rightarrow> \<exists>ip. parse_ip (trim t) = Some ip \<and> s = socket_new ip 53)}
    in set (resolver_addresses env) =
      (if named = {} then {SockV4 (ipv4 1 1 1 1) 53, SockV4 (ipv4 1 0 0 1) 53} else named))"
proof -
  have sd: "sep_dns = (\<lambda>b. b \<in> {44, 32, 59})" by (intro ext) (simp add: sep_dns_def)
  have ne: "ipv4 1 1 1 1 \<noteq> ipv4 1 0 0 1" by (simp add: ipv4_def from_be_def)
  let ?ts = "split_by (\<lambda>b. b \<in> {44, 32, 59}) (case env ''AETHER_DNS'' of Some v \<Rightarrow> v | None \<Rightarrow> [])"
  let ?as = "add_resolvers [] ?ts"
  have r: "(case parse_socket_addr e of Some x \<Rightarrow> s = x
      | None \<Rightarrow> \<exists>ip. parse_ip e = Some ip \<and> s = socket_new ip 53) \<longleftrightarrow> resolver_entry e = Some s" for e s
    by (auto simp: resolver_entry_def split: option.splits)
  have "set ?as = {s. \<exists>t \<in> set ?ts. trim t \<noteq> [] \<and> resolver_entry (trim t) = Some s}"
    using add_resolvers_set [of "[]" ?ts] by simp
  then show ?thesis
    using add_resolvers_distinct [of "[]" ?ts] ne
    by (auto simp: resolver_addresses_def r sd default_resolvers_def simp flip: set_empty)
qed

end
