(* ===== verification/Connect.thy ===== *)
theory Connect
  imports Resolver Sniff
begin

text \<open>
  A CONNECT request from decision to relay (\<^verbatim>\<open>aether/src/socks.rs\<close>): reading a name out of the
  client's first bytes, the routing decision, the direct path, the organisation's gateway proxy
  inside the tunnel, and the tunnel itself. The client's socket carries what else the handler
  changes: whether the gateway is still trusted, and what has been done towards the outside. The
  world behind it, the tunnel's network stack, the system's resolver and sockets, and the timers,
  is a record of outcomes.
\<close>

section \<open>State and world\<close>

datatype act =
    OpenTcp socket_addr
  | SendUp bytes
  | TryDirect socket_addr
  | WriteDirect bytes
  | RelayTunneled
  | RelayDirect

record conn = sock +
  gw_healthy :: bool
  acts :: "act list"

datatype gw_event = GwChunk bytes | GwClosed | GwSilence

record ('re, 'net) world =
  w_env :: "string \<Rightarrow> str option"
  w_deps :: "('re, 'net) deps"
  w_routes :: "('re, 'net) rule_set"
  w_gateway :: "socket_addr option"
  w_peer :: "(io_error, socket_addr) run"
  w_dns :: dns_world
  w_open_tcp :: "socket_addr \<Rightarrow> (aether_error, unit) run"
  w_gw_open_late :: bool
  w_gw_send :: "aether_error option"
  w_gw_in :: "gw_event list"
  w_sniff_silent :: bool
  w_lookup :: "str \<Rightarrow> u16 \<Rightarrow> (io_error, socket_addr list) run"
  w_tcp_connect :: "socket_addr \<Rightarrow> io_error option"
  w_direct_timeout :: "nat option"
  w_direct_write :: "io_error option"
  w_send_up :: "aether_error option"

definition emit :: "act \<Rightarrow> ('x conn_scheme, unit) io" where
  "emit a s = (Ok (), s\<lparr>acts := acts s @ [a]\<rparr>)"

definition lift :: "(aether_error, 'a) run \<Rightarrow> ('s, 'a) io" where
  "lift r s = (r, s)"

section \<open>Routing\<close>

definition decide_route ::
    "('re, 'net) deps \<Rightarrow> ('re, 'net) rule_set \<Rightarrow> target \<Rightarrow> str option \<Rightarrow> u16 \<Rightarrow> action" where
  "decide_route d rs target sniffed port = (case sniffed of
     Some name \<Rightarrow> (case decide d rs (Domain name) port of
         Proxy \<Rightarrow> decide d rs (host_of target) port
       | decided \<Rightarrow> decided)
   | None \<Rightarrow> decide d rs (host_of target) port)"

definition sniff_enabled :: "(string \<Rightarrow> str option) \<Rightarrow> bool" where
  "sniff_enabled env \<longleftrightarrow> env ''AETHER_ROUTE_SNIFF'' \<notin> {Some (lit ''0''), Some (lit ''off''), Some (lit ''false'')}"

definition read_sniff_head :: "('re, 'net) world \<Rightarrow> ('x conn_scheme, bytes option) io" where
  "read_sniff_head w =
     (if w_sniff_silent w then ret (Some [])
      else seq (attempt (read PEEK_BUDGET)) (\<lambda>r. ret (case r of
        Ok bs \<Rightarrow> if bs = [] then None else Some bs | _ \<Rightarrow> None)))"

section \<open>The gateway\<close>

definition UA_REGISTER :: str where "UA_REGISTER = lit ''WARP for Android''"
definition GATEWAY_HEAD_LIMIT :: nat where "GATEWAY_HEAD_LIMIT = 8192"

definition gateway_proxy :: "('re, 'net) world \<Rightarrow> bool \<Rightarrow> socket_addr option" where
  "gateway_proxy w healthy = (if healthy then w_gateway w else None)"

definition retire_gateway :: "('x conn_scheme, unit) io" where
  "retire_gateway s = (Ok (), s\<lparr>gw_healthy := False\<rparr>)"

definition should_use_gateway :: "u16 \<Rightarrow> bool" where
  "should_use_gateway port \<longleftrightarrow> port = 80 \<or> port = 443"

definition build_proxy_connect :: "str \<Rightarrow> u16 \<Rightarrow> bytes" where
  "build_proxy_connect target port =
     (let authority = (if contains target [58] \<and> \<not> starts_with target [91]
            then [91] @ target @ [93, 58] @ show_nat (unat port)
            else target @ [58] @ show_nat (unat port))
      in lit ''CONNECT '' @ authority @ lit '' HTTP/1.1'' @ [13, 10] @ lit ''Host: '' @ authority @ [13, 10] @
         lit ''User-Agent: '' @ UA_REGISTER @ [13, 10, 13, 10])"

definition proxy_connect_succeeded :: "bytes \<Rightarrow> bool option" where
  "proxy_connect_succeeded head =
     (let text = utf8_lossy head in
      case find_sub [13, 10] text of None \<Rightarrow> None | Some line_end \<Rightarrow>
     (case get (split_whitespace (take line_end text)) 1 of None \<Rightarrow> None | Some word \<Rightarrow>
     (case parse_u16 word of None \<Rightarrow> None | Some status \<Rightarrow>
      Some (200 \<le> status \<and> status < 300))))"

definition find_head_end :: "bytes \<Rightarrow> nat option" where
  "find_head_end buffer = map_option (\<lambda>at. at + 4) (find_sub [13, 10, 13, 10] buffer)"

definition first_line_of :: "bytes \<Rightarrow> str" where
  "first_line_of head = trim (case lines (utf8_lossy head) of l # _ \<Rightarrow> l | [] \<Rightarrow> lit ''no status'')"

text \<open>The loop of \<^verbatim>\<open>open_through_gateway\<close> over what the gateway sends; it returns what came behind the
  response head and what is still to come. When nothing more comes its timeout passes.\<close>

fun gateway_loop ::
    "socket_addr \<Rightarrow> str \<Rightarrow> u16 \<Rightarrow> bytes \<Rightarrow> gw_event list \<Rightarrow> (aether_error, bytes \<times> gw_event list) run" where
  "gateway_loop proxy authority port head [] =
     Err (Other (lit ''gateway '' @ show_socket proxy @ lit '' did not answer in time''))"
| "gateway_loop proxy authority port head (GwSilence # evs) =
     Err (Other (lit ''gateway '' @ show_socket proxy @ lit '' did not answer in time''))"
| "gateway_loop proxy authority port head (GwClosed # evs) =
     Err (Other (lit ''gateway '' @ show_socket proxy @ lit '' closed the connection''))"
| "gateway_loop proxy authority port head (GwChunk chunk # evs) =
     (let head = head @ chunk in
      case find_head_end head of
        Some at \<Rightarrow>
          (case proxy_connect_succeeded head of
             None \<Rightarrow> Err (Other (lit ''gateway '' @ show_socket proxy @ lit '' sent a malformed response''))
           | Some False \<Rightarrow> Err (Other (lit ''gateway refused '' @ authority @ [58] @ show_nat (unat port) @
               lit '' ('' @ first_line_of (take at head) @ lit '')''))
           | Some True \<Rightarrow> Ok (drop at head, evs))
      | None \<Rightarrow>
          if length head > GATEWAY_HEAD_LIMIT
          then Err (Other (lit ''gateway '' @ show_socket proxy @ lit '' sent an oversized response head''))
          else gateway_loop proxy authority port head evs)"

definition open_through_gateway ::
    "('re, 'net) world \<Rightarrow> socket_addr \<Rightarrow> str \<Rightarrow> u16 \<Rightarrow> ('x conn_scheme, bytes) io" where
  "open_through_gateway w proxy authority port =
     seq (emit (OpenTcp proxy)) (\<lambda>_.
     if w_gw_open_late w
     then fail (Other (lit ''gateway '' @ show_socket proxy @ lit '' did not accept a connection''))
     else
     seq (lift (w_open_tcp w proxy)) (\<lambda>_.
     case w_gw_send w of
       Some e \<Rightarrow> fail e
     | None \<Rightarrow>
       seq (emit (SendUp (build_proxy_connect authority port))) (\<lambda>_.
       seq (lift (gateway_loop proxy authority port [] (w_gw_in w))) (\<lambda>(leftover, evs).
       ret leftover))))"

section \<open>The direct path\<close>

definition normalize_ip :: "ip_addr \<Rightarrow> ip_addr" where
  "normalize_ip ip = (case ip of
     V6 v6 \<Rightarrow> (case to_ipv4_mapped v6 of Some v4 \<Rightarrow> V4 v4 | None \<Rightarrow> V6 v6)
   | other \<Rightarrow> other)"

definition direct_target_allowed :: "ip_addr \<Rightarrow> ip_addr \<Rightarrow> bool" where
  "direct_target_allowed client address =
     (let address = normalize_ip address in
      if ip_is_loopback address \<or> ip_is_unspecified address then ip_is_loopback (normalize_ip client)
      else True)"

text \<open>The addresses tried, in order, and the outcome.\<close>

fun connect_addrs ::
    "(socket_addr \<Rightarrow> io_error option) \<Rightarrow> ip_addr \<Rightarrow> io_error option \<Rightarrow> socket_addr list \<Rightarrow>
     socket_addr list \<times> (io_error option, unit) run" where
  "connect_addrs tcp_connect client last_error [] = ([], Err last_error)"
| "connect_addrs tcp_connect client last_error (address # as) =
     (if \<not> direct_target_allowed client (sock_ip address) then
        connect_addrs tcp_connect client (Some (io_new PermissionDenied (show_socket address @
          lit '' is this machine's own loopback, which only local clients may reach''))) as
      else case tcp_connect address of
        None \<Rightarrow> ([address], Ok ())
      | Some e \<Rightarrow>
        (let (tried, r) = connect_addrs tcp_connect client (Some e) as in (address # tried, r)))"

definition connect_direct ::
    "('re, 'net) world \<Rightarrow> str \<Rightarrow> u16 \<Rightarrow> ip_addr \<Rightarrow> socket_addr list \<times> (io_error, unit) run" where
  "connect_direct w host port client = (case w_lookup w host port of
     Err e \<Rightarrow> ([], Err e)
   | Panic \<Rightarrow> ([], Panic)
   | Ok addresses \<Rightarrow>
     (let (tried, r) = connect_addrs (w_tcp_connect w) client None addresses
      in (tried, map_err (\<lambda>last_error. case last_error of
           Some e \<Rightarrow> e
         | None \<Rightarrow> io_new NotFound (host @ lit '' did not resolve to any address'')) r)))"

text \<open>\<^verbatim>\<open>connect_direct\<close> under its timeout, which may pass after some attempts have begun.\<close>

definition direct_within_timeout ::
    "('re, 'net) world \<Rightarrow> str \<Rightarrow> u16 \<Rightarrow> ip_addr \<Rightarrow> socket_addr list \<times> (io_error, unit) run option" where
  "direct_within_timeout w host port client =
     (let (tried, r) = connect_direct w host port client in
      case w_direct_timeout w of None \<Rightarrow> (tried, Some r) | Some k \<Rightarrow> (take k tried, None))"

definition emit_all :: "act list \<Rightarrow> ('x conn_scheme, unit) io" where
  "emit_all as s = (Ok (), s\<lparr>acts := acts s @ as\<rparr>)"

definition handle_direct ::
    "('re, 'net) world \<Rightarrow> target \<Rightarrow> u16 \<Rightarrow> bytes \<Rightarrow> bool \<Rightarrow> ('x conn_scheme, unit) io" where
  "handle_direct w target port head replied =
     (let host = show_target target in
      seq (lift (map_err io_err (w_peer w))) (\<lambda>peer.
      let (tried, outcome) = direct_within_timeout w host port (sock_ip peer) in
      seq (emit_all (map TryDirect tried)) (\<lambda>_.
      case outcome of
        None \<Rightarrow>
          if replied then ret () else seq (attempt (reply REP_GENERAL)) (\<lambda>_. ret ())
      | Some Panic \<Rightarrow> lift Panic
      | Some (Err error) \<Rightarrow>
          if replied then ret ()
          else seq (attempt (reply (if kind error = PermissionDenied then REP_NOT_ALLOWED else REP_GENERAL)))
                 (\<lambda>_. ret ())
      | Some (Ok _) \<Rightarrow>
          seq (if head = [] then ret True else case w_direct_write w of
                 Some e \<Rightarrow> ret False
               | None \<Rightarrow> seq (emit (WriteDirect head)) (\<lambda>_. ret True)) (\<lambda>written.
          if \<not> written then ret ()
          else
          seq (if replied then ret () else reply_bound any_bound) (\<lambda>_.
          emit RelayDirect)))))"

section \<open>The handler\<close>

definition open_resolved ::
    "('re, 'net) world \<Rightarrow> target \<Rightarrow> u16 \<Rightarrow> ('x conn_scheme, bytes) io" where
  "open_resolved w target port =
     seq (attempt (lift (resolve (w_env w) (w_dns w) target))) (\<lambda>r. case r of
       Ok ip \<Rightarrow>
         seq (emit (OpenTcp (socket_new ip port))) (\<lambda>_.
         seq (attempt (lift (w_open_tcp w (socket_new ip port)))) (\<lambda>c. case c of
           Ok _ \<Rightarrow> ret []
         | Err e \<Rightarrow> seq (attempt (reply REP_GENERAL)) (\<lambda>_. fail e)
         | Panic \<Rightarrow> lift Panic))
     | Err e \<Rightarrow> seq (attempt (reply REP_GENERAL)) (\<lambda>_. fail e)
     | Panic \<Rightarrow> lift Panic)"

definition open_upstream ::
    "('re, 'net) world \<Rightarrow> target \<Rightarrow> u16 \<Rightarrow> ('x conn_scheme, bytes) io" where
  "open_upstream w target port s =
     (case (if should_use_gateway port then gateway_proxy w (gw_healthy s) else None) of
        Some proxy \<Rightarrow>
          seq (attempt (open_through_gateway w proxy (show_target target) port)) (\<lambda>r. case r of
            Ok leftover \<Rightarrow> ret leftover
          | Err e \<Rightarrow> seq retire_gateway (\<lambda>_. open_resolved w target port)
          | Panic \<Rightarrow> lift Panic) s
      | None \<Rightarrow> open_resolved w target port s)"

text \<open>What is done before the decision: nothing, or the early reply and the client's first bytes.
  \<open>None\<close> is the client that is gone.\<close>

definition sniff_first ::
    "('re, 'net) world \<Rightarrow> target \<Rightarrow> ('x conn_scheme, (bytes \<times> bool \<times> str option) option) io" where
  "sniff_first w target =
     (if (case target of TIp _ \<Rightarrow> True | _ \<Rightarrow> False) \<and> sniff_enabled (w_env w) \<and> has_domain_rules (w_routes w) then
        seq (reply_bound any_bound) (\<lambda>_.
        seq (read_sniff_head w) (\<lambda>h. ret (case h of
          None \<Rightarrow> None
        | Some head \<Rightarrow> Some (head, True, if head = [] then None else hostname head))))
      else ret (Some ([], False, None)))"

text \<open>The whole handler of a CONNECT. Its actions are the connections it opens and what it sends; the look-ups of
  names are outcomes of its world and are not among them.\<close>

definition handle_connect ::
    "('re, 'net) world \<Rightarrow> target \<Rightarrow> u16 \<Rightarrow> ('x conn_scheme, unit) io" where
  "handle_connect w target port =
     seq (sniff_first w target) (\<lambda>first. case first of
       None \<Rightarrow> ret ()
     | Some (head, replied, named) \<Rightarrow>
       (case decide_route (w_deps w) (w_routes w) target named port of
          Block \<Rightarrow> if replied then ret () else seq (attempt (reply REP_NOT_ALLOWED)) (\<lambda>_. ret ())
        | Direct \<Rightarrow> handle_direct w target port head replied
        | Proxy \<Rightarrow>
          seq (open_upstream w target port) (\<lambda>leftover.
          seq (if replied then ret () else reply_bound any_bound) (\<lambda>_.
          seq (if head = [] then ret True else case w_send_up w of
                 Some e \<Rightarrow> ret False
               | None \<Rightarrow> seq (emit (SendUp head)) (\<lambda>_. ret True)) (\<lambda>sent_head.
          if \<not> sent_head then ret ()
          else
          seq (if leftover = [] then ret (Ok ()) else attempt (write_all leftover)) (\<lambda>r. case r of
            Ok _ \<Rightarrow> emit RelayTunneled
          | _ \<Rightarrow> ret ()))))))"


section \<open>Lemmas: what a handler does to the outside\<close>

definition acts_in :: "(act \<Rightarrow> bool) \<Rightarrow> ('x conn_scheme, 'a) io \<Rightarrow> bool" where
  "acts_in P m \<longleftrightarrow> (\<forall>s. \<exists>new. acts (snd (m s)) = acts s @ new \<and> list_all P new)"

lemma acts_inD: "acts_in P m \<Longrightarrow> m s = (r, s') \<Longrightarrow> \<exists>new. acts s' = acts s @ new \<and> list_all P new"
  unfolding acts_in_def by (metis snd_conv)

lemma acts_in_simps [simp, intro]:
  "acts_in P (ret a)" "acts_in P (fail e)" "acts_in P (lift r)" "acts_in P retire_gateway"
  by (auto simp: acts_in_def lift_def retire_gateway_def)

lemma acts_in_sock [simp, intro]:
  "acts_in P (read n)" "acts_in P (read_exact n)" "acts_in P (write_all bs)" "acts_in P (reply c)"
  "acts_in P (reply_bound b)"
  by (auto simp: acts_in_def read_def read_exact_def write_all_def reply_def reply_bound_def
      split: prod.splits list.splits option.splits)

lemma acts_in_emit [intro]: "P a \<Longrightarrow> acts_in P (emit a)"
  by (auto simp: acts_in_def emit_def)

lemma acts_in_emit_all [intro]: "list_all P as \<Longrightarrow> acts_in P (emit_all as)"
  by (auto simp: acts_in_def emit_all_def)

lemma acts_in_seq [intro]:
  assumes m: "acts_in P m" and f: "\<And>a. acts_in P (f a)"
  shows "acts_in P (seq m f)"
  unfolding acts_in_def
proof
  fix s
  obtain r s' where ms: "m s = (r, s')" by fastforce
  then obtain n1 where n1: "acts s' = acts s @ n1" "list_all P n1" using acts_inD [OF m] by blast
  show "\<exists>new. acts (snd (seq m f s)) = acts s @ new \<and> list_all P new"
  proof (cases r)
    case (Ok a)
    obtain t s2 where fs: "f a s' = (t, s2)" by fastforce
    then obtain n2 where "acts s2 = acts s' @ n2" "list_all P n2" using acts_inD [OF f] by blast
    then show ?thesis using n1 ms fs Ok by (intro exI [of _ "n1 @ n2"]) simp
  qed (use n1 ms in \<open>auto simp: seq_def\<close>)
qed

lemma acts_in_attempt [intro]: "acts_in P m \<Longrightarrow> acts_in P (attempt m)"
  unfolding acts_in_def attempt_def by (auto split: prod.splits run.splits) (metis snd_conv)+

lemma acts_in_if [intro]: "(c \<Longrightarrow> acts_in P m) \<Longrightarrow> (\<not> c \<Longrightarrow> acts_in P m') \<Longrightarrow> acts_in P (if c then m else m')"
  by simp

lemma acts_in_lift_seq: "(\<And>a. r = Ok a \<Longrightarrow> acts_in P (f a)) \<Longrightarrow> acts_in P (seq (lift r) f)"
  by (cases r) (auto simp: acts_in_def seq_def lift_def)

lemmas acts_in_rules = acts_in_simps acts_in_sock acts_in_emit acts_in_emit_all acts_in_seq acts_in_attempt acts_in_if

lemma acts_in_sniff: "acts_in P (sniff_first w target)"
  unfolding sniff_first_def read_sniff_head_def by (intro acts_in_rules)

lemma connect_addrs_allowed:
  "list_all (\<lambda>a. direct_target_allowed client (sock_ip a)) (fst (connect_addrs tc client e as))"
  by (induction tc client e as rule: connect_addrs.induct) (auto split: option.splits prod.splits)

lemma direct_within_allowed:
  "list_all (\<lambda>a. direct_target_allowed client (sock_ip a)) (fst (direct_within_timeout w host port client))"
proof -
  have "list_all (\<lambda>a. direct_target_allowed client (sock_ip a)) (fst (connect_direct w host port client))"
    using connect_addrs_allowed by (auto simp: connect_direct_def split: run.splits prod.splits) (metis fst_conv)
  then show ?thesis
    by (auto simp: direct_within_timeout_def list_all_iff split: prod.splits option.splits dest: in_set_takeD)
qed

definition guarded :: "('re, 'net) world \<Rightarrow> act \<Rightarrow> bool" where
  "guarded w a = (case a of
     TryDirect x \<Rightarrow> (\<exists>peer. w_peer w = Ok peer \<and> direct_target_allowed (sock_ip peer) (sock_ip x)) | _ \<Rightarrow> True)"

lemma acts_in_direct: "acts_in (guarded w) (handle_direct w target port head replied)"
proof -
  have t: "list_all (guarded w) (map TryDirect tried)"
    if "w_peer w = Ok peer" "direct_within_timeout w host port (sock_ip peer) = (tried, r)" for peer host tried r
    using direct_within_allowed [of "sock_ip peer" w host port] that
    by (auto simp: guarded_def list_all_iff)
  show ?thesis
    unfolding handle_direct_def Let_def
    by (rule acts_in_lift_seq)
      (auto simp: map_err_iff emit_def [symmetric] guarded_def [of w "RelayDirect"] guarded_def [of w "WriteDirect head"]
        split: prod.split option.split run.split intro!: acts_in_rules t)
qed

lemma acts_in_gateway:
  "(\<And>x. P (OpenTcp x)) \<Longrightarrow> (\<And>bs. P (SendUp bs)) \<Longrightarrow> acts_in P (open_through_gateway w proxy authority port)"
  unfolding open_through_gateway_def
  by (auto split: option.split prod.split intro!: acts_in_rules)

lemma acts_in_resolved: "(\<And>x. P (OpenTcp x)) \<Longrightarrow> acts_in P (open_resolved w target port)"
  unfolding open_resolved_def
  by (auto split: run.split intro!: acts_in_rules)

lemma acts_in_upstream:
  assumes "\<And>x. P (OpenTcp x)" "\<And>bs. P (SendUp bs)"
  shows "acts_in P (open_upstream w target port)"
proof -
  have "acts_in P (seq (attempt (open_through_gateway w proxy (show_target target) port)) (\<lambda>r. case r of
            Ok leftover \<Rightarrow> ret leftover
          | Err e \<Rightarrow> seq retire_gateway (\<lambda>_. open_resolved w target port)
          | Panic \<Rightarrow> lift Panic))" for proxy
    using assms by (auto split: run.split intro!: acts_in_rules acts_in_gateway acts_in_resolved)
  then show ?thesis
    using acts_in_resolved [of P w target port] assms unfolding acts_in_def open_upstream_def
    by (auto split: option.split)
qed

lemma acts_in_connect: "acts_in (guarded w) (handle_connect w target port)"
  unfolding handle_connect_def
  by (auto simp: guarded_def split: option.split run.split action.split
      intro!: acts_in_rules acts_in_sniff acts_in_direct acts_in_upstream)



section \<open>Lemmas: what the client is told\<close>

definition reply_bytes :: "u8 \<Rightarrow> bytes" where
  "reply_bytes code = [VER, code, 0, ATYP_V4, 0, 0, 0, 0, 0, 0]"

definition relays :: "act list \<Rightarrow> bool" where
  "relays as \<longleftrightarrow> RelayTunneled \<in> set as \<or> RelayDirect \<in> set as"

lemma reply_ok [simp]: "writes s = [] \<Longrightarrow> reply c s = (Ok (), s\<lparr>tx := tx s @ reply_bytes c\<rparr>)"
  by (simp add: reply_def reply_bytes_def)

lemma octets4_zero: "octets4 0 = [0, 0, 0, 0]"
proof -
  have e: "(4 :: nat) = Suc (Suc (Suc (Suc 0)))" by simp
  show ?thesis unfolding octets4_def be32_def e by simp
qed

lemma reply_bound_ok [simp]:
  "writes s = [] \<Longrightarrow> reply_bound any_bound s = (Ok (), s\<lparr>tx := tx s @ reply_bytes REP_OK\<rparr>)"
  by (simp add: reply_bound_def any_bound_def reply_bytes_def sock_ip_def sock_port_def octets4_zero be16_eq)

lemma emit_simp [simp]: "emit a s = (Ok (), s\<lparr>acts := acts s @ [a]\<rparr>)"
  by (simp add: emit_def)

lemma emit_all_simp [simp]: "emit_all as s = (Ok (), s\<lparr>acts := acts s @ as\<rparr>)"
  by (simp add: emit_all_def)

lemma lift_simp [simp]: "lift r s = (r, s)"
  by (simp add: lift_def)

lemma retire_simp [simp]: "retire_gateway s = (Ok (), s\<lparr>gw_healthy := False\<rparr>)"
  by (simp add: retire_gateway_def)

text \<open>What resolving and opening does: the two failures answer the client, success does not.\<close>

lemma open_resolved_eq:
  assumes "writes s = []"
  shows "open_resolved w target port s = (case resolve (w_env w) (w_dns w) target of
     Ok ip \<Rightarrow> (case w_open_tcp w (socket_new ip port) of
         Ok _ \<Rightarrow> (Ok [], s\<lparr>acts := acts s @ [OpenTcp (socket_new ip port)]\<rparr>)
       | Err e \<Rightarrow> (Err e, s\<lparr>tx := tx s @ reply_bytes REP_GENERAL, acts := acts s @ [OpenTcp (socket_new ip port)]\<rparr>)
       | Panic \<Rightarrow> (Panic, s\<lparr>acts := acts s @ [OpenTcp (socket_new ip port)]\<rparr>))
   | Err e \<Rightarrow> (Err e, s\<lparr>tx := tx s @ reply_bytes REP_GENERAL\<rparr>)
   | Panic \<Rightarrow> (Panic, s))"
  using assms by (auto simp: open_resolved_def attempt_def seq_def split: run.split)

lemma gateway_frame:
  "\<exists>new r. open_through_gateway w proxy authority port s = (r, s\<lparr>acts := acts s @ new\<rparr>) \<and> \<not> relays new"
  by (cases "w_gw_open_late w"; cases "w_open_tcp w proxy"; cases "w_gw_send w";
      cases "gateway_loop proxy authority port [] (w_gw_in w)")
    (auto simp: open_through_gateway_def seq_def relays_def)

text \<open>From \<open>s\<close> to \<open>t\<close> nothing is read, \<open>out\<close> is written, and what is done outside is no relay.\<close>

definition quiet_step :: "'x conn_scheme \<Rightarrow> bytes \<Rightarrow> 'x conn_scheme \<Rightarrow> bool" where
  "quiet_step s out t \<longleftrightarrow> writes t = writes s \<and> rx t = rx s \<and> tx t = tx s @ out \<and>
     (\<exists>new. acts t = acts s @ new \<and> \<not> relays new)"

lemma quiet_trans: "quiet_step s a t \<Longrightarrow> quiet_step t b u \<Longrightarrow> quiet_step s (a @ b) u"
  by (auto simp: quiet_step_def relays_def)

lemma open_resolved_frame:
  assumes "writes s = []" "open_resolved w target port s = (r, s')" "r \<noteq> Panic"
  shows "quiet_step s (case r of Ok _ \<Rightarrow> [] | _ \<Rightarrow> reply_bytes REP_GENERAL) s'"
  using assms by (auto simp: open_resolved_eq quiet_step_def relays_def split: run.splits)

lemma open_upstream_frame:
  assumes "writes s = []" "open_upstream w target port s = (r, s')" "r \<noteq> Panic"
  shows "quiet_step s (case r of Ok _ \<Rightarrow> [] | _ \<Rightarrow> reply_bytes REP_GENERAL) s'"
proof (cases "if should_use_gateway port then gateway_proxy w (gw_healthy s) else None")
  case None
  then show ?thesis using assms open_resolved_frame by (simp add: open_upstream_def)
next
  case (Some proxy)
  obtain new g where g: "open_through_gateway w proxy (show_target target) port s = (g, s\<lparr>acts := acts s @ new\<rparr>)"
      "\<not> relays new"
    using gateway_frame by blast
  have q: "quiet_step s [] (s\<lparr>acts := acts s @ new\<rparr>)" using g(2) by (auto simp: quiet_step_def)
  show ?thesis
  proof (cases g)
    case (Ok l)
    then show ?thesis using assms Some g(1) q by (auto simp: open_upstream_def attempt_def seq_def)
  next
    case (Err e)
    have "open_resolved w target port (s\<lparr>acts := acts s @ new, gw_healthy := False\<rparr>) = (r, s')"
      using assms Some g(1) Err by (simp add: open_upstream_def attempt_def seq_def)
    from open_resolved_frame [OF _ this assms(3)] show ?thesis
      using assms(1) g(2) by (auto simp: quiet_step_def relays_def)
  next
    case Panic
    then show ?thesis using assms Some g(1) by (simp add: open_upstream_def attempt_def seq_def)
  qed
qed

definition sniffs_first :: "('re, 'net) world \<Rightarrow> target \<Rightarrow> bool" where
  "sniffs_first w target \<longleftrightarrow> (\<exists>ip. target = TIp ip) \<and> sniff_enabled (w_env w) \<and> has_domain_rules (w_routes w)"

lemma sniff_first_late: "\<not> sniffs_first w target \<Longrightarrow> sniff_first w target s = (Ok (Some ([], False, None)), s)"
  by (auto simp: sniff_first_def sniffs_first_def split: target.splits)

lemma handle_direct_reply:
  assumes "writes s = []" "w_peer w = Ok peer" "handle_direct w target port [] False s = (r, s')" "r \<noteq> Panic"
  shows "\<exists>code new. tx s' = tx s @ reply_bytes code \<and> acts s' = acts s @ new \<and> (code = REP_OK \<longleftrightarrow> relays new)"
proof -
  obtain tried outcome where d: "direct_within_timeout w (show_target target) port (sock_ip peer) = (tried, outcome)"
    by fastforce
  show ?thesis
    using assms d
    by (auto simp: handle_direct_def seq_def attempt_def relays_def REP_GENERAL_def REP_NOT_ALLOWED_def REP_OK_def
        split: option.splits run.splits if_splits)
qed


lemma sniff_first_writes:
  assumes "writes s = []" "sniff_first w target s = (Ok (Some (head, replied, named)), s1)"
  shows "writes s1 = [] \<and> acts s1 = acts s \<and> gw_healthy s1 = gw_healthy s \<and> replied = sniffs_first w target \<and>
    tx s1 = tx s @ (if replied then reply_bytes REP_OK else [])"
proof (cases "sniffs_first w target")
  case True
  then obtain ip where t: "target = TIp ip" "sniff_enabled (w_env w)" "has_domain_rules (w_routes w)"
    by (auto simp: sniffs_first_def)
  show ?thesis
    using assms True t
    by (auto simp: sniff_first_def read_sniff_head_def attempt_def seq_def read_def
        split: if_splits run.splits prod.splits option.splits)
next
  case False
  then show ?thesis using assms by (simp add: sniff_first_late)
qed

lemma sniff_first_sent:
  assumes "clean (rx s)" "writes s = []" "sniff_first w target s = (Ok (Some (head, replied, named)), s1)"
  shows "sent (rx s) = head @ sent (rx s1)"
proof (cases "sniffs_first w target")
  case True
  then obtain ip where t: "target = TIp ip" "sniff_enabled (w_env w)" "has_domain_rules (w_routes w)"
    by (auto simp: sniffs_first_def)
  have "0 < PEEK_BUDGET" by (simp add: PEEK_BUDGET_def)
  then obtain b r' where "read_segs PEEK_BUDGET (rx s) = (Ok b, r')" "sent (rx s) = b @ sent r'"
    using read_segs_sent [OF assms(1)] by blast
  then show ?thesis
    using assms t
    by (auto simp: sniff_first_def read_sniff_head_def attempt_def seq_def read_def split: if_splits)
next
  case False
  then show ?thesis using assms by (simp add: sniff_first_late)
qed

lemma connect_after_sniff:
  "sniff_first w target s = (Ok (Some (head, replied, named)), s1) \<Longrightarrow>
   decide_route (w_deps w) (w_routes w) target named port = Proxy \<Longrightarrow>
   handle_connect w target port s =
     seq (open_upstream w target port) (\<lambda>leftover.
          seq (if replied then ret () else reply_bound any_bound) (\<lambda>_.
          seq (if head = [] then ret True else case w_send_up w of
                 Some e \<Rightarrow> ret False
               | None \<Rightarrow> seq (emit (SendUp head)) (\<lambda>_. ret True)) (\<lambda>sent_head.
          if \<not> sent_head then ret ()
          else
          seq (if leftover = [] then ret (Ok ()) else attempt (write_all leftover)) (\<lambda>r. case r of
            Ok _ \<Rightarrow> emit RelayTunneled
          | _ \<Rightarrow> ret ())))) s1"
  by (simp add: handle_connect_def)

text \<open>A world for the examples: a local client, no rules, no gateway, everything else succeeds.\<close>

definition demo_world :: "(unit, ip_addr) world" where
  "demo_world = \<lparr>w_env = no_env, w_deps = demo_deps, w_routes = \<lparr>block_rules = [], direct_rules = []\<rparr>,
     w_gateway = None, w_peer = Ok (SockV4 0x7f000001 5000), w_dns = \<lparr>open_udp = Err Cancelled\<rparr>,
     w_open_tcp = (\<lambda>_. Ok ()), w_gw_open_late = False, w_gw_send = None, w_gw_in = [], w_sniff_silent = False,
     w_lookup = (\<lambda>_ _. Ok [SockV4 0x7f000001 80]), w_tcp_connect = (\<lambda>_. None), w_direct_timeout = None,
     w_direct_write = None, w_send_up = None\<rparr>"

definition demo_conn :: conn where
  "demo_conn = \<lparr>rx = [Chunk [1, 2]], tx = [], writes = [], gw_healthy = True, acts = []\<rparr>"

definition direct_world :: "(unit, ip_addr) world" where
  "direct_world = demo_world\<lparr>w_routes := \<lparr>block_rules = [], direct_rules = [Net (V4 0x7f000001)]\<rparr>\<rparr>"

definition sniffing_world :: "(unit, ip_addr) world" where
  "sniffing_world = demo_world\<lparr>w_routes := \<lparr>block_rules = [DomainSuffix (lit ''x.net'')], direct_rules = []\<rparr>,
     w_open_tcp := (\<lambda>_. Err Cancelled), w_sniff_silent := True\<rparr>"

lemma loopback_v4: "v4_is_loopback 0x7f000001"
proof -
  have e: "(4 :: nat) = Suc (Suc (Suc (Suc 0)))" by simp
  show ?thesis unfolding v4_is_loopback_def octets4_def be32_def e by simp
qed

lemma direct_demo:
  "handle_connect direct_world (TIp (V4 0x7f000001)) 80 demo_conn =
     (Ok (), demo_conn\<lparr>tx := reply_bytes REP_OK, acts := [TryDirect (SockV4 0x7f000001 80), RelayDirect]\<rparr>)"
proof -
  have "\<not> sniffs_first direct_world (TIp (V4 0x7f000001))"
    by (simp add: sniffs_first_def direct_world_def has_domain_rules_def is_domain_rule_def)
  then show ?thesis
    using loopback_v4
    by (simp add: handle_connect_def sniff_first_late decide_route_def decide_def host_of_def matches_def direct_world_def
        demo_world_def demo_deps_def demo_conn_def handle_direct_def direct_within_timeout_def connect_direct_def
        direct_target_allowed_def normalize_ip_def sock_ip_def ip_is_loopback_def seq_def)
qed

lemma handle_direct_forwards:
  assumes "writes s = []" "handle_direct w target port head replied s = (r, s')"
    "relays (drop (length (acts s)) (acts s'))"
  shows "rx s' = rx s \<and> (\<exists>new. acts s' = acts s @ new @ (if head = [] then [] else [WriteDirect head]) @ [RelayDirect])"
proof -
  have t: "\<not> relays (map TryDirect xs)" "\<not> relays []" for xs by (auto simp: relays_def)
  show ?thesis
  proof (cases "w_peer w")
    case (Ok peer)
    obtain tried outcome where d: "direct_within_timeout w (show_target target) port (sock_ip peer) = (tried, outcome)"
      by fastforce
    show ?thesis
      using assms d Ok t
      by (auto simp: handle_direct_def seq_def attempt_def split: option.splits run.splits if_splits)
  qed (use assms t in \<open>simp_all add: handle_direct_def seq_def\<close>)
qed

section \<open>Properties\<close>

text \<open>C9. A direct connection reaches this machine's own loopback only for a client on this machine.
  Whatever the request, the rules, the sniffed name and the answers of the resolver, every address
  that is tried directly and is a loopback or unspecified address, also written as an IPv4-mapped
  IPv6 address, is tried for a client whose own address is a loopback address.\<close>

theorem direct_never_opens_loopback:
  assumes "handle_connect w target port s = (r, s')" "TryDirect x \<in> set (drop (length (acts s)) (acts s'))"
  shows "\<exists>peer. w_peer w = Ok peer \<and>
    (ip_is_loopback (normalize_ip (sock_ip x)) \<or> ip_is_unspecified (normalize_ip (sock_ip x)) \<longrightarrow>
     ip_is_loopback (normalize_ip (sock_ip peer)))"
proof -
  obtain new where "acts s' = acts s @ new" "list_all (guarded w) new"
    using acts_inD [OF acts_in_connect assms(1)] by blast
  then have "guarded w (TryDirect x)" using assms(2) by (simp add: list_all_iff)
  then show ?thesis by (auto simp: guarded_def direct_target_allowed_def Let_def split: if_splits)
qed

theorem direct_never_opens_loopback_witness:
  "\<exists>peer. w_peer direct_world = Ok peer \<and>
    (ip_is_loopback (normalize_ip (sock_ip (SockV4 0x7f000001 80))) \<or>
     ip_is_unspecified (normalize_ip (sock_ip (SockV4 0x7f000001 80))) \<longrightarrow>
     ip_is_loopback (normalize_ip (sock_ip peer)))"
  by (rule direct_never_opens_loopback [OF direct_demo]) (simp add: demo_conn_def)

text \<open>C25. What is blocked reaches nothing. When the rules block the request, by the name read from the
  client's first bytes or by the destination, no connection is opened and nothing is sent anywhere;
  the client is told that it is not allowed, unless it has been answered before its first bytes
  were read.\<close>

theorem blocked_reaches_nothing:
  assumes "sniff_first w target s = (Ok (Some (head, replied, named)), s1)"
    "decide_route (w_deps w) (w_routes w) target named port = Block" "writes s = []"
  shows "\<exists>s'. handle_connect w target port s = (Ok (), s') \<and> acts s' = acts s \<and> gw_healthy s' = gw_healthy s \<and>
    tx s' = tx s @ reply_bytes (if replied then REP_OK else REP_NOT_ALLOWED)"
  using assms sniff_first_writes [OF assms(3,1)]
  by (auto simp: handle_connect_def attempt_def seq_def)

theorem blocked_reaches_nothing_witness:
  "\<exists>s'. handle_connect sniffing_world (TDomain (lit ''x.net'')) 80 demo_conn = (Ok (), s') \<and>
    acts s' = acts demo_conn \<and> gw_healthy s' = gw_healthy demo_conn \<and>
    tx s' = tx demo_conn @ reply_bytes (if False then REP_OK else REP_NOT_ALLOWED)"
  by (rule blocked_reaches_nothing [OF sniff_first_late])
    (simp_all add: sniffs_first_def decide_route_def decide_def host_of_def matches_def sniffing_world_def demo_world_def
      demo_deps_def demo_conn_def to_lowercase_def is_ascii_def lit_def lower_def is_upper_def)




text \<open>C40. A sniffed client whose connection then fails is answered twice. It has been told that it is
  connected before its first bytes were read; when the tunnel then cannot open the connection, the
  failure is sent behind that success, where the client takes it for data of the far end.\<close>

theorem sniffed_failure_answers_twice:
  assumes "sniff_first w (TIp ip) s = (Ok (Some (head, True, named)), s1)"
    "decide_route (w_deps w) (w_routes w) (TIp ip) named port = Proxy" "writes s = []"
    "w_gateway w = None" "w_open_tcp w (socket_new ip port) = Err e"
  shows "\<exists>s'. handle_connect w (TIp ip) port s = (Err e, s') \<and>
    tx s' = tx s @ reply_bytes REP_OK @ reply_bytes REP_GENERAL"
  using sniff_first_writes [OF assms(3,1)] connect_after_sniff [OF assms(1,2)] assms(4,5)
  by (simp add: seq_def open_upstream_def gateway_proxy_def open_resolved_eq resolve_def)

theorem sniffed_failure_answers_twice_witness:
  "\<exists>s'. handle_connect sniffing_world (TIp (V4 9)) 25 demo_conn = (Err Cancelled, s') \<and>
    tx s' = tx demo_conn @ reply_bytes REP_OK @ reply_bytes REP_GENERAL"
proof (rule sniffed_failure_answers_twice)
  show "sniff_first sniffing_world (TIp (V4 9)) demo_conn =
      (Ok (Some ([], True, None)), demo_conn\<lparr>tx := reply_bytes REP_OK\<rparr>)"
    by (simp add: sniff_first_def sniffing_world_def demo_world_def demo_conn_def no_env_def sniff_enabled_def
        has_domain_rules_def is_domain_rule_def read_sniff_head_def)
qed (simp_all add: sniffing_world_def demo_world_def demo_conn_def decide_route_def decide_def host_of_def matches_def)

text \<open>C10. What a client sends before it is relayed is not lost. When a relay starts, the bytes taken
  from the client's stream for sniffing were handed on whole, to the tunnel or to the direct
  connection, as the last thing before the relay, and the relay continues where they end.\<close>

theorem sniffed_bytes_forwarded:
  assumes "handle_connect w target port s = (r, s')" "clean (rx s)" "writes s = []"
    "relays (drop (length (acts s)) (acts s'))"
  shows "\<exists>head new. sent (rx s) = head @ sent (rx s') \<and>
    (acts s' = acts s @ new @ (if head = [] then [] else [SendUp head]) @ [RelayTunneled] \<or>
     acts s' = acts s @ new @ (if head = [] then [] else [WriteDirect head]) @ [RelayDirect])"
proof -
  obtain q s1 where q: "sniff_first w target s = (q, s1)" by fastforce
  have no: "\<not> relays []" by (simp add: relays_def)
  have a: "acts s1 = acts s"
    using acts_inD [OF acts_in_sniff [where P = "\<lambda>_. False"] q] by (auto simp: list_all_iff)
  obtain head replied named where h: "q = Ok (Some (head, replied, named))"
    using assms(1,4) q a no by (cases q) (auto simp: handle_connect_def seq_def split: option.splits)
  note w = sniff_first_writes [OF assms(3) q [unfolded h]]
  have e: "sent (rx s) = head @ sent (rx s1)" by (rule sniff_first_sent [OF assms(2,3) q [unfolded h]])
  show ?thesis
  proof (cases "decide_route (w_deps w) (w_routes w) target named port")
    case Block
    then have "acts s' = acts s"
      using assms(1) q h w by (auto simp: handle_connect_def seq_def attempt_def split: if_splits)
    then show ?thesis using assms(4) no by simp
  next
    case Direct
    then have "handle_direct w target port head replied s1 = (r, s')"
      using assms(1) q h by (simp add: handle_connect_def seq_def)
    from handle_direct_forwards [OF _ this] show ?thesis using w assms(4) e a by (metis append.assoc)
  next
    case Proxy
    obtain u s2 where u: "open_upstream w target port s1 = (u, s2)" by fastforce
    note c = connect_after_sniff [OF q [unfolded h] Proxy] assms(1) u
    obtain new where n: "acts s2 = acts s @ new" "\<not> relays new"
      using acts_inD [OF acts_in_upstream [where P = "\<lambda>a. a \<noteq> RelayTunneled \<and> a \<noteq> RelayDirect"] u] a
      by (auto simp: relays_def list_all_iff)
    obtain leftover where l: "u = Ok leftover"
      using c assms(4) n by (cases u) (auto simp: seq_def)
    have f: "writes s2 = []" "rx s2 = rx s1"
      using open_upstream_frame [OF _ u] w l by (auto simp: quiet_step_def)
    have "rx s' = rx s2 \<and> acts s' = acts s2 @ (if head = [] then [] else [SendUp head]) @ [RelayTunneled]"
      using c l f n assms(4)
      by (auto simp: seq_def attempt_def relays_def split: if_splits option.splits)
    then show ?thesis using e f n by (intro exI [of _ head] exI [of _ new]) simp
  qed
qed


lemma hostname_demo: "hostname [1, 2] = None"
proof -
  have "utf8_lossy [1, 2] = [1, 2]" by (rule utf8_lossy_ascii) (simp add: is_ascii_def)
  then show ?thesis
    by (simp add: hostname_def tls_sni_def TLS_HANDSHAKE_def get_def http_host_def PEEK_BUDGET_def split_str.simps
        looks_like_http_def http_methods_def starts_with_def lit_def)
qed

lemma sniffed_demo:
  "handle_connect (demo_world\<lparr>w_routes := \<lparr>block_rules = [DomainSuffix (lit ''x.net'')], direct_rules = []\<rparr>\<rparr>)
     (TIp (V4 9)) 25 demo_conn =
   (Ok (), demo_conn\<lparr>rx := [], tx := reply_bytes REP_OK,
      acts := [OpenTcp (SockV4 9 25), SendUp [1, 2], RelayTunneled]\<rparr>)"
  by (simp add: handle_connect_def sniff_first_def demo_world_def demo_conn_def no_env_def sniff_enabled_def
      has_domain_rules_def is_domain_rule_def read_sniff_head_def attempt_def seq_def read_def PEEK_BUDGET_def
      hostname_demo decide_route_def decide_def host_of_def matches_def open_upstream_def should_use_gateway_def
      open_resolved_eq resolve_def socket_new_def)

theorem sniffed_bytes_forwarded_witness:
  "\<exists>head new. sent (rx demo_conn) = head @ sent [] \<and>
    ([OpenTcp (SockV4 9 25), SendUp [1, 2], RelayTunneled] =
       [] @ new @ (if head = [] then [] else [SendUp head]) @ [RelayTunneled] \<or>
     [OpenTcp (SockV4 9 25), SendUp [1, 2], RelayTunneled] =
       [] @ new @ (if head = [] then [] else [WriteDirect head]) @ [RelayDirect])"
  using sniffed_bytes_forwarded [OF sniffed_demo] by (simp add: demo_conn_def relays_def)

definition address_rule :: "('re, 'net) matcher \<Rightarrow> bool" where
  "address_rule m = (case m of Net _ \<Rightarrow> True | _ \<Rightarrow> False)"

text \<open>Address rules can be sidestepped by writing the address as a name. A client that asks for the
  name \<^verbatim>\<open>10.0.0.1\<close> instead of the address is matched against the name rules only; the name is
  then read as an address after all, and the tunnel opens the connection to an address the rules
  block.\<close>

theorem ip_literal_escapes_address_rules:
  assumes "list_all address_rule (block_rules (w_routes w) @ direct_rules (w_routes w))"
    "decide (w_deps w) (w_routes w) (Ip (V4 a)) port = Block"
    "w_gateway w = None" "w_open_tcp w (SockV4 a port) = Ok ()" "writes s = []"
  shows "decide_route (w_deps w) (w_routes w) (TIp (V4 a)) None port = Block \<and>
    (\<exists>s'. handle_connect w (TDomain (show_ipv4 a)) port s = (Ok (), s') \<and>
       acts s' = acts s @ [OpenTcp (SockV4 a port), RelayTunneled])"
proof
  show "decide_route (w_deps w) (w_routes w) (TIp (V4 a)) None port = Block"
    using assms(2) by (simp add: decide_route_def host_of_def)
  have "\<not> matches (w_deps w) m (Domain name) port" if "address_rule m" for m name
    using that by (cases m) (auto simp: address_rule_def matches_def)
  then have "decide (w_deps w) (w_routes w) (Domain (show_ipv4 a)) port = Proxy"
    using assms(1) by (auto simp: decide_def list_ex_iff list_all_iff)
  moreover have "\<not> sniffs_first w (TDomain (show_ipv4 a))" by (simp add: sniffs_first_def)
  ultimately show "\<exists>s'. handle_connect w (TDomain (show_ipv4 a)) port s = (Ok (), s') \<and>
      acts s' = acts s @ [OpenTcp (SockV4 a port), RelayTunneled]"
    using assms(3-5)
    by (simp add: handle_connect_def sniff_first_late decide_route_def host_of_def open_upstream_def gateway_proxy_def
        open_resolved_eq resolve_def parse_ip_show_ipv4 socket_new_def seq_def)
qed

theorem ip_literal_escapes_address_rules_witness:
  "let w = demo_world\<lparr>w_routes := \<lparr>block_rules = [Net (V4 9)], direct_rules = []\<rparr>\<rparr> in
   decide_route (w_deps w) (w_routes w) (TIp (V4 9)) None 80 = Block \<and>
    (\<exists>s'. handle_connect w (TDomain (show_ipv4 9)) 80 demo_conn = (Ok (), s') \<and>
       acts s' = acts demo_conn @ [OpenTcp (SockV4 9 80), RelayTunneled])"
  unfolding Let_def
  by (rule ip_literal_escapes_address_rules)
    (simp_all add: demo_world_def demo_conn_def address_rule_def decide_def matches_def demo_deps_def)


lemma gateway_loop_Ok:
  "gateway_loop proxy authority port head evs = Ok (leftover, rest) \<Longrightarrow>
     \<exists>chunks n. evs = map GwChunk chunks @ rest \<and> chunks \<noteq> [] \<and> find_head_end (head @ concat chunks) = Some n \<and>
       proxy_connect_succeeded (head @ concat chunks) = Some True \<and> leftover = drop n (head @ concat chunks)"
proof (induction proxy authority port head evs rule: gateway_loop.induct)
  case (4 proxy authority port head chunk evs)
  show ?case
  proof (cases "find_head_end (head @ chunk)")
    case (Some n)
    then have "proxy_connect_succeeded (head @ chunk) = Some True" "leftover = drop n (head @ chunk)" "rest = evs"
      using "4.prems" by (auto simp: Let_def split: option.splits bool.splits)
    then show ?thesis using Some by (intro exI [of _ "[chunk]"] exI [of _ n]) simp
  next
    case None
    then obtain chunks n where "evs = map GwChunk chunks @ rest" "find_head_end ((head @ chunk) @ concat chunks) = Some n"
        "proxy_connect_succeeded ((head @ chunk) @ concat chunks) = Some True"
        "leftover = drop n ((head @ chunk) @ concat chunks)"
      using "4.IH" [OF refl None] "4.prems" None by (auto simp: Let_def split: if_splits)
    then show ?thesis by (intro exI [of _ "chunk # chunks"] exI [of _ n]) simp
  qed
qed auto

text \<open>C31. A tunnel through the gateway loses nothing the far end sends. When the gateway is taken, it was
  asked with a CONNECT for the destination, it answered with a head whose status is between 200 and
  299, and what came behind the end of that head in the same pieces, the first bytes of the far
  end, is returned to be written to the client; the later pieces are left for the relay.\<close>

theorem gateway_loses_nothing:
  assumes "open_through_gateway w proxy authority port s = (Ok leftover, s')"
  shows "\<exists>chunks rest n. w_gw_in w = map GwChunk chunks @ rest \<and>
    find_head_end (concat chunks) = Some n \<and> proxy_connect_succeeded (concat chunks) = Some True \<and>
    concat chunks = take n (concat chunks) @ leftover \<and>
    s' = s\<lparr>acts := acts s @ [OpenTcp proxy, SendUp (build_proxy_connect authority port)]\<rparr>"
proof -
  from assms obtain rest where "gateway_loop proxy authority port [] (w_gw_in w) = Ok (leftover, rest)"
      "s' = s\<lparr>acts := acts s @ [OpenTcp proxy, SendUp (build_proxy_connect authority port)]\<rparr>"
    by (auto simp: open_through_gateway_def elim!: seq_OkE split: if_splits option.splits)
  then show ?thesis using gateway_loop_Ok [of proxy authority port "[]" "w_gw_in w" leftover rest] by fastforce
qed


definition demo_gateway :: bytes where
  "demo_gateway = lit ''H 200'' @ [13, 10, 13, 10, 7]"

lemma demo_gateway_facts:
  "find_head_end demo_gateway = Some 9" "proxy_connect_succeeded demo_gateway = Some True" "drop 9 demo_gateway = [7]"
proof -
  have "utf8_lossy demo_gateway = demo_gateway"
    by (rule utf8_lossy_ascii) (simp add: is_ascii_def demo_gateway_def lit_def)
  then show "proxy_connect_succeeded demo_gateway = Some True"
    by (simp add: proxy_connect_succeeded_def demo_gateway_def lit_def starts_with_def split_whitespace_def ascii_ws_def
        get_def parse_u16_def parse_radix_def digit_val_def is_digit_def ws2_def ws3_def)
  show "find_head_end demo_gateway = Some 9" "drop 9 demo_gateway = [7]"
    by (simp_all add: find_head_end_def demo_gateway_def lit_def starts_with_def)
qed

theorem gateway_loses_nothing_witness:
  "let w = demo_world\<lparr>w_gw_in := [GwChunk demo_gateway]\<rparr> in
   \<exists>chunks rest n. w_gw_in w = map GwChunk chunks @ rest \<and>
    find_head_end (concat chunks) = Some n \<and> proxy_connect_succeeded (concat chunks) = Some True \<and>
    concat chunks = take n (concat chunks) @ [7] \<and>
    demo_conn\<lparr>acts := acts demo_conn @ [OpenTcp any_bound, SendUp (build_proxy_connect (lit ''a'') 80)]\<rparr> =
      demo_conn\<lparr>acts := acts demo_conn @ [OpenTcp any_bound, SendUp (build_proxy_connect (lit ''a'') 80)]\<rparr>"
  unfolding Let_def
  by (rule gateway_loses_nothing)
    (simp add: open_through_gateway_def seq_def demo_world_def demo_gateway_facts)

end
