(* ===== verification/UdpRelay.thy ===== *)
theory UdpRelay
  imports Connect
begin

text \<open>
  UDP associations (\<^verbatim>\<open>aether/src/socks.rs\<close>): whom an association serves, the loop that moves
  datagrams between the client, the tunnel and the direct path, the association that carries only
  DNS over a stream connector, and the client handler that starts them. A datagram that arrives
  comes with what the resolvers answer while it is handled.
\<close>

section \<open>Whom an association serves\<close>

definition expected_udp_source :: "socket_addr \<Rightarrow> target \<Rightarrow> ip_addr" where
  "expected_udp_source control_peer requested = (case requested of
     TIp ip \<Rightarrow> if \<not> ip_is_unspecified ip then normalize_ip ip else normalize_ip (sock_ip control_peer)
   | _ \<Rightarrow> normalize_ip (sock_ip control_peer))"

definition udp_source_allowed :: "ip_addr \<Rightarrow> socket_addr option \<Rightarrow> socket_addr \<Rightarrow> bool" where
  "udp_source_allowed expected_ip latched source = (case latched of
     Some known \<Rightarrow> known = source
   | None \<Rightarrow> normalize_ip (sock_ip source) = normalize_ip expected_ip)"

section \<open>The association's loop\<close>

datatype udp_event =
    RelayRecv "(io_error, bytes \<times> socket_addr) run" dns_world
  | StackRecv "(socket_addr \<times> bytes) option"
  | DirectRecv "(io_error, bytes \<times> socket_addr) run"
  | CtrlRead "(io_error, nat) run"

datatype udp_out =
    ToTunnel socket_addr bytes
  | ToDirect socket_addr bytes
  | ToClient socket_addr bytes

record assoc =
  client :: "socket_addr option"
  refused :: u64
  live :: bool

definition assoc_new :: assoc where
  "assoc_new = \<lparr>client = None, refused = 0, live = True\<rparr>"

text \<open>A datagram that is let in: where it goes. Neither reading it nor resolving its name panics, so
  only the outcomes the code distinguishes matter.\<close>

definition forward_datagram ::
    "('re, 'net) world \<Rightarrow> socket_addr \<Rightarrow> dns_world \<Rightarrow> bytes \<Rightarrow> udp_out list" where
  "forward_datagram w control_peer dns buf = (case parse_udp_request buf of
     Ok (dst, dst_port, payload) \<Rightarrow>
       (case decide (w_deps w) (w_routes w) (host_of dst) dst_port of
          Block \<Rightarrow> []
        | Direct \<Rightarrow>
          (let outside = (case dst of
                 TIp ip \<Rightarrow> Some (socket_new ip dst_port)
               | TDomain name \<Rightarrow> (case w_lookup w name dst_port of
                   Ok (found # _) \<Rightarrow> Some found | _ \<Rightarrow> None))
           in case outside of
                Some addr \<Rightarrow>
                  if \<not> direct_target_allowed (sock_ip control_peer) (sock_ip addr) then []
                  else [ToDirect addr payload]
              | None \<Rightarrow> [])
        | Proxy \<Rightarrow>
          (case dst of
             TIp ip \<Rightarrow> [ToTunnel (socket_new ip dst_port) payload]
           | TDomain name \<Rightarrow> (case dns_resolve (w_env w) dns name of
               Ok ip \<Rightarrow> [ToTunnel (socket_new ip dst_port) payload] | _ \<Rightarrow> [])))
   | _ \<Rightarrow> [])"

definition to_client :: "assoc \<Rightarrow> socket_addr \<Rightarrow> bytes \<Rightarrow> udp_out list" where
  "to_client st src data = (case client st of
     Some c \<Rightarrow> [ToClient c (build_udp_reply src data)] | None \<Rightarrow> [])"

definition udp_step ::
    "('re, 'net) world \<Rightarrow> socket_addr \<Rightarrow> ip_addr \<Rightarrow> assoc \<Rightarrow> udp_event \<Rightarrow> assoc \<times> udp_out list" where
  "udp_step w control_peer expected_ip st ev =
     (if \<not> live st then (st, [])
      else case ev of
        RelayRecv (Ok (buf, source)) dns \<Rightarrow>
          if \<not> udp_source_allowed expected_ip (client st) source then (st\<lparr>refused := refused st + 1\<rparr>, [])
          else
            (if client st = None then st\<lparr>client := Some source\<rparr> else st,
             forward_datagram w control_peer dns buf)
      | RelayRecv _ dns \<Rightarrow> (st\<lparr>live := False\<rparr>, [])
      | StackRecv (Some (src, data)) \<Rightarrow> (st, to_client st src data)
      | StackRecv None \<Rightarrow> (st\<lparr>live := False\<rparr>, [])
      | DirectRecv (Ok (data, source)) \<Rightarrow> (st, to_client st source data)
      | DirectRecv _ \<Rightarrow> (st, [])
      | CtrlRead (Ok n) \<Rightarrow> (if n = 0 then st\<lparr>live := False\<rparr> else st, [])
      | CtrlRead _ \<Rightarrow> (st\<lparr>live := False\<rparr>, []))"

text \<open>The handler: the relay socket is bound and reported, the tunnel's channel and the direct socket
  are opened, then the loop runs until it ends.\<close>

record udp_setup =
  us_bind :: "(io_error, socket_addr) run"
  us_open_udp :: "(aether_error, unit) run"
  us_direct :: "(io_error, unit) run"

definition handle_udp_associate ::
    "('re, 'net) world \<Rightarrow> udp_setup \<Rightarrow> target \<Rightarrow> udp_event list \<Rightarrow> ('x conn_scheme, assoc \<times> udp_out list) io" where
  "handle_udp_associate w us requested evs =
     seq (lift (map_err io_err (w_peer w))) (\<lambda>control_peer.
     seq (lift (map_err io_err (us_bind us))) (\<lambda>relay_addr.
     seq (reply_bound relay_addr) (\<lambda>_.
     seq (lift (us_open_udp us)) (\<lambda>_.
     seq (lift (map_err io_err (us_direct us))) (\<lambda>_.
     ret (run_all (udp_step w control_peer (expected_udp_source control_peer requested)) assoc_new evs))))))"

section \<open>DNS over a stream connector\<close>

definition DNS_PORT :: u16 where "DNS_PORT = 53"
definition DNS_MAX_IN_FLIGHT :: nat where "DNS_MAX_IN_FLIGHT = 32"

text \<open>The answer a stream gives to a framed query.\<close>

definition dns_over_stream :: "bytes \<Rightarrow> ('x sock_scheme, bytes) io" where
  "dns_over_stream query =
     (if length query > 65535 then fail (Io (lit ''dns query is too long to frame''))
      else
      seq (write_all (be16 (of_nat (length query)) @ query)) (\<lambda>_.
      seq (read_exact 2) (\<lambda>len.
      read_exact (unat (u16_be (len ! 0) (len ! 1))))))"

datatype dns_assoc_event =
    ClientDatagram "(io_error, bytes \<times> socket_addr) run"
  | LookupDone "(socket_addr \<times> bytes) option"
  | AnswerReady
  | CtrlClosed bool

datatype dns_assoc_out = StartLookup socket_addr bytes | AnswerClient socket_addr bytes

text \<open>\<open>in_flight\<close> counts the lookups that hold a permit, \<open>answers\<close> is the channel they put their answers
  into. A lookup that fails or times out only gives its permit back.\<close>

record dns_assoc =
  d_client :: "socket_addr option"
  d_refused :: u64
  d_dropped :: u64
  d_in_flight :: nat
  d_answers :: "(socket_addr \<times> bytes) list"
  d_live :: bool

definition dns_assoc_new :: dns_assoc where
  "dns_assoc_new = \<lparr>d_client = None, d_refused = 0, d_dropped = 0, d_in_flight = 0, d_answers = [], d_live = True\<rparr>"

definition dns_datagram :: "dns_assoc \<Rightarrow> bytes \<Rightarrow> dns_assoc \<times> dns_assoc_out list" where
  "dns_datagram st buf = (case parse_udp_request buf of
     Ok (dst, dst_port, payload) \<Rightarrow>
       if dst_port \<noteq> DNS_PORT then (st\<lparr>d_dropped := d_dropped st + 1\<rparr>, [])
       else (case dst of
         TDomain name \<Rightarrow> (st, [])
       | TIp ip \<Rightarrow>
         if d_in_flight st < DNS_MAX_IN_FLIGHT
         then (st\<lparr>d_in_flight := d_in_flight st + 1\<rparr>, [StartLookup (socket_new ip dst_port) payload])
         else (st, []))
   | _ \<Rightarrow> (st, []))"

definition dns_assoc_step :: "ip_addr \<Rightarrow> dns_assoc \<Rightarrow> dns_assoc_event \<Rightarrow> dns_assoc \<times> dns_assoc_out list" where
  "dns_assoc_step expected_ip st ev =
     (if \<not> d_live st then (st, [])
      else case ev of
        ClientDatagram (Ok (buf, source)) \<Rightarrow>
          if \<not> udp_source_allowed expected_ip (d_client st) source
          then (st\<lparr>d_refused := d_refused st + 1\<rparr>, [])
          else dns_datagram (if d_client st = None then st\<lparr>d_client := Some source\<rparr> else st) buf
      | ClientDatagram _ \<Rightarrow> (st\<lparr>d_live := False\<rparr>, [])
      | LookupDone r \<Rightarrow>
          if d_in_flight st = 0 then (st, [])
          else (st\<lparr>d_in_flight := d_in_flight st - 1,
                   d_answers := d_answers st @ (case r of Some a \<Rightarrow> [a] | None \<Rightarrow> [])\<rparr>, [])
      | AnswerReady \<Rightarrow>
          (case d_answers st of
             [] \<Rightarrow> (st, [])
           | (src, answer) # rest \<Rightarrow>
             (st\<lparr>d_answers := rest\<rparr>,
              case d_client st of Some c \<Rightarrow> [AnswerClient c (build_udp_reply src answer)] | None \<Rightarrow> []))
      | CtrlClosed closed \<Rightarrow> (if closed then st\<lparr>d_live := False\<rparr> else st, []))"

section \<open>The client handler\<close>

definition handle_client ::
    "('re, 'net) world \<Rightarrow> udp_setup \<Rightarrow> bool \<Rightarrow> udp_event list \<Rightarrow> ('x conn_scheme, udp_out list) io" where
  "handle_client w us late evs =
     seq (if late then fail (Other (lit ''the client did not finish the socks5 handshake in time''))
          else read_request) (\<lambda>(cmd, target, port).
     if cmd = CMD_CONNECT then seq (handle_connect w target port) (\<lambda>_. ret [])
     else if cmd = CMD_UDP_ASSOCIATE then seq (handle_udp_associate w us target evs) (\<lambda>(st, outs). ret outs)
     else seq (reply REP_NOT_SUPPORTED) (\<lambda>_. fail (Other (lit ''unsupported socks command''))))"


section \<open>Lemmas\<close>

lemma normalize_ip_idem [simp]: "normalize_ip (normalize_ip ip) = normalize_ip ip"
  by (auto simp: normalize_ip_def split: ip_addr.splits option.splits)

lemma read_answer_safe: "read_answer m q \<noteq> Panic"
proof -
  have "safe (parse_dns_answer m q)"
    by (auto simp: parse_dns_answer_def safe_address_answers intro!: safe_bnd)
  then show ?thesis by (auto simp: read_answer_def safe_def split: run.splits)
qed

lemma await_safe: "fst (await_answer name q qid evs) \<noteq> Panic"
proof (induction evs)
  case (Cons ev evs)
  show ?case
  proof (cases ev)
    case (DnsReply src m)
    have "dns_response_matches m qid name q \<noteq> Panic"
      using safe_response_matches [of m qid name q] by (simp add: same_check safe_def)
    then show ?thesis
      using Cons read_answer_safe [of m q] DnsReply
      by (cases "dns_response_matches m qid name q"; cases "read_answer m q") (auto split: bool.splits)
  qed simp_all
qed simp

lemma try_servers_safe: "fst (try_servers io name q n lst ss evs) \<noteq> Panic"
proof (induction ss arbitrary: n lst evs)
  case (Cons server ss)
  then show ?case
    using await_safe [of name q "query_id io n" evs]
    by (auto split: option.splits run.splits prod.splits)
qed simp

lemma dns_resolve_safe: "open_udp dns \<noteq> Panic \<Longrightarrow> dns_resolve env dns name \<noteq> Panic"
proof -
  have t: "fst (dns_exchange env io name q n evs) \<noteq> Panic" for io q n evs
    unfolding dns_exchange_def by (rule try_servers_safe)
  have "resolve_preferring_v4 env io evs name \<noteq> Panic" for io evs
  proof -
    obtain x n t' where e: "dns_exchange env io name QTYPE_A 0 evs = (x, n, t')"
      by (cases "dns_exchange env io name QTYPE_A 0 evs")
    show ?thesis
      using t [of io QTYPE_A 0 evs] t [of io QTYPE_AAAA n t'] e
      by (cases x; cases "fst (dns_exchange env io name QTYPE_AAAA n t')")
        (auto simp: resolve_preferring_v4_def split: dns_answer.splits)
  qed
  then show "open_udp dns \<noteq> Panic \<Longrightarrow> dns_resolve env dns name \<noteq> Panic"
    by (cases "open_udp dns") (auto simp: dns_resolve_def)
qed

text \<open>What a forwarded datagram may be: it was not blocked, and a direct one may go where it goes.\<close>

definition permitted :: "('re, 'net) world \<Rightarrow> socket_addr \<Rightarrow> udp_out \<Rightarrow> bool" where
  "permitted w control_peer out = (case out of
     ToTunnel dst payload \<Rightarrow> (\<exists>t. decide (w_deps w) (w_routes w) (host_of t) (sock_port dst) = Proxy \<and>
       (\<forall>ip. t = TIp ip \<longrightarrow> dst = socket_new ip (sock_port dst)))
   | ToDirect addr payload \<Rightarrow> direct_target_allowed (sock_ip control_peer) (sock_ip addr)
   | ToClient c packet \<Rightarrow> True)"

lemma sock_port_new [simp]: "sock_port (socket_new ip p) = p"
  by (cases ip) (simp_all add: socket_new_def sock_port_def)

lemma forward_cases:
  assumes "out \<in> set (forward_datagram w peer dns buf)"
  obtains dst port payload a where "parse_udp_request buf = Ok (dst, port, payload)"
      "decide (w_deps w) (w_routes w) (host_of dst) port = Proxy" "out = ToTunnel a payload"
      "sock_port a = port" "\<And>ip. dst = TIp ip \<Longrightarrow> a = socket_new ip port"
    | dst port payload a where "parse_udp_request buf = Ok (dst, port, payload)"
      "decide (w_deps w) (w_routes w) (host_of dst) port = Direct" "out = ToDirect a payload"
      "direct_target_allowed (sock_ip peer) (sock_ip a)"
proof -
  obtain dst port payload where p: "parse_udp_request buf = Ok (dst, port, payload)"
    using assms by (cases "parse_udp_request buf") (auto simp: forward_datagram_def)
  show ?thesis
  proof (cases "decide (w_deps w) (w_routes w) (host_of dst) port")
    case Proxy
    then show ?thesis
      using assms p that(1) [OF p Proxy]
      by (cases dst) (auto simp: forward_datagram_def split: run.splits)
  next
    case Direct
    then show ?thesis
      using assms p that(2) [OF p Direct]
      by (cases dst) (auto simp: forward_datagram_def Let_def split: run.splits list.splits option.splits if_splits)
  next
    case Block
    then show ?thesis using assms p by (simp add: forward_datagram_def)
  qed
qed

lemma forward_permitted: "out \<in> set (forward_datagram w peer dns buf) \<Longrightarrow> permitted w peer out"
  by (erule forward_cases) (auto simp: permitted_def)

lemma forward_not_client [simp]: "ToClient d p \<notin> set (forward_datagram w peer dns buf)"
  by (auto elim: forward_cases)

definition serves :: "ip_addr \<Rightarrow> assoc \<Rightarrow> bool" where
  "serves expected_ip st \<longleftrightarrow> (\<forall>c. client st = Some c \<longrightarrow> normalize_ip (sock_ip c) = normalize_ip expected_ip)"

interpretation ua: machine "udp_step w peer expected" "serves expected" "permitted w peer"
  for w :: "('re, 'net) world" and peer expected
proof
  show "serves expected (fst (udp_step w peer expected st ev))" if "serves expected st" for st ev
    using that
    by (auto simp: udp_step_def serves_def udp_source_allowed_def split: udp_event.splits run.splits option.splits)
  show "permitted w peer out" if "serves expected st" "out \<in> set (snd (udp_step w peer expected st ev))" for st ev out
    using that forward_permitted
    by (auto simp: udp_step_def to_client_def permitted_def [of w peer "ToClient _ _"]
        split: udp_event.splits run.splits option.splits if_splits)
qed

text \<open>The client an association is latched to stays, is the one answered, and the one heard.\<close>

lemma udp_step_latched:
  "client st = Some c \<Longrightarrow> client (fst (udp_step w peer expected st ev)) = Some c"
  by (auto simp: udp_step_def split: udp_event.splits run.splits option.splits)

lemma udp_run_latched:
  "client st = Some c \<Longrightarrow> client (fst (run_all (udp_step w peer expected) st evs)) = Some c"
  by (induction evs arbitrary: st) (auto simp: Let_def split_beta udp_step_latched)

lemma udp_step_outs:
  assumes "out \<in> set (snd (udp_step w peer expected st ev))"
  shows "\<exists>c. client (fst (udp_step w peer expected st ev)) = Some c \<and>
    (case out of ToClient d packet \<Rightarrow> d = c
     | _ \<Rightarrow> \<exists>buf dns. ev = RelayRecv (Ok (buf, c)) dns \<and> out \<in> set (forward_datagram w peer dns buf))"
  using assms
  by (auto simp: udp_step_def to_client_def udp_source_allowed_def
      split: udp_event.splits run.splits option.splits if_splits udp_out.splits)

lemma udp_run_outs:
  "out \<in> set (snd (run_all (udp_step w peer expected) st evs)) \<Longrightarrow>
   \<exists>c. client (fst (run_all (udp_step w peer expected) st evs)) = Some c \<and>
    (case out of ToClient d packet \<Rightarrow> d = c
     | _ \<Rightarrow> \<exists>buf dns. RelayRecv (Ok (buf, c)) dns \<in> set evs \<and> out \<in> set (forward_datagram w peer dns buf))"
proof (induction evs arbitrary: st)
  case (Cons ev evs)
  let ?st' = "fst (udp_step w peer expected st ev)"
  consider "out \<in> set (snd (udp_step w peer expected st ev))"
    | "out \<in> set (snd (run_all (udp_step w peer expected) ?st' evs))"
    using Cons.prems by (auto simp: Let_def split_beta)
  then show ?case
  proof cases
    case 1
    from udp_step_outs [OF this] obtain c where "client ?st' = Some c"
      "case out of ToClient d packet \<Rightarrow> d = c
       | _ \<Rightarrow> \<exists>buf dns. ev = RelayRecv (Ok (buf, c)) dns \<and> out \<in> set (forward_datagram w peer dns buf)" by blast
    then show ?thesis
      using udp_run_latched [of ?st' c w peer expected evs]
      by (auto simp: Let_def split_beta split: udp_out.splits)
  next
    case 2
    from Cons.IH [OF this] show ?thesis by (auto simp: Let_def split_beta split: udp_out.splits) blast+
  qed
qed simp


text \<open>The association that carries DNS over a connector: lookups are to port 53, at most 32 at once.\<close>

definition within_limit :: "ip_addr \<Rightarrow> dns_assoc \<Rightarrow> bool" where
  "within_limit expected_ip st \<longleftrightarrow> d_in_flight st \<le> DNS_MAX_IN_FLIGHT \<and>
     (\<forall>c. d_client st = Some c \<longrightarrow> normalize_ip (sock_ip c) = normalize_ip expected_ip)"

definition dns_only :: "ip_addr \<Rightarrow> dns_assoc_out \<Rightarrow> bool" where
  "dns_only expected_ip out = (case out of
     StartLookup resolver query \<Rightarrow> sock_port resolver = DNS_PORT
   | AnswerClient c packet \<Rightarrow> normalize_ip (sock_ip c) = normalize_ip expected_ip)"

lemma dns_datagram_limit:
  "within_limit e st \<Longrightarrow> within_limit e (fst (dns_datagram st buf)) \<and> list_all (dns_only e) (snd (dns_datagram st buf))"
  by (cases "parse_udp_request buf")
    (auto simp: dns_datagram_def within_limit_def dns_only_def split: target.splits if_splits)

interpretation da: machine "dns_assoc_step expected" "within_limit expected" "dns_only expected" for expected
proof
  fix st ev
  assume inv: "within_limit expected st"
  have latch: "within_limit expected (if d_client st = None then st\<lparr>d_client := Some c\<rparr> else st)"
    if "udp_source_allowed expected (d_client st) c" for c
    using inv that by (auto simp: within_limit_def udp_source_allowed_def split: option.splits)
  have "within_limit expected (fst (dns_assoc_step expected st ev)) \<and>
      list_all (dns_only expected) (snd (dns_assoc_step expected st ev))"
  proof (cases "d_live st")
    case True
    show ?thesis
    proof (cases ev)
      case (ClientDatagram r)
      show ?thesis
      proof (cases r)
        case (Ok a)
        obtain buf c where a: "a = (buf, c)" by (cases a)
        show ?thesis
        proof (cases "udp_source_allowed expected (d_client st) c")
          case allowed: True
          have "dns_assoc_step expected st ev =
              dns_datagram (if d_client st = None then st\<lparr>d_client := Some c\<rparr> else st) buf"
            using True allowed by (simp add: dns_assoc_step_def ClientDatagram Ok a)
          then show ?thesis using dns_datagram_limit [OF latch [OF allowed]] by simp
        next
          case False
          then show ?thesis
            using inv True by (simp add: dns_assoc_step_def ClientDatagram Ok a within_limit_def)
        qed
      qed (use inv True ClientDatagram in \<open>simp_all add: dns_assoc_step_def within_limit_def\<close>)
    next
      case AnswerReady
      then show ?thesis
        using inv True by (auto simp: dns_assoc_step_def within_limit_def dns_only_def split: list.splits option.splits)
    qed (use inv True in \<open>auto simp: dns_assoc_step_def within_limit_def\<close>)
  qed (use inv in \<open>simp add: dns_assoc_step_def\<close>)
  note step = this
  show "within_limit expected (fst (dns_assoc_step expected st ev))" using step by blast
  show "dns_only expected out" if "out \<in> set (snd (dns_assoc_step expected st ev))" for out
    using step that by (simp add: list_all_iff)
qed

section \<open>Properties\<close>

text \<open>C13. An association serves one client. Whatever arrives, from whomever and in any order, every
  datagram handed back goes to one address, the one the association is latched to, whose IP is the
  one the association was opened for; and every datagram passed on was sent from that very
  address and not blocked, and one that is passed on directly may go there.\<close>

theorem udp_association_serves_one_client:
  assumes "run_all (udp_step w peer expected) assoc_new evs = (st, outs)" "out \<in> set outs"
  shows "\<exists>c. client st = Some c \<and> normalize_ip (sock_ip c) = normalize_ip expected \<and>
    (case out of
       ToClient d packet \<Rightarrow> d = c
     | ToTunnel a payload \<Rightarrow> (\<exists>buf dns dst port. RelayRecv (Ok (buf, c)) dns \<in> set evs \<and>
         parse_udp_request buf = Ok (dst, port, payload) \<and>
         decide (w_deps w) (w_routes w) (host_of dst) port = Proxy \<and> sock_port a = port)
     | ToDirect a payload \<Rightarrow> (\<exists>buf dns dst port. RelayRecv (Ok (buf, c)) dns \<in> set evs \<and>
         parse_udp_request buf = Ok (dst, port, payload) \<and>
         decide (w_deps w) (w_routes w) (host_of dst) port = Direct \<and>
         direct_target_allowed (sock_ip peer) (sock_ip a)))"
proof -
  have "serves expected assoc_new" by (simp add: serves_def assoc_new_def)
  from ua.run_inv [OF this, of w peer evs] have inv: "serves expected st" by (simp add: assms(1))
  obtain c where c: "client st = Some c"
      "case out of ToClient d packet \<Rightarrow> d = c
       | _ \<Rightarrow> \<exists>buf dns. RelayRecv (Ok (buf, c)) dns \<in> set evs \<and> out \<in> set (forward_datagram w peer dns buf)"
    using udp_run_outs [of out w peer expected assoc_new evs] assms by auto
  show ?thesis
  proof (intro exI [of _ c] conjI)
    show "normalize_ip (sock_ip c) = normalize_ip expected" using inv c(1) by (simp add: serves_def)
  qed (use c in \<open>auto split: udp_out.splits elim!: forward_cases\<close>)
qed


lemma udp_demo:
  "run_all (udp_step demo_world (SockV4 7 1) (V4 7)) assoc_new
     [RelayRecv (Ok (datagram_bytes 0 0 (TIp (V4 9)) 53 [1], SockV4 7 2)) \<lparr>open_udp = Err Cancelled\<rparr>] =
   (assoc_new\<lparr>client := Some (SockV4 7 2)\<rparr>, [ToTunnel (SockV4 9 53) [1]])"
  by (simp add: udp_step_def assoc_new_def udp_source_allowed_def sock_ip_def forward_datagram_def parse_udp_datagram
      decide_def demo_world_def socket_new_def)

theorem udp_association_serves_one_client_witness:
  "\<exists>c. client (assoc_new\<lparr>client := Some (SockV4 7 2)\<rparr>) = Some c \<and> normalize_ip (sock_ip c) = normalize_ip (V4 7) \<and>
    (\<exists>buf dns dst port. RelayRecv (Ok (buf, c)) dns \<in>
        set [RelayRecv (Ok (datagram_bytes 0 0 (TIp (V4 9)) 53 [1], SockV4 7 2)) \<lparr>open_udp = Err Cancelled\<rparr>] \<and>
      parse_udp_request buf = Ok (dst, port, [1]) \<and>
      decide (w_deps demo_world) (w_routes demo_world) (host_of dst) port = Proxy \<and> sock_port (SockV4 9 53) = port)"
  using udp_association_serves_one_client [OF udp_demo, of "ToTunnel (SockV4 9 53) [1]"] by (simp only: list.set udp_out.case insertI1)

text \<open>The association that carries DNS over a connector starts only lookups at port 53, holds at most
  32 of them at once however fast datagrams come, and answers only the client it was opened
  for.\<close>

theorem dns_association_limited:
  assumes "run_all (dns_assoc_step expected) dns_assoc_new evs = (st, outs)"
  shows "d_in_flight st \<le> 32 \<and>
    (\<forall>resolver query. StartLookup resolver query \<in> set outs \<longrightarrow> sock_port resolver = 53) \<and>
    (\<forall>c packet. AnswerClient c packet \<in> set outs \<longrightarrow> normalize_ip (sock_ip c) = normalize_ip expected)"
proof -
  have i: "within_limit expected dns_assoc_new" by (simp add: within_limit_def dns_assoc_new_def)
  have "within_limit expected st" using da.run_inv [OF i, of evs] by (simp add: assms)
  moreover have good: "dns_only expected out" if "out \<in> set outs" for out
    using da.run_good [OF i, of out evs] that by (simp add: assms)
  moreover have "sock_port resolver = 53" if "StartLookup resolver query \<in> set outs" for resolver query
    using good [OF that] by (simp add: dns_only_def DNS_PORT_def)
  moreover have "normalize_ip (sock_ip c) = normalize_ip expected" if "AnswerClient c packet \<in> set outs" for c packet
    using good [OF that] by (simp add: dns_only_def)
  ultimately show ?thesis unfolding within_limit_def DNS_MAX_IN_FLIGHT_def by blast
qed

theorem dns_association_limited_witness:
  "let (st, outs) = run_all (dns_assoc_step (V4 7)) dns_assoc_new
       [ClientDatagram (Ok (datagram_bytes 0 0 (TIp (V4 9)) 53 [1], SockV4 7 2))] in
   outs = [StartLookup (SockV4 9 53) [1]] \<and> d_in_flight st \<le> 32 \<and>
    (\<forall>resolver query. StartLookup resolver query \<in> set outs \<longrightarrow> sock_port resolver = 53)"
  using dns_association_limited [of "V4 7" "[ClientDatagram (Ok (datagram_bytes 0 0 (TIp (V4 9)) 53 [1], SockV4 7 2))]"]
  by (simp add: dns_assoc_step_def dns_assoc_new_def udp_source_allowed_def sock_ip_def dns_datagram_def
      parse_udp_datagram DNS_PORT_def DNS_MAX_IN_FLIGHT_def socket_new_def sock_port_def)

end
