(* ===== verification/HttpProxy.thy ===== *)
theory HttpProxy
  imports Connect
begin

text \<open>
  The HTTP proxy port (\<^verbatim>\<open>aether/src/socks.rs\<close>): reading a request head off the client's stream, the
  request line with its authority, and the handler that sends the request through the tunnel, out
  directly, or nowhere.
\<close>

section \<open>Request lines\<close>

definition parse_authority :: "str \<Rightarrow> u16 \<Rightarrow> (str \<times> u16) option" where
  "parse_authority raw default_port =
     (let raw = trim raw in
      if raw = [] then None
      else case strip_prefix raw [91] of
        Some rest \<Rightarrow>
          (case split_once 93 rest of None \<Rightarrow> None | Some (host, tail) \<Rightarrow>
           if host = [] then None
           else (case strip_prefix tail [58] of
             Some v \<Rightarrow> map_option (\<lambda>port. (host, port)) (parse_u16 v)
           | None \<Rightarrow> Some (host, default_port)))
      | None \<Rightarrow>
          (case rsplit_once 58 raw of
             Some (host, port) \<Rightarrow>
               if \<not> contains host [58] then
                 (if host = [] then None else map_option (\<lambda>port. (host, port)) (parse_u16 port))
               else Some (raw, default_port)
           | None \<Rightarrow> Some (raw, default_port)))"

record http_request_line =
  rq_method :: str
  rq_authority :: str
  rq_port :: u16
  rq_rewritten :: "str option"

definition parse_request_line :: "str \<Rightarrow> http_request_line option" where
  "parse_request_line line = (case split_whitespace line of
     method # target # others \<Rightarrow>
       (let version = (case others of v # _ \<Rightarrow> v | [] \<Rightarrow> lit ''HTTP/1.1'') in
        if eq_ignore_ascii_case method (lit ''CONNECT'') then
          map_option (\<lambda>(authority, port). \<lparr>rq_method = method, rq_authority = authority, rq_port = port,
            rq_rewritten = None\<rparr>) (parse_authority target 443)
        else
          (case (case strip_prefix target (lit ''http://'') of
                   Some r \<Rightarrow> Some r | None \<Rightarrow> strip_prefix target (lit ''HTTP://'')) of
             None \<Rightarrow> None
           | Some without_scheme \<Rightarrow>
             (let (authority_part, path) = (case find_sub [47] without_scheme of
                    Some index \<Rightarrow> (take index without_scheme, drop index without_scheme)
                  | None \<Rightarrow> (without_scheme, [47]))
              in map_option (\<lambda>(authority, port). \<lparr>rq_method = method, rq_authority = authority, rq_port = port,
                   rq_rewritten = Some (method @ [32] @ path @ [32] @ version @ [13, 10])\<rparr>)
                   (parse_authority authority_part 80))))
   | _ \<Rightarrow> None)"

section \<open>Reading the head\<close>

definition HTTP_HEAD_LIMIT :: nat where "HTTP_HEAD_LIMIT = 16 * 1024"

text \<open>The loop of \<^verbatim>\<open>read_head\<close> over the bytes read so far: it looks for the end of the head only from
  three bytes before the new piece.\<close>

function head_loop :: "bytes \<Rightarrow> arrival list \<Rightarrow> (aether_error, bytes \<times> bytes) run \<times> arrival list" where
  "head_loop buf r = (case read_segs 2048 r of
     (Err e, q) \<Rightarrow> (Err (io_err e), q)
   | (Panic, q) \<Rightarrow> (Panic, q)
   | (Ok chunk, q) \<Rightarrow>
     if chunk = [] then (Err (Other (lit ''the http client closed before sending a request'')), q)
     else
       (let search_from = length buf - 3; buf = buf @ chunk in
        case find_sub [13, 10, 13, 10] (drop search_from buf) of
          Some pos \<Rightarrow> (Ok (take (search_from + pos + 4) buf, drop (search_from + pos + 4) buf), q)
        | None \<Rightarrow>
          if length buf > HTTP_HEAD_LIMIT then (Err (Other (lit ''http request head too large'')), q)
          else head_loop buf q))"
  by pat_completeness auto
termination
  by (relation "measure (\<lambda>(_, r). weight r)")
    (auto dest: read_segs_smaller [OF sym])

declare head_loop.simps [simp del]

definition read_head :: "('x sock_scheme, bytes \<times> bytes) io" where
  "read_head s = (let (r, q) = head_loop [] (rx s) in (r, s\<lparr>rx := q\<rparr>))"

section \<open>The handler\<close>

definition status_line :: "string \<Rightarrow> bytes" where
  "status_line text = lit ''HTTP/1.1 '' @ lit text @ [13, 10] @ lit ''Connection: close'' @ [13, 10, 13, 10]"

definition established :: bytes where
  "established = lit ''HTTP/1.1 200 Connection established'' @ [13, 10, 13, 10]"

definition open_tunneled :: "('re, 'net) world \<Rightarrow> target \<Rightarrow> u16 \<Rightarrow> ('x conn_scheme, bytes) io" where
  "open_tunneled w target port s =
     (let direct = seq (lift (resolve (w_env w) (w_dns w) target)) (\<lambda>ip.
            seq (emit (OpenTcp (socket_new ip port))) (\<lambda>_.
            seq (lift (w_open_tcp w (socket_new ip port))) (\<lambda>_.
            ret [])))
      in case (if should_use_gateway port then gateway_proxy w (gw_healthy s) else None) of
           Some proxy \<Rightarrow>
             seq (attempt (open_through_gateway w proxy (show_target target) port)) (\<lambda>r. case r of
               Ok leftover \<Rightarrow> ret leftover
             | Err e \<Rightarrow> seq retire_gateway (\<lambda>_. direct)
             | Panic \<Rightarrow> lift Panic) s
         | None \<Rightarrow> direct s)"

definition rest_of_head :: "str \<Rightarrow> str" where
  "rest_of_head text = (case find_sub [13, 10] text of Some at \<Rightarrow> drop (at + 2) text | None \<Rightarrow> [])"

definition relay_http_direct ::
    "('re, 'net) world \<Rightarrow> http_request_line \<Rightarrow> bytes \<Rightarrow> bytes \<Rightarrow> ('x conn_scheme, unit) io" where
  "relay_http_direct w request head early =
     seq (lift (map_err io_err (w_peer w))) (\<lambda>peer.
     let (tried, outcome) = direct_within_timeout w (rq_authority request) (rq_port request) (sock_ip peer) in
     seq (emit_all (map TryDirect tried)) (\<lambda>_.
     case (case outcome of
             Some r \<Rightarrow> r
           | None \<Rightarrow> Err (io_new TimedOut (lit ''direct connect to '' @ rq_authority request @ [58] @
               show_nat (unat (rq_port request)) @ lit '' timed out''))) of
       Panic \<Rightarrow> lift Panic
     | Err error \<Rightarrow>
       seq (attempt (write_all (if kind error = PermissionDenied then status_line ''403 Forbidden''
              else status_line ''502 Bad Gateway''))) (\<lambda>_. fail (io_err error))
     | Ok _ \<Rightarrow>
       seq (case rq_rewritten request of
              Some line \<Rightarrow>
                (case w_direct_write w of
                   Some e \<Rightarrow> fail (io_err e)
                 | None \<Rightarrow> emit (WriteDirect (line @ rest_of_head (utf8_lossy head))))
            | None \<Rightarrow> write_all established) (\<lambda>_.
       seq (if early = [] then ret () else case w_direct_write w of
              Some e \<Rightarrow> fail (io_err e) | None \<Rightarrow> emit (WriteDirect early)) (\<lambda>_.
       emit RelayDirect))))"

text \<open>\<open>late\<close>: the head does not come in time.\<close>

definition handle_http_client :: "('re, 'net) world \<Rightarrow> bool \<Rightarrow> ('x conn_scheme, unit) io" where
  "handle_http_client w late =
     seq (if late then fail (Other (lit ''the client did not send a request head in time'')) else read_head)
       (\<lambda>(head, early).
     let text = utf8_lossy head;
         first_line = (case lines text of l # _ \<Rightarrow> l | [] \<Rightarrow> []) in
     case parse_request_line first_line of
       None \<Rightarrow>
         seq (attempt (write_all (status_line ''400 Bad Request''))) (\<lambda>_.
         fail (Other (lit ''unsupported http proxy request: '' @ first_line)))
     | Some request \<Rightarrow>
       (let target = (case parse_ip (rq_authority request) of Some ip \<Rightarrow> TIp ip | None \<Rightarrow> TDomain (rq_authority request)) in
        case decide (w_deps w) (w_routes w) (host_of target) (rq_port request) of
          Block \<Rightarrow> seq (attempt (write_all (status_line ''403 Forbidden''))) (\<lambda>_. ret ())
        | Direct \<Rightarrow> relay_http_direct w request head early
        | Proxy \<Rightarrow>
          seq (attempt (open_tunneled w target (rq_port request))) (\<lambda>r. case r of
            Panic \<Rightarrow> lift Panic
          | Err error \<Rightarrow> seq (attempt (write_all (status_line ''502 Bad Gateway''))) (\<lambda>_. fail error)
          | Ok leftover \<Rightarrow>
            seq (if rq_rewritten request = None then write_all established else ret ()) (\<lambda>_.
            seq (if leftover = [] then ret (Ok ()) else attempt (write_all leftover)) (\<lambda>wr.
            if wr \<noteq> Ok () then ret ()
            else
            seq (case rq_rewritten request of
                   None \<Rightarrow> ret True
                 | Some line \<Rightarrow> (case w_send_up w of
                     Some e \<Rightarrow> ret False
                   | None \<Rightarrow> seq (emit (SendUp (line @ rest_of_head text))) (\<lambda>_. ret True))) (\<lambda>ok1.
            if \<not> ok1 then ret ()
            else
            seq (if early = [] then ret True else case w_send_up w of
                     Some e \<Rightarrow> ret False
                   | None \<Rightarrow> seq (emit (SendUp early)) (\<lambda>_. ret True)) (\<lambda>ok2.
            if \<not> ok2 then ret () else emit RelayTunneled)))))))"


section \<open>Lemmas: the head\<close>

lemma head_loop_found:
  assumes "clean r" "find_sub [13, 10, 13, 10] buf = None" "find_head_end (buf @ sent r) = Some n" "n \<le> HTTP_HEAD_LIMIT"
  shows "\<exists>e q. head_loop buf r = (Ok (take n (buf @ sent r), e), q) \<and> buf @ sent r = take n (buf @ sent r) @ e @ sent q \<and> clean q"
  using assms
proof (induction buf r rule: head_loop.induct)
  case (1 buf r)
  obtain k where k: "find_sub [13, 10, 13, 10] (buf @ sent r) = Some k" "n = k + 4"
    using "1.prems"(3) by (auto simp: find_head_end_def)
  obtain b q where b: "read_segs 2048 r = (Ok b, q)" "sent r = b @ sent q" "clean q" "b = [] \<longrightarrow> sent r = []"
    using read_segs_sent [OF "1.prems"(1), of 2048] by auto
  have ne: "b \<noteq> []" using b(4) k(1) "1.prems"(2) by auto
  have whole: "find_sub [13, 10, 13, 10] (buf @ b) =
      map_option ((+) (length buf - 3)) (find_sub [13, 10, 13, 10] (drop (length buf - 3) (buf @ b)))"
    using find_sub_resume [OF _ "1.prems"(2), of b] by (simp add: numeral_3_eq_3)
  show ?case
  proof (cases "find_sub [13, 10, 13, 10] (buf @ b)")
    case None
    then have short: "length (buf @ b) < n"
      using find_sub_None [of "[13, 10, 13, 10]" "buf @ b"] k b(2)
        find_sub_prefix [of "[13, 10, 13, 10]" "buf @ b" "sent q" k] by (cases "length (buf @ b) < n") auto
    have lim: "\<not> HTTP_HEAD_LIMIT < length (buf @ b)" using short "1.prems"(4) by simp
    have part: "find_sub [13, 10, 13, 10] (drop (length buf - 3) (buf @ b)) = None"
      using None whole by (simp del: drop_append)
    have step: "head_loop buf r = head_loop (buf @ b) q"
      using b(1) ne part lim by (simp add: head_loop.simps [of buf r] Let_def del: drop_append)
    show ?thesis
      using "1.IH" [OF b(1) [symmetric] refl ne refl refl part lim b(3) None] k b(2) "1.prems"(4)
      by (simp add: step find_head_end_def)
  next
    case (Some j)
    then have j: "j = k"
      using find_sub_before [of "[13, 10, 13, 10]" "buf @ b" "sent q" k] k(1) b(2)
        find_sub_prefix [of "[13, 10, 13, 10]" "buf @ b" "sent q" k]
      by (cases "length (buf @ b) < k + 4") auto
    have len: "k + 4 \<le> length (buf @ b)"
      using Some j starts_with_length [of "drop k (buf @ b)" "[13, 10, 13, 10]"] by (simp add: find_sub_Some)
    obtain i where i: "find_sub [13, 10, 13, 10] (drop (length buf - 3) (buf @ b)) = Some i"
        "length buf - 3 + i = k"
      using Some j whole by (auto simp del: drop_append)
    have "head_loop buf r = (Ok (take n (buf @ b), drop n (buf @ b)), q)"
      using b(1) ne i k(2) by (simp add: head_loop.simps [of buf r] Let_def del: drop_append take_append)
    moreover have t: "take n (buf @ b) = take n (buf @ sent r)"
      using len k(2) b(2) by (simp add: take_append)
    moreover have "take n (buf @ b) @ drop n (buf @ b) @ sent q = buf @ sent r"
      using append_take_drop_id [of n "buf @ b"] b(2) append_assoc by metis
    ultimately show ?thesis using b(3)
      by (intro exI [of _ "drop n (buf @ b)"] exI [of _ q]) (simp only: simp_thms)
  qed
qed

lemma read_head_found:
  assumes "clean (rx s)" "find_head_end (sent (rx s)) = Some n" "n \<le> HTTP_HEAD_LIMIT"
  obtains early q where "read_head s = (Ok (take n (sent (rx s)), early), s\<lparr>rx := q\<rparr>)"
    "sent (rx s) = take n (sent (rx s)) @ early @ sent q" "clean q"
proof -
  have "find_sub [13, 10, 13, 10] [] = None" by simp
  from head_loop_found [OF assms(1) this, unfolded append_Nil, OF assms(2,3)]
  obtain e q where e: "head_loop [] (rx s) = (Ok (take n (sent (rx s)), e), q)"
    "sent (rx s) = take n (sent (rx s)) @ e @ sent q" "clean q" by blast
  then have "read_head s = (Ok (take n (sent (rx s)), e), s\<lparr>rx := q\<rparr>)" by (simp add: read_head_def)
  then show thesis using e(2,3) by (rule that)
qed

lemma head_loop_missing:
  assumes "clean r" "find_sub [13, 10, 13, 10] (buf @ sent r) = None" "length buf \<le> HTTP_HEAD_LIMIT"
  shows "\<exists>q. head_loop buf r = (Err (Other (if length (buf @ sent r) \<le> HTTP_HEAD_LIMIT
    then lit ''the http client closed before sending a request'' else lit ''http request head too large'')), q)"
  using assms
proof (induction buf r rule: head_loop.induct)
  case (1 buf r)
  obtain b q where b: "read_segs 2048 r = (Ok b, q)" "sent r = b @ sent q" "clean q" "b = [] \<longrightarrow> sent r = []"
    using read_segs_sent [OF "1.prems"(1), of 2048] by auto
  show ?case
  proof (cases "b = []")
    case True
    then show ?thesis using b "1.prems"(3) by (simp add: head_loop.simps [of buf r])
  next
    case ne: False
    have none: "find_sub [13, 10, 13, 10] (drop k (buf @ b)) = None" for k
      using "1.prems"(2) b(2) find_sub_front [of _ "buf @ b" "sent q"] by (intro find_sub_drop) auto
    show ?thesis
    proof (cases "HTTP_HEAD_LIMIT < length (buf @ b)")
      case True
      then show ?thesis using b(1,2) ne none [of "length buf - 3"]
        by (simp add: head_loop.simps [of buf r] Let_def del: drop_append)
    next
      case False
      have "head_loop buf r = head_loop (buf @ b) q"
        using b(1) ne none [of "length buf - 3"] False by (simp add: head_loop.simps [of buf r] Let_def del: drop_append)
      then show ?thesis
        using "1.IH" [OF b(1) [symmetric] refl ne refl refl none False b(3)] False b(2) "1.prems"(2) by simp
    qed
  qed
qed

section \<open>Lemmas: the request line\<close>

lemma rest_of_head_line: "13 \<notin> set l \<Longrightarrow> rest_of_head (l @ [13, 10] @ r) = r"
  using find_sub_at [of "[13, 10]" l r] by (simp add: rest_of_head_def)

lemma visible_noneol: "list_all visible u \<Longrightarrow> 10 \<notin> set u \<and> 13 \<notin> set u"
  by (auto simp: list_all_iff visible_def ascii_ws_def)

lemma parse_absolute_form:
  assumes "list_all visible m" "m \<noteq> []" "\<not> eq_ignore_ascii_case m (lit ''CONNECT'')"
    "list_all visible a" "47 \<notin> set a" "list_all visible p" "list_all visible v" "v \<noteq> []"
    "parse_authority a 80 = Some (host, port)"
  shows "parse_request_line (m @ [32] @ (lit ''http://'' @ a @ 47 # p) @ [32] @ v) =
    Some \<lparr>rq_method = m, rq_authority = host, rq_port = port,
      rq_rewritten = Some (m @ [32] @ (47 # p) @ [32] @ v @ [13, 10])\<rparr>"
proof -
  have sl: "visible 47" by (simp add: visible_def ascii_ws_def)
  have h: "list_all visible (lit ''http://'')" by (simp add: lit_def visible_def ascii_ws_def)
  have sp: "strip_prefix (lit ''http://'' @ a @ 47 # p) (lit ''http://'') = Some (a @ 47 # p)"
    by (simp add: strip_prefix_def starts_with_def)
  have "split_whitespace (m @ [32] @ (lit ''http://'' @ a @ 47 # p) @ [32] @ v) = [m, lit ''http://'' @ a @ 47 # p, v]"
    using assms sl h by (intro split_ws_words) (simp_all add: lit_def)
  then show ?thesis
    using assms(3,9) sp find_sub_at [of "[47]" a p] assms(5) by (simp add: parse_request_line_def)
qed

lemma open_tunneled_plain:
  assumes "w_gateway w = None" "resolve (w_env w) (w_dns w) target = Ok ip" "w_open_tcp w (socket_new ip port) = Ok ()"
  shows "open_tunneled w target port s = (Ok [], s\<lparr>acts := acts s @ [OpenTcp (socket_new ip port)]\<rparr>)"
  using assms by (simp add: open_tunneled_def gateway_proxy_def seq_def)

text \<open>A proxy request as the client writes it: an absolute form over the authority \<open>a\<close> and the path
  \<open>47 # p\<close>, and the same request as the far end is to get it.\<close>

definition absolute_form :: "str \<Rightarrow> str \<Rightarrow> str \<Rightarrow> str \<Rightarrow> str" where
  "absolute_form m a p v = m @ [32] @ (lit ''http://'' @ a @ 47 # p) @ [32] @ v"

definition origin_form :: "str \<Rightarrow> str \<Rightarrow> str \<Rightarrow> str" where
  "origin_form m p v = m @ [32] @ (47 # p) @ [32] @ v"

definition wellformed_request :: "str \<Rightarrow> str \<Rightarrow> str \<Rightarrow> str \<Rightarrow> bool" where
  "wellformed_request m a p v \<longleftrightarrow> list_all visible (m @ a @ p @ v) \<and> m \<noteq> [] \<and> v \<noteq> [] \<and> 47 \<notin> set a \<and>
     \<not> eq_ignore_ascii_case m (lit ''CONNECT'')"

lemma absolute_form_line:
  assumes "wellformed_request m a p v"
  shows "10 \<notin> set (absolute_form m a p v)" "13 \<notin> set (absolute_form m a p v)" "is_ascii (absolute_form m a p v)"
  using assms visible_noneol [of m] visible_noneol [of a] visible_noneol [of p] visible_noneol [of v]
  by (auto simp: wellformed_request_def absolute_form_def lit_def is_ascii_def list_all_iff visible_def)

text \<open>A request in two pieces, the first ending within the blank line, with a header in Latin-1.\<close>

definition demo_http :: conn where
  "demo_http = demo_conn\<lparr>rx := [Chunk (lit ''GET http://1.1.1.1/x HTTP/1.1'' @ [13, 10] @ lit ''A: '' @ [0xE9, 13, 10, 13]),
     Chunk (10 # lit ''hi'')]\<rparr>"

lemma demo_http_sent:
  "sent (rx demo_http) = absolute_form (lit ''GET'') (lit ''1.1.1.1'') (lit ''x'') (lit ''HTTP/1.1'') @ [13, 10] @
     (lit ''A: '' @ [0xE9, 13, 10, 13, 10]) @ lit ''hi''"
  by (simp add: demo_http_def demo_conn_def absolute_form_def lit_def)

lemma demo_http_head: "find_head_end (sent (rx demo_http)) = Some 39"
  by (simp add: demo_http_def demo_conn_def lit_def find_head_end_def starts_with_def)

lemma demo_http_clean: "clean (rx demo_http)"
  by (simp add: demo_http_def)

lemma demo_http_ip: "parse_ip (lit ''1.1.1.1'') = Some (V4 0x01010101)"
proof -
  have e: "(4 :: nat) = Suc (Suc (Suc (Suc 0)))" by simp
  have "show_ipv4 0x01010101 = lit ''1.1.1.1''"
    unfolding show_ipv4_def octets4_def be32_def e by (simp add: show_nat.simps lit_def)
  then show ?thesis using parse_ip_show_ipv4 [of "0x01010101"] by simp
qed

lemma demo_http_latin1:
  "utf8_lossy (lit ''A: '' @ [0xE9, 13, 10, 13, 10]) = lit ''A: '' @ [0xEF, 0xBF, 0xBD, 13, 10, 13, 10]"
proof -
  have "utf8_lossy [0xE9, 13, 10, 13, 10] = [0xEF, 0xBF, 0xBD] @ utf8_lossy [13, 10, 13, 10]"
    by (simp add: utf8_lossy.simps [of "[0xE9, 13, 10, 13, 10]"] utf8_step_def second3_def cont_def)
  moreover have "utf8_lossy (lit ''A: '' @ [0xE9, 13, 10, 13, 10]) = lit ''A: '' @ utf8_lossy [0xE9, 13, 10, 13, 10]"
    by (rule utf8_lossy_append) (simp add: is_ascii_def lit_def)
  ultimately show ?thesis by (simp add: utf8_lossy_ascii is_ascii_def)
qed

section \<open>Properties\<close>

text \<open>C28. A request head is read off the client's stream exactly, however the stream is cut into
  pieces: of a stream whose first blank line ends within the limit, the head is everything up to and
  with that line, and what was read behind it is kept in order before what is still to be read. A
  stream without a blank line is refused, as closed when it stays within the limit and as too large
  when it does not.\<close>

theorem http_head_exact:
  assumes "clean (rx s)"
  shows "case find_head_end (sent (rx s)) of
      Some n \<Rightarrow> n \<le> HTTP_HEAD_LIMIT \<longrightarrow>
        (\<exists>early q. read_head s = (Ok (take n (sent (rx s)), early), s\<lparr>rx := q\<rparr>) \<and>
           sent (rx s) = take n (sent (rx s)) @ early @ sent q \<and> clean q)
    | None \<Rightarrow> \<exists>q. read_head s = (Err (Other (if length (sent (rx s)) \<le> HTTP_HEAD_LIMIT
           then lit ''the http client closed before sending a request''
           else lit ''http request head too large'')), s\<lparr>rx := q\<rparr>)"
proof (cases "find_head_end (sent (rx s))")
  case None
  then show ?thesis
    using head_loop_missing [OF assms, of "[]"] by (auto simp: find_head_end_def read_head_def)
next
  case (Some n)
  then have "n \<le> HTTP_HEAD_LIMIT \<Longrightarrow> \<exists>early q. read_head s = (Ok (take n (sent (rx s)), early), s\<lparr>rx := q\<rparr>) \<and>
      sent (rx s) = take n (sent (rx s)) @ early @ sent q \<and> clean q"
    using read_head_found [OF assms] by metis
  then show ?thesis using Some by simp
qed

theorem http_head_exact_witness:
  "clean (rx demo_http) \<and> find_head_end (sent (rx demo_http)) = Some 39 \<and>
   (\<exists>early q. read_head demo_http = (Ok (take 39 (sent (rx demo_http)), early), demo_http\<lparr>rx := q\<rparr>) \<and>
      sent (rx demo_http) = take 39 (sent (rx demo_http)) @ early @ sent q \<and> clean q)"
  using http_head_exact [OF demo_http_clean] demo_http_head demo_http_clean
  by (simp only: option.case) (simp add: HTTP_HEAD_LIMIT_def)

text \<open>C8. A plain HTTP request that the rules send through the tunnel reaches the far end as an origin
  server expects it: the connection goes to the address of the authority, the request line names
  the path alone, the headers follow, and then comes the body, in order and complete, however the client's bytes were
  cut. The client is sent nothing of the proxy's own. The headers may hold any bytes at all, but the head
  is rewritten as text: they come through unchanged exactly when they are UTF-8, and otherwise every byte
  that belongs to no character is replaced by U+FFFD. The request line is of visible ASCII, the head is within its limit,
  and no gateway is in use.\<close>

theorem http_request_forwarded:
  assumes "clean (rx s)" "wellformed_request m a p v"
    "sent (rx s) = absolute_form m a p v @ [13, 10] @ hdrs @ body"
    "find_head_end (sent (rx s)) = Some (length (absolute_form m a p v @ [13, 10] @ hdrs))"
    "length (absolute_form m a p v @ [13, 10] @ hdrs) \<le> HTTP_HEAD_LIMIT"
    "parse_authority a 80 = Some (host, port)"
    "target = (case parse_ip host of Some ip \<Rightarrow> TIp ip | None \<Rightarrow> TDomain host)"
    "decide (w_deps w) (w_routes w) (host_of target) port = Proxy"
    "w_gateway w = None" "resolve (w_env w) (w_dns w) target = Ok ip" "w_open_tcp w (socket_new ip port) = Ok ()"
    "w_send_up w = None"
  shows "\<exists>early q hdrs'. body = early @ sent q \<and> hdrs' = utf8_lossy hdrs \<and> (hdrs' = hdrs \<longleftrightarrow> utf8_valid hdrs) \<and>
    handle_http_client w False s = (Ok (), s\<lparr>rx := q, acts := acts s @ [OpenTcp (socket_new ip port),
      SendUp (origin_form m p v @ [13, 10] @ hdrs')] @ (if early = [] then [] else [SendUp early]) @ [RelayTunneled]\<rparr>)"
proof -
  let ?l = "absolute_form m a p v"
  let ?head = "?l @ [13, 10] @ hdrs"
  have th: "take (length ?head) (sent (rx s)) = ?head" using assms(3) by simp
  obtain early q where r: "read_head s = (Ok (?head, early), s\<lparr>rx := q\<rparr>)" and b0: "sent (rx s) = ?head @ early @ sent q"
    using read_head_found [OF assms(1,4,5)] unfolding th by blast
  have b: "body = early @ sent q" using b0 assms(3) by simp
  have "utf8_lossy ((?l @ [13, 10]) @ hdrs) = (?l @ [13, 10]) @ utf8_lossy hdrs"
    using absolute_form_line(3) [OF assms(2)] by (intro utf8_lossy_append) (simp add: is_ascii_def)
  then have u: "utf8_lossy ?head = ?l @ [13, 10] @ utf8_lossy hdrs" by simp
  obtain ls where l: "lines (?l @ [13, 10] @ utf8_lossy hdrs) = ?l # ls"
    using lines_first absolute_form_line(1,2) [OF assms(2)] by blast
  have q: "parse_request_line ?l = Some \<lparr>rq_method = m, rq_authority = host, rq_port = port,
      rq_rewritten = Some (m @ [32] @ (47 # p) @ [32] @ v @ [13, 10])\<rparr>"
    unfolding absolute_form_def using assms(2,6) by (intro parse_absolute_form) (auto simp: wellformed_request_def)
  note t = open_tunneled_plain [OF assms(9-11)]
  have rest: "rest_of_head (?l @ [13, 10] @ utf8_lossy hdrs) = utf8_lossy hdrs"
    using rest_of_head_line absolute_form_line(2) [OF assms(2)] .
  have "handle_http_client w False s = (Ok (), s\<lparr>rx := q, acts := acts s @ [OpenTcp (socket_new ip port),
      SendUp (origin_form m p v @ [13, 10] @ utf8_lossy hdrs)] @ (if early = [] then [] else [SendUp early]) @ [RelayTunneled]\<rparr>)"
    unfolding handle_http_client_def if_False seq_Ok [of read_head, OF r] prod.case Let_def u l list.case q option.case
      http_request_line.simps assms(7) [symmetric] assms(8) action.case rest
    using assms(12) by (simp add: t origin_form_def)
  then show ?thesis using b utf8_lossy_id [of hdrs] by auto
qed

theorem http_request_forwarded_witness:
  "\<exists>early q. lit ''hi'' = early @ sent q \<and>
    handle_http_client demo_world False demo_http = (Ok (), demo_http\<lparr>rx := q, acts := acts demo_http @
      [OpenTcp (socket_new (V4 0x01010101) 80),
       SendUp (origin_form (lit ''GET'') (lit ''x'') (lit ''HTTP/1.1'') @ [13, 10] @
         lit ''A: '' @ [0xEF, 0xBF, 0xBD, 13, 10, 13, 10])] @
      (if early = [] then [] else [SendUp early]) @ [RelayTunneled]\<rparr>)"
proof -
  have "\<exists>early q hdrs'. lit ''hi'' = early @ sent q \<and> hdrs' = utf8_lossy (lit ''A: '' @ [0xE9, 13, 10, 13, 10]) \<and>
    (hdrs' = lit ''A: '' @ [0xE9, 13, 10, 13, 10] \<longleftrightarrow> utf8_valid (lit ''A: '' @ [0xE9, 13, 10, 13, 10])) \<and>
    handle_http_client demo_world False demo_http = (Ok (), demo_http\<lparr>rx := q, acts := acts demo_http @
      [OpenTcp (socket_new (V4 0x01010101) 80),
       SendUp (origin_form (lit ''GET'') (lit ''x'') (lit ''HTTP/1.1'') @ [13, 10] @ hdrs')] @
      (if early = [] then [] else [SendUp early]) @ [RelayTunneled]\<rparr>)"
  proof (rule http_request_forwarded [OF demo_http_clean _ demo_http_sent])
    show "wellformed_request (lit ''GET'') (lit ''1.1.1.1'') (lit ''x'') (lit ''HTTP/1.1'')"
      by (simp add: wellformed_request_def lit_def visible_def ascii_ws_def eq_ignore_ascii_case_def lower_def is_upper_def)
    show "find_head_end (sent (rx demo_http)) = Some (length (absolute_form (lit ''GET'') (lit ''1.1.1.1'') (lit ''x'')
        (lit ''HTTP/1.1'') @ [13, 10] @ lit ''A: '' @ [0xE9, 13, 10, 13, 10]))"
      by (simp add: demo_http_head absolute_form_def lit_def)
    show "length (absolute_form (lit ''GET'') (lit ''1.1.1.1'') (lit ''x'') (lit ''HTTP/1.1'') @ [13, 10] @ lit ''A: '' @
        [0xE9, 13, 10, 13, 10]) \<le> HTTP_HEAD_LIMIT"
      by (simp add: absolute_form_def lit_def HTTP_HEAD_LIMIT_def)
    show "parse_authority (lit ''1.1.1.1'') 80 = Some (lit ''1.1.1.1'', 80)"
      by (simp add: parse_authority_def trim_visible lit_def visible_def ascii_ws_def strip_prefix_def starts_with_def
          rsplit_once_def)
    show "TIp (V4 0x01010101) = (case parse_ip (lit ''1.1.1.1'') of Some ip \<Rightarrow> TIp ip | None \<Rightarrow> TDomain (lit ''1.1.1.1''))"
      by (simp add: demo_http_ip)
  qed (simp_all add: demo_world_def decide_def matches_def resolve_def)
  then show ?thesis unfolding demo_http_latin1 by blast
qed

end
