(* ===== verification/Relay.thy ===== *)
theory Relay
  imports Core
begin

text \<open>
  The byte relay between a client and a far end (\<^verbatim>\<open>aether/src/socks.rs\<close>, from \<^verbatim>\<open>relay_generic\<close> to
  \<^verbatim>\<open>pump\<close>) and the traffic totals it adds to (\<^verbatim>\<open>aether/src/stats.rs\<close>). Two halves run side by
  side; when the client has nothing more to send, the other half goes on until the far end is done
  or has been silent for the linger. Times are milliseconds since the relay started.
\<close>

section \<open>Traffic totals\<close>

record counters =
  enabled :: bool
  up :: u64
  down :: u64

definition stats_init :: "(string \<Rightarrow> str option) \<Rightarrow> counters \<Rightarrow> counters" where
  "stats_init env c = c\<lparr>enabled := (case env ''AETHER_STATS'' of
     Some v \<Rightarrow> map lower (trim v) \<in> {lit ''1'', lit ''true'', lit ''yes'', lit ''on''} | None \<Rightarrow> False)\<rparr>"

definition add_up :: "nat \<Rightarrow> counters \<Rightarrow> counters" where
  "add_up n c = (if enabled c then c\<lparr>up := up c + of_nat n\<rparr> else c)"

definition add_down :: "nat \<Rightarrow> counters \<Rightarrow> counters" where
  "add_down n c = (if enabled c then c\<lparr>down := down c + of_nat n\<rparr> else c)"

definition two_digits :: "nat \<Rightarrow> str" where
  "two_digits n = (if n < 10 then [48] @ show_nat n else show_nat n)"

definition format_uptime :: "nat \<Rightarrow> str" where
  "format_uptime secs =
     (let days = secs div 86400; hours = (secs mod 86400) div 3600;
          minutes = (secs mod 3600) div 60; seconds = secs mod 60;
          clock = two_digits hours @ [58] @ two_digits minutes @ [58] @ two_digits seconds
      in if days > 0 then show_nat days @ lit ''d '' @ clock else clock)"

datatype way = Up | Down | Uncounted

definition count :: "way \<Rightarrow> nat \<Rightarrow> counters \<Rightarrow> counters" where
  "count wy n = (case wy of Up \<Rightarrow> add_up n | Down \<Rightarrow> add_down n | Uncounted \<Rightarrow> id)"

section \<open>The linger\<close>

definition parse_secs :: "str \<Rightarrow> nat option" where
  "parse_secs s = parse_radix 10 64 s"

definition half_close_linger :: "(string \<Rightarrow> str option) \<Rightarrow> nat" where
  "half_close_linger env = 1000 *
     (case env ''AETHER_HALF_CLOSE_SECS'' of
        None \<Rightarrow> 30
      | Some v \<Rightarrow> (case parse_secs v of
          None \<Rightarrow> 30 | Some n \<Rightarrow> if n > 0 then min n 86400 else 30))"

definition report_interval :: "(string \<Rightarrow> str option) \<Rightarrow> nat" where
  "report_interval env = 1000 *
     (case env ''AETHER_STATS_SECS'' of
        None \<Rightarrow> 60
      | Some v \<Rightarrow> (case parse_secs v of
          None \<Rightarrow> 60 | Some n \<Rightarrow> if n > 0 then min n 86400 else 60))"

section \<open>The relay\<close>

text \<open>How a relay is built: what its halves count as, and whether the far end is a channel of the
  tunnel, whose failure to take a chunk leaves it as it is, or a socket, which is shut down
  whatever ended the upload.\<close>

record relay_cfg =
  up_way :: way
  down_way :: way
  tunneled :: bool
  linger :: nat

definition relay_tcp :: "nat \<Rightarrow> way \<Rightarrow> way \<Rightarrow> relay_cfg" where
  "relay_tcp l u d = \<lparr>up_way = u, down_way = d, tunneled = False, linger = l\<rparr>"

definition relay_direct :: "nat \<Rightarrow> relay_cfg" where "relay_direct l = relay_tcp l Up Down"
definition relay_uncounted :: "nat \<Rightarrow> relay_cfg" where "relay_uncounted l = relay_tcp l Uncounted Uncounted"
definition relay_generic :: "nat \<Rightarrow> relay_cfg" where "relay_generic l = relay_tcp l Up Down"
definition relay_tunneled :: "nat \<Rightarrow> relay_cfg" where
  "relay_tunneled l = \<lparr>up_way = Up, down_way = Down, tunneled = True, linger = l\<rparr>"

record relay =
  relayed_up :: bytes
  relayed_down :: bytes
  remote_shut :: bool
  client_shut :: bool
  up_done :: bool
  last_ms :: nat
  wake_at :: nat
  returned :: bool
  totals :: counters

definition relay_start :: "counters \<Rightarrow> relay" where
  "relay_start c = \<lparr>relayed_up = [], relayed_down = [], remote_shut = False, client_shut = False, up_done = False,
     last_ms = 0, wake_at = 0, returned = False, totals = c\<rparr>"

text \<open>A half moves a chunk, comes to the end of what it reads, fails to read, or fails to write; the
  timer of the linger fires.\<close>

datatype relay_event =
    UpMoved bytes | UpEof | UpReadFault | UpWriteFault
  | DownMoved bytes | DownEof | DownFault
  | Wake

definition touch :: "nat \<Rightarrow> relay \<Rightarrow> relay" where
  "touch t st = st\<lparr>last_ms := min t (2 ^ 64 - 1)\<rparr>"

definition quiet_until :: "relay_cfg \<Rightarrow> relay \<Rightarrow> nat" where
  "quiet_until cfg st = last_ms st + linger cfg"

text \<open>The upload half is over: the far end is told, the linger begins.\<close>

definition upload_over :: "relay_cfg \<Rightarrow> nat \<Rightarrow> bool \<Rightarrow> relay \<Rightarrow> relay" where
  "upload_over cfg t shut st =
     (let st = touch t (st\<lparr>up_done := True, remote_shut := shut\<rparr>) in st\<lparr>wake_at := quiet_until cfg st\<rparr>)"

definition relay_step :: "relay_cfg \<Rightarrow> relay \<Rightarrow> nat \<times> relay_event \<Rightarrow> relay" where
  "relay_step cfg st = (\<lambda>(t, ev).
     if returned st then st
     else case ev of
       UpMoved b \<Rightarrow> if up_done st then st
         else touch t (st\<lparr>relayed_up := relayed_up st @ b, totals := count (up_way cfg) (length b) (totals st)\<rparr>)
     | UpEof \<Rightarrow> if up_done st then st else upload_over cfg t True st
     | UpReadFault \<Rightarrow> if up_done st then st else upload_over cfg t True st
     | UpWriteFault \<Rightarrow> if up_done st then st else upload_over cfg t (\<not> tunneled cfg) st
     | DownMoved b \<Rightarrow>
         touch t (st\<lparr>relayed_down := relayed_down st @ b, totals := count (down_way cfg) (length b) (totals st)\<rparr>)
     | DownEof \<Rightarrow> st\<lparr>client_shut := True, returned := True\<rparr>
     | DownFault \<Rightarrow> st\<lparr>returned := True\<rparr>
     | Wake \<Rightarrow>
         if \<not> up_done st \<or> t < wake_at st then st
         else if quiet_until cfg st \<le> t then st\<lparr>returned := True\<rparr>
         else st\<lparr>wake_at := quiet_until cfg st\<rparr>)"

definition relay_run :: "relay_cfg \<Rightarrow> relay \<Rightarrow> (nat \<times> relay_event) list \<Rightarrow> relay" where
  "relay_run cfg = foldl (relay_step cfg)"

section \<open>Lemmas\<close>

text \<open>A specification of the linger: whether the client's side has ended, and when something last moved or
  the client's side ended. What the client's side would do after its end does not happen.\<close>

fun note_event :: "bool \<times> nat \<Rightarrow> nat \<times> relay_event \<Rightarrow> bool \<times> nat" where
  "note_event (over, l) (t, UpMoved b) = (if over then (over, l) else (over, t))"
| "note_event (over, l) (t, DownMoved b) = (over, t)"
| "note_event (over, l) (t, DownEof) = (over, l)"
| "note_event (over, l) (t, DownFault) = (over, l)"
| "note_event (over, l) (t, Wake) = (over, l)"
| "note_event (over, l) (t, ev) = (if over then (over, l) else (True, t))"

definition activity :: "(nat \<times> relay_event) list \<Rightarrow> bool \<times> nat" where
  "activity evs = foldl note_event (False, 0) evs"

lemma touch_simps [simp]:
  "up_done (touch t st) = up_done st" "returned (touch t st) = returned st" "wake_at (touch t st) = wake_at st"
  "t < 2 ^ 64 \<Longrightarrow> last_ms (touch t st) = t"
  by (simp_all add: touch_def)

text \<open>What a relay that has not returned knows of its past.\<close>

definition relay_inv :: "relay_cfg \<Rightarrow> bool \<times> nat \<Rightarrow> relay \<Rightarrow> bool" where
  "relay_inv cfg a st \<longleftrightarrow> returned st \<or>
     (up_done st = fst a \<and> last_ms st = snd a \<and> (up_done st \<longrightarrow> wake_at st \<le> quiet_until cfg st))"

lemma relay_step_inv:
  assumes "relay_inv cfg a st" "last_ms st \<le> t" "t < 2 ^ 64"
  shows "relay_inv cfg (note_event a (t, ev)) (relay_step cfg st (t, ev))"
  using assms
  by (cases a; cases ev) (auto simp: relay_inv_def relay_step_def upload_over_def quiet_until_def Let_def)

lemma relay_step_last: "t < 2 ^ 64 \<Longrightarrow> last_ms st \<le> t \<Longrightarrow> last_ms (relay_step cfg st (t, ev)) \<le> t"
  by (cases ev) (auto simp: relay_step_def upload_over_def Let_def)

text \<open>The times of a history do not go back.\<close>

definition timely :: "(nat \<times> relay_event) list \<Rightarrow> bool" where
  "timely evs \<longleftrightarrow> sorted (map fst evs) \<and> list_all (\<lambda>(t, _). t < 2 ^ 64) evs"

lemma relay_run_snoc: "relay_run cfg st (evs @ [e]) = relay_step cfg (relay_run cfg st evs) e"
  by (simp add: relay_run_def)

lemma relay_run_inv:
  "timely evs \<Longrightarrow> relay_inv cfg (activity evs) (relay_run cfg (relay_start c) evs) \<and>
     (\<forall>t. (evs = [] \<or> fst (last evs) \<le> t) \<longrightarrow> last_ms (relay_run cfg (relay_start c) evs) \<le> t)"
proof (induction evs rule: rev_induct)
  case Nil
  then show ?case by (simp add: relay_run_def relay_inv_def activity_def relay_start_def)
next
  case (snoc e evs)
  obtain t ev where e: "e = (t, ev)" by (cases e)
  have t: "timely evs" "t < 2 ^ 64" "evs = [] \<or> fst (last evs) \<le> t"
    using snoc.prems by (cases "evs = []"; auto simp: timely_def sorted_append e split_beta)+
  let ?st = "relay_run cfg (relay_start c) evs"
  have i: "relay_inv cfg (activity evs) ?st" "last_ms ?st \<le> t" using snoc.IH [OF t(1)] t(3) by blast+
  show ?case
    using relay_step_inv [OF i t(2)] relay_step_last [OF t(2) i(2)]
    by (auto simp: relay_run_snoc e activity_def intro: le_trans)
qed

lemma half_close_linger_bounds: "1000 \<le> half_close_linger env \<and> half_close_linger env \<le> 86400000"
  by (auto simp: half_close_linger_def split: option.splits)

section \<open>Properties\<close>

text \<open>C29. A relay ends exactly when it is quiet. As long as it has not returned, its timer ends it at a
  time \<open>t\<close> exactly when the client's side has ended and since then and since the last byte in
  either direction the whole linger has passed: no transfer that still moves is cut, and no far
  end that keeps silent holds the client. The linger the settings give is between a second and a
  day.\<close>

theorem relay_ends_when_quiet:
  assumes "timely evs" "relay_run cfg (relay_start c) evs = st" "\<not> returned st"
  shows "(returned (relay_step cfg st (t, Wake)) \<longleftrightarrow> fst (activity evs) \<and> snd (activity evs) + linger cfg \<le> t) \<and>
    1000 \<le> half_close_linger env \<and> half_close_linger env \<le> 86400000"
proof
  show "returned (relay_step cfg st (t, Wake)) \<longleftrightarrow> fst (activity evs) \<and> snd (activity evs) + linger cfg \<le> t"
    using relay_run_inv [OF assms(1), of cfg c] assms(2,3)
    by (auto simp: relay_inv_def relay_step_def quiet_until_def)
qed (rule half_close_linger_bounds)

theorem relay_ends_when_quiet_witness:
  "(returned (relay_step (relay_direct 1000) (relay_run (relay_direct 1000) (relay_start \<lparr>enabled = True, up = 0, down = 0\<rparr>)
       [(5, UpMoved [1]), (10, UpEof), (700, DownMoved [2])]) (1700, Wake)) \<longleftrightarrow> True) \<and>
   (returned (relay_step (relay_direct 1000) (relay_run (relay_direct 1000) (relay_start \<lparr>enabled = True, up = 0, down = 0\<rparr>)
       [(5, UpMoved [1]), (10, UpEof), (700, DownMoved [2])]) (1699, Wake)) \<longleftrightarrow> False)"
  using relay_ends_when_quiet [of "[(5, UpMoved [1]), (10, UpEof), (700, DownMoved [2])]" "relay_direct 1000"
      "\<lparr>enabled = True, up = 0, down = 0\<rparr>" _ 1700]
    relay_ends_when_quiet [of "[(5, UpMoved [1]), (10, UpEof), (700, DownMoved [2])]" "relay_direct 1000"
      "\<lparr>enabled = True, up = 0, down = 0\<rparr>" _ 1699]
  by (simp add: timely_def activity_def relay_direct_def relay_tcp_def relay_run_def relay_step_def relay_start_def
      upload_over_def touch_def quiet_until_def Let_def)

end
