(* ===== verification/Listener.thy ===== *)
theory Listener
  imports Sock
begin

text \<open>
  The listener behind every proxy port (\<^verbatim>\<open>aether/src/socks.rs\<close>): how many clients are served at
  once, which failures of an accept it survives, and the accept loop. Error codes are those of
  Linux. Times are milliseconds.
\<close>

section \<open>Addresses and limits\<close>

definition dialable :: "socket_addr \<Rightarrow> socket_addr" where
  "dialable bound = (case sock_ip bound of
     V4 ip \<Rightarrow> if v4_is_unspecified ip then socket_new (V4 (ipv4 127 0 0 1)) (sock_port bound) else bound
   | V6 ip \<Rightarrow> if v6_is_unspecified ip then socket_new (V6 1) (sock_port bound) else bound)"

datatype tier = Low | Medium | High

text \<open>\<open>files\<close> is the limit of open files, if the system tells it.\<close>

definition client_limit :: "(string \<Rightarrow> str option) \<Rightarrow> nat \<Rightarrow> tier \<Rightarrow> nat option \<Rightarrow> nat" where
  "client_limit env bits t files =
     (case (case env ''AETHER_MAX_CLIENTS'' of
              Some v \<Rightarrow> (case parse_radix 10 bits (trim v) of Some n \<Rightarrow> if n > 0 then Some n else None | None \<Rightarrow> None)
            | None \<Rightarrow> None) of
        Some limit \<Rightarrow> limit
      | None \<Rightarrow>
        (let by_tier = (case t of Low \<Rightarrow> 512 | Medium \<Rightarrow> 2048 | High \<Rightarrow> 8192)
         in case files of
              Some n \<Rightarrow> min by_tier (max ((n - 64) div 2) 32)
            | None \<Rightarrow> by_tier))"

section \<open>Failures of an accept\<close>

definition out_of_resources :: "int \<Rightarrow> bool" where
  "out_of_resources code \<longleftrightarrow> code \<in> {24, 23, 105, 12}"

definition failed_while_queued :: "int \<Rightarrow> bool" where
  "failed_while_queued code \<longleftrightarrow> code \<in> {100, 71, 92, 112, 64, 113, 95, 101}"

definition accept_backoff :: "io_error \<Rightarrow> nat option" where
  "accept_backoff error =
     (if kind error \<in> {ConnectionAborted, ConnectionReset, ConnectionRefused, Interrupted, WouldBlock, TimedOut,
          PermissionDenied} then Some 0
      else case raw_os_error error of
        None \<Rightarrow> None
      | Some code \<Rightarrow>
        if out_of_resources code then Some 100
        else if failed_while_queued code then Some 0 else None)"

text \<open>\<^verbatim>\<open>due\<close>: at most one warning per period.\<close>

definition due :: "nat \<Rightarrow> nat option \<Rightarrow> nat \<Rightarrow> nat option \<times> bool" where
  "due now last_at every = (case last_at of
     Some at \<Rightarrow> if now - at < every then (last_at, False) else (Some now, True)
   | None \<Rightarrow> (Some now, True))"

section \<open>The accept loop\<close>

definition ACCEPT_WARN_EVERY :: nat where "ACCEPT_WARN_EVERY = 10000"

text \<open>The semaphore's free permits are counted apart from the tasks of the served clients, which run beside
  the loop and end at any time: the permit of an accept goes to the client's task and comes back when that
  ends. \<open>unjoined\<close> counts the ended tasks the loop has not joined yet. The loop waits at its select, in an
  accept for which it holds a permit, or in the pause after a failed one, with the permit still held; a
  failure it cannot survive makes it return, which drops the set of tasks and so stops every client.\<close>

datatype stage = Selecting | Accepting | Pausing | Failed io_error

record listener =
  permits :: nat
  clients :: "socket_addr list"
  unjoined :: nat
  stage :: stage
  last_accept_warning :: "nat option"
  last_limit_warning :: "nat option"

text \<open>What the loop waits for, and a client's task that ends.\<close>

datatype accept_event = Joined | Acquired | Accepted socket_addr | AcceptFailed io_error | Woken | ClientDone socket_addr

datatype accept_out = WarnLimit nat | WarnAccept nat | Pause nat | Serve socket_addr | Return io_error

text \<open>The head of the loop: the look at the permits, up to the select.\<close>

definition loop_head :: "nat \<Rightarrow> listener \<Rightarrow> listener \<times> accept_out list" where
  "loop_head now st =
     (if permits st = 0 then
        (let (l, warn) = due now (last_limit_warning st) ACCEPT_WARN_EVERY
         in (st\<lparr>stage := Selecting, last_limit_warning := l\<rparr>, if warn then [WarnLimit now] else []))
      else (st\<lparr>stage := Selecting\<rparr>, []))"

definition accept_start :: "nat \<Rightarrow> nat \<Rightarrow> listener \<times> accept_out list" where
  "accept_start most now = loop_head now \<lparr>permits = most, clients = [], unjoined = 0, stage = Selecting,
     last_accept_warning = None, last_limit_warning = None\<rparr>"

text \<open>An event that cannot happen at this point changes nothing.\<close>

definition accept_clients :: "listener \<Rightarrow> nat \<times> accept_event \<Rightarrow> listener \<times> accept_out list" where
  "accept_clients st = (\<lambda>(now, ev). case ev of
     Joined \<Rightarrow>
       if stage st = Selecting \<and> 0 < unjoined st then loop_head now (st\<lparr>unjoined := unjoined st - 1\<rparr>) else (st, [])
   | Acquired \<Rightarrow>
       if stage st = Selecting \<and> 0 < permits st then (st\<lparr>permits := permits st - 1, stage := Accepting\<rparr>, []) else (st, [])
   | Accepted peer \<Rightarrow>
       if stage st = Accepting then
         (let (st', outs) = loop_head now (st\<lparr>clients := clients st @ [peer]\<rparr>) in (st', Serve peer # outs))
       else (st, [])
   | AcceptFailed error \<Rightarrow>
       if stage st = Accepting then
         (case accept_backoff error of
            Some delay \<Rightarrow>
              (let (l, warn) = due now (last_accept_warning st) ACCEPT_WARN_EVERY
               in (st\<lparr>stage := Pausing, last_accept_warning := l\<rparr>, (if warn then [WarnAccept now] else []) @ [Pause delay]))
          | None \<Rightarrow> (st\<lparr>permits := permits st + 1, clients := [], unjoined := 0, stage := Failed error\<rparr>, [Return error]))
       else (st, [])
   | Woken \<Rightarrow>
       if stage st = Pausing then loop_head now (st\<lparr>permits := permits st + 1\<rparr>) else (st, [])
   | ClientDone peer \<Rightarrow>
       if peer \<in> set (clients st) then
         (st\<lparr>permits := permits st + 1, clients := remove1 peer (clients st), unjoined := unjoined st + 1\<rparr>, [])
       else (st, []))"

section \<open>The listener as seen from outside\<close>

text \<open>Which clients are being served, by what the loop was seen to do and which clients have gone.\<close>

definition observed :: "socket_addr list \<Rightarrow> accept_event \<Rightarrow> accept_out list \<Rightarrow> socket_addr list" where
  "observed alive ev outs =
     (if \<exists>e. Return e \<in> set outs then []
      else (case ev of ClientDone p \<Rightarrow> remove1 p alive | _ \<Rightarrow> alive) @ [p. Serve p \<leftarrow> outs])"

fun alive_after :: "listener \<Rightarrow> socket_addr list \<Rightarrow> (nat \<times> accept_event) list \<Rightarrow> socket_addr list" where
  "alive_after st alive [] = alive"
| "alive_after st alive (i # rest) =
     (let (st', outs) = accept_clients st i in alive_after st' (observed alive (snd i) outs) rest)"

section \<open>Lemmas\<close>

lemma accept_backoff_values: "accept_backoff e = Some d \<Longrightarrow> d \<in> {0, 100}"
  by (auto simp: accept_backoff_def split: if_splits option.splits)

lemma accept_backoff_None:
  "accept_backoff e = None \<longleftrightarrow>
     kind e \<notin> {ConnectionAborted, ConnectionReset, ConnectionRefused, Interrupted, WouldBlock, TimedOut, PermissionDenied} \<and>
     raw_os_error e \<notin> Some ` {24, 23, 105, 12, 100, 71, 92, 112, 64, 113, 95, 101}"
  by (auto simp: accept_backoff_def out_of_resources_def failed_while_queued_def split: option.splits)

text \<open>Every permit is free, with the loop, or with a client's task.\<close>

definition permits_ok :: "nat \<Rightarrow> listener \<Rightarrow> bool" where
  "permits_ok most st = (case stage st of
     Selecting \<Rightarrow> permits st + length (clients st) = most
   | Failed e \<Rightarrow> clients st = [] \<and> accept_backoff e = None
   | _ \<Rightarrow> permits st + length (clients st) + 1 = most)"

definition pause_ok :: "accept_out \<Rightarrow> bool" where
  "pause_ok out = (case out of Pause d \<Rightarrow> d \<in> {0, 100} | _ \<Rightarrow> True)"

lemma loop_head_simps [simp]:
  "permits (fst (loop_head now st)) = permits st" "clients (fst (loop_head now st)) = clients st"
  "unjoined (fst (loop_head now st)) = unjoined st" "stage (fst (loop_head now st)) = Selecting"
  by (auto simp: loop_head_def Let_def split_beta)

lemma loop_head_outs: "out \<in> set (snd (loop_head now st)) \<Longrightarrow> out = WarnLimit now"
  by (auto simp: loop_head_def Let_def split_beta split: if_splits)

lemma loop_head_no_serve [simp]:
  "Serve p \<notin> set (snd (loop_head now st))" "Return e \<notin> set (snd (loop_head now st))" "Pause d \<notin> set (snd (loop_head now st))"
  "[p. Serve p \<leftarrow> snd (loop_head now st)] = []"
  by (auto simp: loop_head_def Let_def split_beta)

lemma remove1_length: "p \<in> set ps \<Longrightarrow> Suc (length (remove1 p ps)) = length ps"
  using length_pos_if_in_set [of p ps] by (simp add: length_remove1)

lemma accept_start_ok: "permits_ok most (fst (accept_start most now))" "clients (fst (accept_start most now)) = []"
  by (simp_all add: accept_start_def permits_ok_def)

interpretation al: machine accept_clients "permits_ok most" pause_ok for most
proof
  fix st and i :: "nat \<times> accept_event"
  assume ok: "permits_ok most st"
  obtain now ev where i: "i = (now, ev)" by (cases i)
  show "permits_ok most (fst (accept_clients st i))"
    using ok remove1_length [of _ "clients st"]
    by (cases ev) (auto simp: accept_clients_def i permits_ok_def Let_def split_beta split: option.split stage.splits)
  show "pause_ok out" if "out \<in> set (snd (accept_clients st i))" for out
    using that accept_backoff_values
    by (cases ev) (auto simp: accept_clients_def i Let_def split_beta pause_ok_def
        dest!: loop_head_outs split: option.splits if_splits)
qed

text \<open>What is seen from outside are the clients with a task.\<close>

lemma observed_clients: "observed (clients st) (snd i) (snd (accept_clients st i)) = clients (fst (accept_clients st i))"
proof -
  obtain now ev where i: "i = (now, ev)" by (cases i)
  show ?thesis
    by (cases ev) (auto simp: accept_clients_def i observed_def Let_def split_beta remove1_idem split: option.split)
qed

lemma alive_after_clients: "alive_after st (clients st) evs = clients (fst (run_all accept_clients st evs))"
proof (induction evs arbitrary: st)
  case (Cons i rest)
  obtain st' outs where step: "accept_clients st i = (st', outs)" by fastforce
  then have "observed (clients st) (snd i) outs = clients st'" using observed_clients [of st i] by simp
  then show ?case using Cons.IH [of st'] by (simp add: step split_beta)
qed simp

text \<open>The loop returns only with the error of an accept.\<close>

lemma failed_by:
  "stage (fst (run_all accept_clients st evs)) = Failed e \<Longrightarrow> stage st \<noteq> Failed e \<Longrightarrow> AcceptFailed e \<in> snd ` set evs"
proof (induction evs arbitrary: st)
  case (Cons i rest)
  obtain now ev where i: "i = (now, ev)" by (cases i)
  obtain st' outs where step: "accept_clients st i = (st', outs)" by fastforce
  show ?case
  proof (cases "stage st' = Failed e")
    case True
    then have "stage (fst (accept_clients st i)) = Failed e" by (simp add: step)
    then have "ev = AcceptFailed e"
      using Cons.prems(2) by (cases ev) (auto simp: accept_clients_def i Let_def split_beta split: option.splits if_splits)
    then show ?thesis by (force simp: i)
  next
    case False
    then show ?thesis using Cons.IH [of st'] Cons.prems(1) by (auto simp: step split_beta)
  qed
qed simp

text \<open>From any point of a loop that has not returned, a client that asks is taken as soon as there is a permit.\<close>

lemma next_client:
  assumes "permits_ok most st" "\<And>e. stage st \<noteq> Failed e"
  shows "Serve p \<in> set (snd (run_all accept_clients st [(t1, Woken), (t2, Acquired), (t3, Accepted p)])) \<longleftrightarrow>
    length (clients st) < most"
  using assms by (cases "stage st") (auto simp: accept_clients_def permits_ok_def split_beta)

section \<open>Properties\<close>

text \<open>C30. The listener serves at most its limit of clients at once, gives no place away, and only a broken
  listener ends it. Counting the clients that were seen to be taken and have not gone, there are never
  more than the limit, after any history of accepts, failures, joins and departures. As long as
  the loop has not returned, the next client is taken exactly when fewer than the limit are being
  served, so that no failed accept and no departure costs a place. The loop returns only with the
  error of an accept that is neither that of a client that went away, nor a
  shortage of descriptors or buffers, nor a network failure of a queued connection; and every pause
  it makes is at most a tenth of a second.\<close>

theorem listener_within_limit:
  assumes "st0 = fst (accept_start most now)" "run_all accept_clients st0 evs = (st, outs)"
  shows "length (alive_after st0 [] evs) \<le> most \<and>
    (case stage st of
       Failed e \<Rightarrow> AcceptFailed e \<in> snd ` set evs \<and>
         kind e \<notin> {ConnectionAborted, ConnectionReset, ConnectionRefused, Interrupted, WouldBlock, TimedOut, PermissionDenied} \<and>
         raw_os_error e \<notin> Some ` {24, 23, 105, 12, 100, 71, 92, 112, 64, 113, 95, 101}
     | _ \<Rightarrow> \<forall>p t1 t2 t3. Serve p \<in> set (snd (run_all accept_clients st [(t1, Woken), (t2, Acquired), (t3, Accepted p)])) \<longleftrightarrow>
         length (alive_after st0 [] evs) < most) \<and>
    (\<forall>d. Pause d \<in> set outs \<longrightarrow> d \<le> 100)"
proof -
  have i: "permits_ok most st0" "clients st0 = []" unfolding assms(1) by (rule accept_start_ok)+
  have st: "st = fst (run_all accept_clients st0 evs)" by (simp add: assms(2))
  have ok: "permits_ok most st" unfolding st by (rule al.run_inv [OF i(1)])
  have alive: "alive_after st0 [] evs = clients st" using alive_after_clients [of st0 evs] i(2) st by simp
  have pause: "d \<le> 100" if "Pause d \<in> set outs" for d
    using al.run_good [OF i(1), of "Pause d" evs] that by (auto simp: assms(2) pause_ok_def)
  have "stage st0 \<noteq> Failed e" for e by (simp add: assms(1) accept_start_def)
  then have failed: "AcceptFailed e \<in> snd ` set evs \<and> accept_backoff e = None" if "stage st = Failed e" for e
    using failed_by [of st0 evs e] that ok st by (simp add: permits_ok_def)
  show ?thesis unfolding alive
  proof (intro conjI)
    show "length (clients st) \<le> most" using ok by (simp add: permits_ok_def split: stage.splits)
    show "case stage st of
       Failed e \<Rightarrow> AcceptFailed e \<in> snd ` set evs \<and>
         kind e \<notin> {ConnectionAborted, ConnectionReset, ConnectionRefused, Interrupted, WouldBlock, TimedOut, PermissionDenied} \<and>
         raw_os_error e \<notin> Some ` {24, 23, 105, 12, 100, 71, 92, 112, 64, 113, 95, 101}
     | _ \<Rightarrow> \<forall>p t1 t2 t3. Serve p \<in> set (snd (run_all accept_clients st [(t1, Woken), (t2, Acquired), (t3, Accepted p)])) \<longleftrightarrow>
         length (clients st) < most"
      using failed next_client [OF ok] by (cases "stage st") (simp_all add: accept_backoff_None)
  qed (use pause in blast)
qed

text \<open>With room for one: the second client waits until the first has gone and a shortage has passed.\<close>

definition demo_accepts :: "(nat \<times> accept_event) list" where
  "demo_accepts = [(0, Acquired), (1, Accepted (SockV4 7 1)), (2, Acquired), (3, ClientDone (SockV4 7 1)), (4, Acquired),
     (5, AcceptFailed \<lparr>kind = OtherKind, raw_os_error = Some 24, io_text = []\<rparr>)]"

lemma demo_accepts_run:
  "alive_after (fst (accept_start 1 0)) [] demo_accepts = [] \<and>
   run_all accept_clients (fst (accept_start 1 0)) demo_accepts =
     (\<lparr>permits = 0, clients = [], unjoined = 1, stage = Pausing, last_accept_warning = Some 5, last_limit_warning = Some 1\<rparr>,
      [Serve (SockV4 7 1), WarnLimit 1, WarnAccept 5, Pause 100])"
  by (simp add: demo_accepts_def accept_start_def accept_clients_def loop_head_def observed_def due_def ACCEPT_WARN_EVERY_def
      accept_backoff_def out_of_resources_def)

theorem listener_within_limit_witness:
  "snd (run_all accept_clients (fst (accept_start 1 0)) demo_accepts) =
     [Serve (SockV4 7 1), WarnLimit 1, WarnAccept 5, Pause 100] \<and>
   Serve (SockV4 7 2) \<in> set (snd (run_all accept_clients (fst (run_all accept_clients (fst (accept_start 1 0)) demo_accepts))
     [(105, Woken), (106, Acquired), (107, Accepted (SockV4 7 2))]))"
  using listener_within_limit [OF refl, of 1 0 demo_accepts _ _] demo_accepts_run by fastforce

end
