(* ===== verification/Lastconn.thy ===== *)
theory Lastconn
  imports Core Net
begin

text \<open>
  The remembered gateways (\<^verbatim>\<open>aether/src/lastconn.rs\<close>): the file that holds the last connection and
  the ring of recent ones, and which of them may be tried again. The TOML encoder and decoder and
  the file system are parameters: \<open>enc\<close> and \<open>dec\<close>, between a record and a text of some type, and
  what a write leaves in the file.
\<close>

section \<open>The fl\<close>

definition RECENT_CAP :: nat where "RECENT_CAP = 8"

record last_connection =
  lc_peer :: str
  lc_profile :: str
  lc_carrier :: str
  lc_recent :: "str list"

definition lc_load :: "('t \<Rightarrow> last_connection option) \<Rightarrow> 't option \<Rightarrow> last_connection option" where
  "lc_load dec fl = (case fl of Some text \<Rightarrow> dec text | None \<Rightarrow> None)"

fun push_recent :: "str \<Rightarrow> str list \<Rightarrow> str list \<Rightarrow> str list" where
  "push_recent peer recent [] = recent"
| "push_recent peer recent (entry # rest) =
     push_recent peer (if entry \<noteq> peer \<and> length recent < RECENT_CAP then recent @ [entry] else recent) rest"

definition lc_save ::
    "(last_connection \<Rightarrow> 't option) \<Rightarrow> ('t \<Rightarrow> last_connection option) \<Rightarrow> ('t option \<Rightarrow> 't \<Rightarrow> 't option) \<Rightarrow>
     't option \<Rightarrow> str \<Rightarrow> str \<Rightarrow> str \<Rightarrow> 't option" where
  "lc_save enc dec write fl peer profile carrier =
     (let carried_over = (case lc_load dec fl of
            Some c \<Rightarrow> if lc_carrier c = [] \<or> lc_carrier c = carrier then lc_recent c else []
          | None \<Rightarrow> []);
          conn = \<lparr>lc_peer = peer, lc_profile = profile, lc_carrier = carrier,
                  lc_recent = push_recent peer [peer] carried_over\<rparr>
      in case enc conn of Some text \<Rightarrow> write fl text | None \<Rightarrow> fl)"

fun add_peers :: "socket_addr list \<Rightarrow> str list \<Rightarrow> socket_addr list" where
  "add_peers found [] = found"
| "add_peers found (raw # rest) = (case parse_socket_addr raw of
     Some addr \<Rightarrow> add_peers (if addr \<in> set found then found else found @ [addr]) rest
   | None \<Rightarrow> add_peers found rest)"

definition usable_peers :: "last_connection \<Rightarrow> str \<Rightarrow> socket_addr list" where
  "usable_peers cached carrier =
     (if lc_carrier cached \<noteq> [] \<and> lc_carrier cached \<noteq> carrier then []
      else add_peers [] (lc_peer cached # lc_recent cached))"

text \<open>The saves of a session, one after another.\<close>

fun save_all ::
    "(last_connection \<Rightarrow> 't option) \<Rightarrow> ('t \<Rightarrow> last_connection option) \<Rightarrow> ('t option \<Rightarrow> 't \<Rightarrow> 't option) \<Rightarrow>
     't option \<Rightarrow> str \<Rightarrow> (str \<times> str) list \<Rightarrow> 't option" where
  "save_all enc dec write fl carrier [] = fl"
| "save_all enc dec write fl carrier ((peer, profile) # rest) =
     save_all enc dec write (lc_save enc dec write fl peer profile carrier) carrier rest"

section \<open>Lemmas\<close>

lemma push_recent_eq:
  "push_recent p r es = r @ take (RECENT_CAP - length r) (filter (\<lambda>e. e \<noteq> p) es)"
proof (induction es arbitrary: r)
  case (Cons e es)
  show ?case
  proof (cases "e \<noteq> p \<and> length r < RECENT_CAP")
    case True
    then have "RECENT_CAP - length r = Suc (RECENT_CAP - Suc (length r))" by arith
    then show ?thesis using Cons [of "r @ [e]"] True by simp
  next
    case False
    then show ?thesis using Cons [of r] by auto
  qed
qed simp

lemma take_filter_neq:
  "distinct xs \<Longrightarrow> take n (filter (\<lambda>e. e \<noteq> p) (take (Suc n) xs)) = take n (filter (\<lambda>e. e \<noteq> p) xs)"
proof (induction xs arbitrary: n)
  case (Cons x xs)
  show ?case
  proof (cases "x = p")
    case True
    then have "filter (\<lambda>e. e \<noteq> p) ys = ys" if "set ys \<subseteq> set xs" for ys
      using Cons.prems that by (auto simp: filter_id_conv)
    moreover have "set (take n xs) \<subseteq> set xs" by (rule set_take_subset)
    ultimately show ?thesis using True by simp
  next
    case False
    then show ?thesis using Cons by (cases n) auto
  qed
qed simp

lemma rev_remdups_snoc: "rev (remdups (hs @ [p])) = p # filter (\<lambda>e. e \<noteq> p) (rev (remdups hs))"
proof -
  have "remdups (hs @ [p]) = filter (\<lambda>e. e \<noteq> p) (remdups hs) @ [p]"
    by (induction hs) (auto simp: remdups_filter)
  then show ?thesis by (simp add: rev_filter)
qed

text \<open>The ring as a specification: the last eight different peers, newest first.\<close>

definition lru :: "str list \<Rightarrow> str list" where
  "lru hs = take RECENT_CAP (rev (remdups hs))"

lemma push_lru: "push_recent p [p] (lru hs) = lru (hs @ [p])"
proof -
  show ?thesis
    using take_filter_neq [of "rev (remdups hs)" 7 p]
    by (simp add: push_recent_eq lru_def rev_remdups_snoc RECENT_CAP_def)
qed

lemma add_peers_distinct: "distinct found \<Longrightarrow> distinct (add_peers found raws)"
  by (induction found raws rule: add_peers.induct) (auto split: option.splits)

lemma add_peers_set:
  "set (add_peers found raws) = set found \<union> {a. \<exists>raw \<in> set raws. parse_socket_addr raw = Some a}"
  by (induction found raws rule: add_peers.induct) (auto split: option.splits)

lemma save_all_snoc:
  "save_all enc dec write fl carrier (hs @ [(p, profile)]) =
     lc_save enc dec write (save_all enc dec write fl carrier hs) p profile carrier"
  by (induction hs arbitrary: fl) auto

section \<open>Properties\<close>

text \<open>C37. The file remembers the last eight different gateways. With a TOML encoder whose text decodes to
  what was encoded, and writes that succeed, saving peers one after another for one carrier, into
  a file that holds nothing for it, leaves the last peer and profile in the file and behind them
  the last eight different peers, newest first. They are offered again, each address once, for
  that carrier and for no other.\<close>

theorem lastconn_remembers_newest:
  assumes dec_enc: "\<And>c. \<exists>t. enc c = Some t \<and> dec t = Some c" and write_ok: "\<And>f t. write f t = Some t"
    and start: "\<And>c. lc_load dec fl = Some c \<Longrightarrow> lc_carrier c \<noteq> [] \<and> lc_carrier c \<noteq> carrier"
    and carrier: "carrier \<noteq> []"
  shows "\<exists>c. lc_load dec (save_all enc dec write fl carrier (hs @ [(p, profile)])) = Some c \<and>
    lc_peer c = p \<and> lc_profile c = profile \<and> lc_carrier c = carrier \<and>
    lc_recent c = take 8 (rev (remdups (map fst hs @ [p]))) \<and>
    distinct (usable_peers c carrier) \<and>
    set (usable_peers c carrier) =
      {a. \<exists>raw \<in> set (take 8 (rev (remdups (map fst hs @ [p])))). parse_socket_addr raw = Some a} \<and>
    (\<forall>other. other \<noteq> carrier \<longrightarrow> usable_peers c other = [])"
proof -
  have load: "lc_load dec (lc_save enc dec write f p pr carrier) = Some \<lparr>lc_peer = p, lc_profile = pr, lc_carrier = carrier,
      lc_recent = push_recent p [p] (case lc_load dec f of
            Some c \<Rightarrow> if lc_carrier c = [] \<or> lc_carrier c = carrier then lc_recent c else []
          | None \<Rightarrow> [])\<rparr>" for f p pr
  proof -
    obtain t where "enc \<lparr>lc_peer = p, lc_profile = pr, lc_carrier = carrier,
      lc_recent = push_recent p [p] (case lc_load dec f of
            Some c \<Rightarrow> if lc_carrier c = [] \<or> lc_carrier c = carrier then lc_recent c else []
          | None \<Rightarrow> [])\<rparr> = Some t" "dec t = Some \<lparr>lc_peer = p, lc_profile = pr, lc_carrier = carrier,
      lc_recent = push_recent p [p] (case lc_load dec f of
            Some c \<Rightarrow> if lc_carrier c = [] \<or> lc_carrier c = carrier then lc_recent c else []
          | None \<Rightarrow> [])\<rparr>" using dec_enc by blast
    then show ?thesis by (simp add: lc_save_def lc_load_def write_ok)
  qed
  have "hs \<noteq> [] \<Longrightarrow> \<exists>c. lc_load dec (save_all enc dec write fl carrier hs) = Some c \<and>
      lc_carrier c = carrier \<and> lc_recent c = lru (map fst hs)" for hs
  proof (induction hs rule: rev_induct)
    case (snoc h hs)
    obtain q pr where h: "h = (q, pr)" by (cases h)
    show ?case
    proof (cases "hs = []")
      case True
      have "(case lc_load dec fl of Some c \<Rightarrow> if lc_carrier c = [] \<or> lc_carrier c = carrier then lc_recent c else []
          | None \<Rightarrow> []) = []" using start by (auto split: option.splits)
      then show ?thesis using load [of fl q pr] push_lru [of q "[]"] by (simp add: True h lru_def)
    next
      case False
      then show ?thesis using snoc.IH load push_lru [of q "map fst hs"] by (auto simp: h save_all_snoc)
    qed
  qed simp
  from this [of "hs @ [(p, profile)]"] obtain c where c:
    "lc_load dec (save_all enc dec write fl carrier (hs @ [(p, profile)])) = Some c"
    "lc_carrier c = carrier" "lc_recent c = lru (map fst hs @ [p])" by auto
  have p: "lc_peer c = p" "lc_profile c = profile" using c(1) load by (auto simp: save_all_snoc)
  have m: "p \<in> set (lru (map fst hs @ [p]))"
    by (simp add: lru_def rev_remdups_snoc RECENT_CAP_def)
  have l: "lru (map fst hs @ [p]) = take 8 (rev (remdups (map fst hs @ [p])))" by (simp add: lru_def RECENT_CAP_def)
  have u: "usable_peers c carrier = add_peers [] (p # lru (map fst hs @ [p]))"
    unfolding usable_peers_def c(2,3) p(1) by simp
  have "distinct (usable_peers c carrier)" unfolding u by (rule add_peers_distinct) simp
  moreover have "set (usable_peers c carrier) =
      {a. \<exists>raw \<in> set (lru (map fst hs @ [p])). parse_socket_addr raw = Some a}"
    unfolding u add_peers_set using m by auto
  moreover have "\<forall>other. other \<noteq> carrier \<longrightarrow> usable_peers c other = []"
    using c(2) carrier by (simp add: usable_peers_def)
  ultimately show ?thesis using c p unfolding l by blast
qed


theorem lastconn_remembers_newest_witness:
  "\<exists>c. lc_load Some (save_all Some Some (\<lambda>_. Some) None (lit ''wireguard'') ([(lit ''a'', []), (lit ''b'', [])] @ [(lit ''a'', [])])) = Some c \<and>
    lc_recent c = take 8 (rev (remdups (map fst [(lit ''a'', []), (lit ''b'', [])] @ [lit ''a''])))"
  using lastconn_remembers_newest [of Some Some "\<lambda>_. Some" None "lit ''wireguard''" "[(lit ''a'', []), (lit ''b'', [])]" "lit ''a''" "[]"]
  by (auto simp: lc_load_def lit_def)

end
