(* ===== verification/Egress.thy ===== *)
theory Egress
  imports Sock NetText "HOL-Library.Multiset"
begin

text \<open>
  Outgoing connections (\<^verbatim>\<open>aether/src/egress.rs\<close>): the firewall mark sockets carry, and the race
  between the addresses of a name (RFC 8305).
\<close>

section \<open>The mark\<close>

definition parse_mark :: "str \<Rightarrow> u32 option" where
  "parse_mark raw =
     (let text = trim raw in
      case (case strip_prefix text (lit ''0x'') of
              Some h \<Rightarrow> Some h | None \<Rightarrow> strip_prefix text (lit ''0X'')) of
        Some hex \<Rightarrow> map_option of_nat (parse_radix 16 32 hex)
      | None \<Rightarrow> map_option of_nat (parse_radix 10 32 text))"

text \<open>Sockets of the system, on Linux: whether one can be made for a family, takes a mark, binds and
  connects.\<close>

record sockets =
  new_socket :: "bool \<Rightarrow> io_error option"
  takes_mark :: "u32 \<Rightarrow> io_error option"
  connects :: "socket_addr \<Rightarrow> io_error option"

text \<open>What is done with a socket, in order.\<close>

datatype socket_act = SetMark u32 | ConnectTo socket_addr

text \<open>\<^verbatim>\<open>init\<close> with the static \<^verbatim>\<open>MARK\<close> as its state.\<close>

definition egress_init :: "(string \<Rightarrow> str option) \<Rightarrow> sockets \<Rightarrow> u32 \<Rightarrow> (aether_error, unit) run \<times> u32" where
  "egress_init env os MARK =
     (case (case env ''AETHER_MARK'' of Some v \<Rightarrow> if trim v \<noteq> [] then Some v else None | None \<Rightarrow> None) of
        None \<Rightarrow> (Ok (), 0)
      | Some raw \<Rightarrow>
        (case parse_mark raw of
           None \<Rightarrow> (Err (Other ([39] @ trim raw @ [39] @
             lit '' is not a socket mark; give a number such as 255 or 0xff'')), MARK)
         | Some mark \<Rightarrow>
           if mark = 0 then (Ok (), 0)
           else (case new_socket os True of
             Some e \<Rightarrow> (Err (io_err e), MARK)
           | None \<Rightarrow>
             (case takes_mark os mark of
                Some error \<Rightarrow> (Err (Other (lit ''cannot mark sockets with 0x'' @ show_hex (unat mark) @ lit '': '' @
                  io_text error @ lit ''; marking needs root or CAP_NET_ADMIN'')), MARK)
              | None \<Rightarrow> (Ok (), mark)))))"

definition apply_mark :: "sockets \<Rightarrow> u32 \<Rightarrow> (io_error, unit) run \<times> socket_act list" where
  "apply_mark os MARK =
     (if MARK \<noteq> 0 then (case takes_mark os MARK of Some e \<Rightarrow> (Err e, []) | None \<Rightarrow> (Ok (), [SetMark MARK]))
      else (Ok (), []))"

definition tcp_connect :: "sockets \<Rightarrow> u32 \<Rightarrow> socket_addr \<Rightarrow> (io_error, unit) run \<times> socket_act list" where
  "tcp_connect os MARK address =
     (case new_socket os (is_ipv4 (sock_ip address)) of
        Some e \<Rightarrow> (Err e, [])
      | None \<Rightarrow>
        (case apply_mark os MARK of
           (Ok _, acts) \<Rightarrow>
             ((case connects os address of Some e \<Rightarrow> Err e | None \<Rightarrow> Ok ()), acts @ [ConnectTo address])
         | r \<Rightarrow> r))"

section \<open>The order of addresses\<close>

text \<open>The loop that takes from the two queues by turns.\<close>

fun take_turns :: "'a list \<Rightarrow> 'a list \<Rightarrow> 'a list" where
  "take_turns (l # lead) (x # rest) = l # x # take_turns lead rest"
| "take_turns lead [] = lead"
| "take_turns [] rest = rest"

definition interleaved :: "socket_addr list \<Rightarrow> socket_addr list" where
  "interleaved addresses = (case addresses of
     [] \<Rightarrow> []
   | first # _ \<Rightarrow>
     (let lead_v4 = is_ipv4 (sock_ip first);
          (lead, rest) = partition (\<lambda>address. is_ipv4 (sock_ip address) = lead_v4) addresses
      in take_turns lead rest))"

section \<open>The race\<close>

record race =
  waiting :: "socket_addr list"
  attempts :: "socket_addr list"
  last_error :: "io_error option"
  result :: "(io_error, socket_addr) run option"

text \<open>The attempt at an address ends, connected or with an error; the delay passes before any does.\<close>

datatype race_event = Outcome socket_addr "io_error option" | DelayPassed

definition start_next :: "race \<Rightarrow> race" where
  "start_next st = (case waiting st of
     [] \<Rightarrow> st
   | address # r \<Rightarrow> st\<lparr>waiting := r, attempts := attempts st @ [address]\<rparr>)"

definition loop_top :: "race \<Rightarrow> race" where
  "loop_top st =
     (if result st = None \<and> attempts st = [] then
        (case waiting st of
           _ # _ \<Rightarrow> start_next st
         | [] \<Rightarrow> st\<lparr>result := Some (Err (case last_error st of
             Some e \<Rightarrow> e | None \<Rightarrow> io_new NotFound (lit ''no address to connect to'')))\<rparr>)
      else st)"

definition race_start :: "socket_addr list \<Rightarrow> race" where
  "race_start addresses = loop_top \<lparr>waiting = addresses, attempts = [], last_error = None, result = None\<rparr>"

definition race_step :: "race \<Rightarrow> race_event \<Rightarrow> race" where
  "race_step st ev =
     (if result st \<noteq> None then st
      else case ev of
        Outcome address outcome \<Rightarrow>
          if address \<notin> set (attempts st) then st
          else (case outcome of
            None \<Rightarrow> st\<lparr>result := Some (Ok address)\<rparr>
          | Some error \<Rightarrow>
              loop_top (start_next (st\<lparr>last_error := Some error, attempts := remove1 address (attempts st)\<rparr>)))
      | DelayPassed \<Rightarrow> loop_top (start_next st))"

definition race_run :: "socket_addr list \<Rightarrow> race_event list \<Rightarrow> race" where
  "race_run addresses = foldl race_step (race_start addresses)"

definition tcp_connect_host ::
    "(str \<Rightarrow> u16 \<Rightarrow> (io_error, socket_addr list) run) \<Rightarrow> str \<Rightarrow> u16 \<Rightarrow> race_event list \<Rightarrow>
     (io_error, socket_addr) run option" where
  "tcp_connect_host lookup_host host port evs =
     (case lookup_host host port of
        Err e \<Rightarrow> Some (Err e)
      | Panic \<Rightarrow> Some Panic
      | Ok addresses \<Rightarrow>
        if addresses = [] then Some (Err (io_new NotFound (host @ lit '' did not resolve to any address'')))
        else result (race_run (interleaved addresses) evs))"

section \<open>Lemmas\<close>

lemma take_turns_mset: "mset (take_turns xs ys) = mset xs + mset ys"
  by (induction xs ys rule: take_turns.induct) auto

lemma take_turns_filter:
  assumes "\<forall>x \<in> set xs. p x" "\<forall>y \<in> set ys. \<not> p y"
  shows "filter p (take_turns xs ys) = xs"
  using assms by (induction xs ys rule: take_turns.induct) simp_all

lemma take_turns_filter_not:
  assumes "\<forall>x \<in> set xs. p x" "\<forall>y \<in> set ys. \<not> p y"
  shows "filter (\<lambda>y. \<not> p y) (take_turns xs ys) = ys"
  using assms by (induction xs ys rule: take_turns.induct) simp_all

lemma interleaved_Cons:
  "interleaved (a # r) = take_turns
     (filter (\<lambda>x. is_ipv4 (sock_ip x) = is_ipv4 (sock_ip a)) (a # r))
     (filter (\<lambda>x. \<not> is_ipv4 (sock_ip x) = is_ipv4 (sock_ip a)) (a # r))"
  unfolding interleaved_def by (simp add: Let_def o_def)

lemma interleaved_mset: "mset (interleaved addresses) = mset addresses"
proof (cases addresses)
  case (Cons a r)
  show ?thesis
    unfolding Cons interleaved_Cons take_turns_mset mset_filter
    by (rule multiset_partition [symmetric])
qed (simp add: interleaved_def)

lemma interleaved_same_family:
  "filter (\<lambda>x. is_ipv4 (sock_ip x) = v) (interleaved addresses) = filter (\<lambda>x. is_ipv4 (sock_ip x) = v) addresses"
proof (cases addresses)
  case (Cons a r)
  let ?p = "\<lambda>x. is_ipv4 (sock_ip x) = is_ipv4 (sock_ip a)"
  have "filter ?p (interleaved addresses) = filter ?p addresses"
    "filter (\<lambda>x. \<not> ?p x) (interleaved addresses) = filter (\<lambda>x. \<not> ?p x) addresses"
    unfolding Cons interleaved_Cons by (rule take_turns_filter; simp) (rule take_turns_filter_not; simp)
  moreover have "(\<lambda>x. is_ipv4 (sock_ip x) = v) = ?p \<or> (\<lambda>x. is_ipv4 (sock_ip x) = v) = (\<lambda>x. \<not> ?p x)"
    by (cases v; cases "is_ipv4 (sock_ip a)") (auto simp: fun_eq_iff)
  ultimately show ?thesis by metis
qed (simp add: interleaved_def)

text \<open>What a race has done after the events \<open>evs\<close>: the addresses are started in order, every one started
  is still tried or has failed, and every delay has started one.\<close>

definition delays :: "race_event list \<Rightarrow> nat" where
  "delays evs = length (filter (\<lambda>e. e = DelayPassed) evs)"

definition failed :: "race_event list \<Rightarrow> socket_addr \<Rightarrow> bool" where
  "failed evs a \<longleftrightarrow> (\<exists>e. Outcome a (Some e) \<in> set evs)"

definition race_inv :: "socket_addr list \<Rightarrow> race_event list \<Rightarrow> race \<Rightarrow> bool" where
  "race_inv addresses evs st \<longleftrightarrow>
     (\<exists>started. addresses = started @ waiting st \<and> set (attempts st) \<subseteq> set started \<and>
        (\<forall>a \<in> set started. a \<in> set (attempts st) \<or> failed evs a) \<and>
        (last_error st = None \<longrightarrow> attempts st = started)) \<and>
     (\<forall>e. last_error st = Some e \<longrightarrow> (\<exists>a \<in> set addresses. Outcome a (Some e) \<in> set evs))"

definition race_timely :: "socket_addr list \<Rightarrow> race_event list \<Rightarrow> race \<Rightarrow> bool" where
  "race_timely addresses evs st \<longleftrightarrow>
     (case result st of
        None \<Rightarrow> attempts st \<noteq> [] \<and> length (waiting st) \<le> length addresses - 1 - delays evs
      | Some (Ok a) \<Rightarrow> a \<in> set addresses \<and> Outcome a None \<in> set evs
      | Some (Err e) \<Rightarrow> (\<forall>a \<in> set addresses. failed evs a) \<and>
          (if addresses = [] then kind e = NotFound else \<exists>a \<in> set addresses. Outcome a (Some e) \<in> set evs)
      | Some Panic \<Rightarrow> False)"

lemma start_next_inv:
  assumes "race_inv addresses evs st"
  shows "race_inv addresses evs (start_next st)"
proof (cases "waiting st")
  case (Cons a r)
  obtain started where "addresses = started @ waiting st" "set (attempts st) \<subseteq> set started"
      "\<forall>a \<in> set started. a \<in> set (attempts st) \<or> failed evs a" "last_error st = None \<longrightarrow> attempts st = started"
    using assms by (auto simp: race_inv_def)
  then have "addresses = (started @ [a]) @ r \<and> set (attempts st @ [a]) \<subseteq> set (started @ [a]) \<and>
      (\<forall>x \<in> set (started @ [a]). x \<in> set (attempts st @ [a]) \<or> failed evs x) \<and>
      (last_error st = None \<longrightarrow> attempts st @ [a] = started @ [a])"
    using Cons by auto
  then show ?thesis using assms Cons unfolding race_inv_def start_next_def
    by (intro conjI) (rule exI [of _ "started @ [a]"], simp_all)
qed (use assms in \<open>simp add: start_next_def\<close>)

lemma start_next_simps [simp]:
  "result (start_next st) = result st" "length (waiting (start_next st)) = length (waiting st) - 1"
  "attempts (start_next st) = [] \<longleftrightarrow> attempts st = [] \<and> waiting st = []"
  by (auto simp: start_next_def split: list.splits)

lemma loop_top_inv: "race_inv addresses evs st \<Longrightarrow> race_inv addresses evs (loop_top st)"
  using start_next_inv [of addresses evs st] by (auto simp: loop_top_def race_inv_def split: list.splits)

lemma loop_top_timely:
  assumes "race_inv addresses evs st" "result st = None" "length (waiting st) \<le> length addresses - 1 - delays evs"
  shows "race_timely addresses evs (loop_top st)"
proof (cases "attempts st = [] \<and> waiting st = []")
  case True
  then have r: "result (loop_top st) = Some (Err (case last_error st of
      Some e \<Rightarrow> e | None \<Rightarrow> io_new NotFound (lit ''no address to connect to'')))"
    using assms(2) by (simp add: loop_top_def)
  then show ?thesis using assms(1) True
    by (cases "last_error st") (auto simp: race_timely_def race_inv_def io_new_def)
next
  case False
  then show ?thesis using assms(2,3)
    by (cases "attempts st"; cases "waiting st") (auto simp: race_timely_def loop_top_def)
qed

lemma failed_snoc: "failed evs a \<Longrightarrow> failed (evs @ [e]) a"
  by (auto simp: failed_def)

lemma race_inv_snoc:
  assumes "race_inv addresses evs st"
  shows "race_inv addresses (evs @ [e]) st"
proof -
  obtain started where "addresses = started @ waiting st" "set (attempts st) \<subseteq> set started"
      "\<forall>a \<in> set started. a \<in> set (attempts st) \<or> failed evs a" "last_error st = None \<longrightarrow> attempts st = started"
    using assms by (auto simp: race_inv_def)
  then show ?thesis using assms failed_snoc [of evs _ e] unfolding race_inv_def
    by (intro conjI exI [of _ started]) auto
qed

lemma race_inv_failed:
  assumes "race_inv addresses evs st" "a \<in> set (attempts st)"
  shows "race_inv addresses (evs @ [Outcome a (Some e)]) (st\<lparr>last_error := Some e, attempts := remove1 a (attempts st)\<rparr>)"
proof -
  obtain started where s: "addresses = started @ waiting st" "set (attempts st) \<subseteq> set started"
      "\<forall>a \<in> set started. a \<in> set (attempts st) \<or> failed evs a"
    using assms by (auto simp: race_inv_def)
  have "x \<in> set (remove1 a (attempts st)) \<or> failed (evs @ [Outcome a (Some e)]) x" if "x \<in> set started" for x
    using s(3) that failed_snoc by (cases "x = a") (auto simp: failed_def)
  then show ?thesis
    using s assms(2) set_remove1_subset [of a "attempts st"] unfolding race_inv_def
    by (intro conjI exI [of _ started]) auto
qed

lemma race_step_inv:
  assumes "race_inv addresses evs st" "race_timely addresses evs st"
  shows "race_inv addresses (evs @ [ev]) (race_step st ev) \<and> race_timely addresses (evs @ [ev]) (race_step st ev)"
proof (cases "result st")
  case (Some r)
  then show ?thesis
    using assms race_inv_snoc [OF assms(1)] failed_snoc [of evs]
    by (cases r) (auto simp: race_step_def race_timely_def)
next
  case None
  note n = assms(2) [unfolded race_timely_def None, simplified]
  have d: "delays (evs @ [Outcome a r]) = delays evs" "delays (evs @ [DelayPassed]) = Suc (delays evs)" for a r
    by (simp_all add: delays_def)
  show ?thesis
  proof (cases ev)
    case (Outcome a r)
    show ?thesis
    proof (cases "a \<in> set (attempts st)")
      case False
      then show ?thesis using None n d race_inv_snoc [OF assms(1)] Outcome
        by (simp add: race_step_def race_timely_def)
    next
      case True
      show ?thesis
      proof (cases r)
        case N: None
        have "a \<in> set addresses" using assms(1) True by (auto simp: race_inv_def)
        then show ?thesis using None True N Outcome race_inv_snoc [OF assms(1), of ev]
          by (auto simp: race_step_def race_timely_def race_inv_def)
      next
        case (Some e)
        let ?st = "start_next (st\<lparr>last_error := Some e, attempts := remove1 a (attempts st)\<rparr>)"
        have i: "race_inv addresses (evs @ [ev]) ?st"
          using race_inv_failed [OF assms(1) True] Some Outcome by (auto intro: start_next_inv)
        have "length (waiting ?st) \<le> length addresses - 1 - delays (evs @ [ev])"
          using n by (simp add: d Outcome) linarith
        then show ?thesis
          using loop_top_inv [OF i] loop_top_timely [OF i] None True Some Outcome by (simp add: race_step_def)
      qed
    qed
  next
    case DelayPassed
    have i: "race_inv addresses (evs @ [ev]) (start_next st)"
      by (intro start_next_inv race_inv_snoc assms(1))
    have "length (waiting (start_next st)) \<le> length addresses - 1 - delays (evs @ [ev])"
      using n by (simp add: d DelayPassed) linarith
    then show ?thesis
      using loop_top_inv [OF i] loop_top_timely [OF i] None DelayPassed by (simp add: race_step_def)
  qed
qed

lemma race_run_inv: "race_inv addresses evs (race_run addresses evs) \<and> race_timely addresses evs (race_run addresses evs)"
proof (induction evs rule: rev_induct)
  case Nil
  let ?st = "\<lparr>waiting = addresses, attempts = [], last_error = None, result = None\<rparr>"
  have i: "race_inv addresses [] ?st" by (simp add: race_inv_def)
  have "race_timely addresses [] (loop_top ?st)"
    by (cases addresses) (auto simp: race_timely_def loop_top_def start_next_def io_new_def delays_def)
  then show ?case using loop_top_inv [OF i] by (simp add: race_run_def race_start_def)
next
  case (snoc e evs)
  then show ?case using race_step_inv [of addresses evs "race_run addresses evs" e] by (simp add: race_run_def)
qed

text \<open>How a race ends: at the first event that ends it, which is an attempt that connects, or the failure of the only
  one that is left.\<close>

lemma race_run_snoc: "race_run addresses (evs @ [ev]) = race_step (race_run addresses evs) ev"
  by (simp add: race_run_def)

lemma race_start_running: "addresses \<noteq> [] \<Longrightarrow> race_start addresses =
    \<lparr>waiting = tl addresses, attempts = [hd addresses], last_error = None, result = None\<rparr>"
  by (cases addresses) (simp_all add: race_start_def loop_top_def start_next_def)

lemma race_over: "result st \<noteq> None \<Longrightarrow> foldl race_step st evs = st"
  by (induction evs) (simp_all add: race_step_def)

lemma race_ends_at:
  assumes "result st = None"
  shows "result (foldl race_step st evs) = Some r \<longleftrightarrow>
    (\<exists>pre ev post. evs = pre @ ev # post \<and> result (foldl race_step st pre) = None \<and>
       result (race_step (foldl race_step st pre) ev) = Some r)"
  using assms
proof (induction evs arbitrary: st)
  case (Cons e evs)
  let ?ends = "\<lambda>st evs. \<exists>pre ev post. evs = pre @ ev # post \<and> result (foldl race_step st pre) = None \<and>
       result (race_step (foldl race_step st pre) ev) = Some r"
  have split: "(\<exists>pre. P pre) \<longleftrightarrow> P [] \<or> (\<exists>x pre. P (x # pre))" for P :: "race_event list \<Rightarrow> bool"
    by (metis list.exhaust)
  have now_or_later: "?ends st (e # evs) \<longleftrightarrow> result (race_step st e) = Some r \<or> ?ends (race_step st e) evs"
    by (subst split) (simp add: Cons.prems)
  show ?case
  proof (cases "result (race_step st e)")
    case None
    then show ?thesis unfolding now_or_later foldl_Cons using Cons.IH [OF None] by simp
  next
    case (Some r')
    then have over: "foldl race_step (race_step st e) evs = race_step st e" for evs by (intro race_over) simp
    show ?thesis unfolding now_or_later foldl_Cons over using Some by simp
  qed
qed simp

lemma race_result_iff:
  "addresses \<noteq> [] \<Longrightarrow> result (race_run addresses evs) = Some r \<longleftrightarrow>
    (\<exists>pre ev post. evs = pre @ ev # post \<and> result (race_run addresses pre) = None \<and>
       result (race_step (race_run addresses pre) ev) = Some r)"
  unfolding race_run_def by (rule race_ends_at) (simp add: race_start_running)

lemma race_step_result:
  assumes "result st = None" "attempts st \<noteq> []"
  shows "result (race_step st ev) = Some (Ok a) \<longleftrightarrow> ev = Outcome a None \<and> a \<in> set (attempts st)"
    "result (race_step st ev) = Some (Err e) \<longleftrightarrow> (\<exists>a. ev = Outcome a (Some e) \<and> attempts st = [a] \<and> waiting st = [])"
proof -
  have only: "remove1 x xs = [] \<longleftrightarrow> xs = [x]" if "x \<in> set xs" for x and xs :: "socket_addr list"
    using that by (cases xs) auto
  show "result (race_step st ev) = Some (Ok a) \<longleftrightarrow> ev = Outcome a None \<and> a \<in> set (attempts st)"
    using assms by (cases ev) (auto simp: race_step_def loop_top_def split: option.splits list.splits)
  show "result (race_step st ev) = Some (Err e) \<longleftrightarrow> (\<exists>a. ev = Outcome a (Some e) \<and> attempts st = [a] \<and> waiting st = [])"
    using assms by (cases ev) (auto simp: race_step_def loop_top_def start_next_def only split: option.splits list.splits)
qed

lemma race_result:
  assumes "addresses \<noteq> []"
  shows "result (race_run addresses evs) = Some (Ok a) \<longleftrightarrow>
     (\<exists>pre post. evs = pre @ Outcome a None # post \<and> result (race_run addresses pre) = None \<and>
        a \<in> set (attempts (race_run addresses pre)))"
    "result (race_run addresses evs) = Some (Err e) \<longleftrightarrow>
     (\<exists>pre post a. evs = pre @ Outcome a (Some e) # post \<and> result (race_run addresses pre) = None \<and>
        attempts (race_run addresses pre) = [a] \<and> waiting (race_run addresses pre) = [])"
proof -
  have run: "attempts (race_run addresses pre) \<noteq> []" if "result (race_run addresses pre) = None" for pre
    using race_run_inv [of addresses pre] that by (simp add: race_timely_def)
  then have ok: "result (race_run addresses pre) = None \<and> result (race_step (race_run addresses pre) ev) = Some (Ok a) \<longleftrightarrow>
      result (race_run addresses pre) = None \<and> ev = Outcome a None \<and> a \<in> set (attempts (race_run addresses pre))"
    for pre ev using race_step_result(1) by blast
  have err: "result (race_run addresses pre) = None \<and> result (race_step (race_run addresses pre) ev) = Some (Err e) \<longleftrightarrow>
      result (race_run addresses pre) = None \<and>
      (\<exists>a. ev = Outcome a (Some e) \<and> attempts (race_run addresses pre) = [a] \<and> waiting (race_run addresses pre) = [])"
    for pre ev using run race_step_result(2) by blast
  show "result (race_run addresses evs) = Some (Ok a) \<longleftrightarrow>
     (\<exists>pre post. evs = pre @ Outcome a None # post \<and> result (race_run addresses pre) = None \<and>
        a \<in> set (attempts (race_run addresses pre)))"
    unfolding race_result_iff [OF assms] ok by blast
  show "result (race_run addresses evs) = Some (Err e) \<longleftrightarrow>
     (\<exists>pre post a. evs = pre @ Outcome a (Some e) # post \<and> result (race_run addresses pre) = None \<and>
        attempts (race_run addresses pre) = [a] \<and> waiting (race_run addresses pre) = [])"
    unfolding race_result_iff [OF assms] err by blast
qed

text \<open>The attempts of a race that were lost, in order.\<close>

definition lost_by :: "race \<Rightarrow> race_event \<Rightarrow> socket_addr list" where
  "lost_by st ev = (case ev of Outcome a (Some e) \<Rightarrow> if a \<in> set (attempts st) then [a] else [] | _ \<Rightarrow> [])"

definition lost :: "socket_addr list \<Rightarrow> race_event list \<Rightarrow> socket_addr list" where
  "lost addresses evs = concat (map (\<lambda>i. lost_by (race_run addresses (take i evs)) (evs ! i)) [0..<length evs])"

lemma lost_simps:
  "lost addresses [] = []" "lost addresses (evs @ [ev]) = lost addresses evs @ lost_by (race_run addresses evs) ev"
proof -
  have before: "map (\<lambda>i. lost_by (race_run addresses (take i (evs @ [ev]))) ((evs @ [ev]) ! i)) [0..<length evs] =
      map (\<lambda>i. lost_by (race_run addresses (take i evs)) (evs ! i)) [0..<length evs]"
    by (rule map_cong) (simp_all add: nth_append)
  have up: "[0..<length (evs @ [ev])] = [0..<length evs] @ [length evs]" by simp
  show "lost addresses (evs @ [ev]) = lost addresses evs @ lost_by (race_run addresses evs) ev"
    unfolding lost_def up map_append before concat_append by simp
qed (simp add: lost_def)

lemma start_next_parts:
  "waiting (start_next st) = drop 1 (waiting st)" "attempts (start_next st) = attempts st @ take 1 (waiting st)"
  by (cases "waiting st"; simp add: start_next_def)+

lemma next_one: "result (loop_top (start_next st)) = None \<Longrightarrow> loop_top (start_next st) = start_next st"
  by (cases "waiting st") (auto simp: start_next_def loop_top_def split: if_splits)

text \<open>As long as a race is on, the first attempt runs from the start, every delay and every lost attempt have
  started the next, and what runs are the started ones without the lost ones.\<close>

lemma race_running:
  assumes "addresses \<noteq> []" "result (race_run addresses evs) = None"
  shows "\<exists>started. addresses = started @ waiting (race_run addresses evs) \<and>
    length started = min (length addresses) (1 + delays evs + length (lost addresses evs)) \<and>
    mset started = mset (attempts (race_run addresses evs)) + mset (lost addresses evs)"
  using assms(2)
proof (induction evs rule: rev_induct)
  case Nil
  then show ?case using assms(1)
    by (cases addresses) (simp_all add: race_run_def race_start_running delays_def lost_simps)
next
  case (snoc ev evs)
  define st where "st = race_run addresses evs"
  have on: "result st = None" using snoc.prems race_over [of st "[ev]"] by (cases "result st") (auto simp: race_run_snoc st_def)
  then obtain started where "addresses = started @ waiting st"
      "length started = min (length addresses) (1 + delays evs + length (lost addresses evs))"
      "mset started = mset (attempts st) + mset (lost addresses evs)"
    using snoc.IH unfolding st_def by blast
  note old = this
  have grown: "addresses = (started @ take 1 (waiting st)) @ drop 1 (waiting st)" using old(1) by simp
  show ?case
  proof (cases ev)
    case DelayPassed
    then have step: "race_step st ev = start_next st" using snoc.prems on next_one [of st]
      by (simp add: race_run_snoc race_step_def st_def [symmetric])
    show ?thesis unfolding race_run_snoc st_def [symmetric] step start_next_parts using old grown DelayPassed
      by (intro exI [of _ "started @ take 1 (waiting st)"] conjI) (simp_all add: delays_def lost_simps lost_by_def)
  next
    case (Outcome a r)
    show ?thesis
    proof (cases "a \<in> set (attempts st)")
      case False
      then have same: "race_step st ev = st" "lost addresses (evs @ [ev]) = lost addresses evs" "delays (evs @ [ev]) = delays evs"
        using Outcome by (auto simp: race_step_def lost_simps lost_by_def st_def delays_def split: option.split)
      show ?thesis unfolding race_run_snoc st_def [symmetric] same using old by blast
    next
      case True
      then obtain e where r: "r = Some e" using snoc.prems on Outcome
        by (cases r) (auto simp: race_run_snoc race_step_def st_def [symmetric])
      let ?st = "st\<lparr>last_error := Some e, attempts := remove1 a (attempts st)\<rparr>"
      have "race_step st ev = loop_top (start_next ?st)" using on Outcome r True by (simp add: race_step_def)
      then have step: "race_step st ev = start_next ?st" using snoc.prems next_one [of ?st]
        by (simp add: race_run_snoc st_def [symmetric])
      have "lost addresses (evs @ [ev]) = lost addresses evs @ [a]" "delays (evs @ [ev]) = delays evs"
        using Outcome r True by (simp_all add: lost_simps lost_by_def st_def delays_def)
      moreover have "mset (attempts st) = add_mset a (mset (remove1 a (attempts st)))" using True by simp
      ultimately show ?thesis unfolding race_run_snoc st_def [symmetric] step start_next_parts using old grown
        by (intro exI [of _ "started @ take 1 (waiting st)"] conjI) simp_all
    qed
  qed
qed

section \<open>Properties\<close>

text \<open>C23. The race for a name's addresses is complete and fair. The addresses are tried each once, by turns
  of family and each family in its own order: as long as the race is on, the first has been started at once
  and every delay and every failure of a running attempt have started the next one of the order that
  is left, and running are those that were started and have not failed. The race gives a connection exactly
  when a running attempt connects before it is over, and that one, so the first; and
  an error exactly when the only running attempt fails and no address is left, and that error, when
  the attempt at every address has failed.\<close>

theorem race_complete:
  assumes "lookup_host host port = Ok addresses" "addresses \<noteq> []"
  shows "let order = interleaved addresses; outcome = tcp_connect_host lookup_host host port in
    mset order = mset addresses \<and>
    (\<forall>v. filter (\<lambda>x. is_ipv4 (sock_ip x) = v) order = filter (\<lambda>x. is_ipv4 (sock_ip x) = v) addresses) \<and>
    (\<forall>a. outcome evs = Some (Ok a) \<longleftrightarrow>
       (\<exists>pre post. evs = pre @ Outcome a None # post \<and> outcome pre = None \<and> a \<in> set (attempts (race_run order pre)))) \<and>
    (\<forall>e. outcome evs = Some (Err e) \<longleftrightarrow>
       (\<exists>pre post a. evs = pre @ Outcome a (Some e) # post \<and> outcome pre = None \<and>
          attempts (race_run order pre) = [a] \<and> waiting (race_run order pre) = [])) \<and>
    (case outcome evs of
       Some (Ok a) \<Rightarrow> a \<in> set addresses
     | Some (Err e) \<Rightarrow> \<forall>a \<in> set addresses. \<exists>e. Outcome a (Some e) \<in> set evs
     | Some Panic \<Rightarrow> False
     | None \<Rightarrow> attempts (race_run order evs) \<noteq> [] \<and>
         (\<exists>started. order = started @ waiting (race_run order evs) \<and>
            length started = min (length addresses)
              (1 + length (filter (\<lambda>e. e = DelayPassed) evs) + length (lost order evs)) \<and>
            mset started = mset (attempts (race_run order evs)) + mset (lost order evs)))"
proof -
  define order where "order = interleaved addresses"
  have s: "set order = set addresses" "length order = length addresses"
    using interleaved_mset [of addresses] unfolding order_def by (metis set_mset_mset, metis size_mset)
  then have ne: "order \<noteq> []" using assms(2) by auto
  have outcome: "tcp_connect_host lookup_host host port = (\<lambda>evs. result (race_run order evs))"
    using assms by (simp add: tcp_connect_host_def order_def fun_eq_iff)
  have run: "attempts (race_run order pre) \<noteq> []" if "result (race_run order pre) = None" for pre
    using race_run_inv [of order pre] that by (simp add: race_timely_def)
  note ends = race_result [OF ne, of evs]
  have running: "case result (race_run order evs) of
       Some (Ok a) \<Rightarrow> a \<in> set addresses
     | Some (Err e) \<Rightarrow> \<forall>a \<in> set addresses. \<exists>e. Outcome a (Some e) \<in> set evs
     | Some Panic \<Rightarrow> False
     | None \<Rightarrow> attempts (race_run order evs) \<noteq> [] \<and>
         (\<exists>started. order = started @ waiting (race_run order evs) \<and>
            length started = min (length addresses)
              (1 + length (filter (\<lambda>e. e = DelayPassed) evs) + length (lost order evs)) \<and>
            mset started = mset (attempts (race_run order evs)) + mset (lost order evs))"
  proof (cases "result (race_run order evs)")
    case None
    then show ?thesis using race_run_inv [of order evs] race_running [OF ne None] s(2)
      by (simp add: race_timely_def delays_def)
  next
    case (Some r)
    then show ?thesis using race_run_inv [of order evs] by (cases r) (simp_all add: race_timely_def failed_def s(1))
  qed
  show ?thesis unfolding Let_def order_def [symmetric] outcome
    by (intro conjI allI ends running) (simp_all add: order_def interleaved_mset interleaved_same_family)
qed

theorem race_complete_witness:
  "tcp_connect_host (\<lambda>_ _. Ok [SockV4 1 443, SockV4 2 443, SockV6 3 443 0 0]) [] 443
     [DelayPassed, Outcome (SockV4 1 443) (Some (io_new TimedOut [])), Outcome (SockV6 3 443 0 0) None] =
     Some (Ok (SockV6 3 443 0 0)) \<and>
   SockV6 3 443 0 0 \<in> set [SockV4 1 443, SockV4 2 443, SockV6 3 443 0 0]"
  using race_complete [of "\<lambda>_ _. Ok [SockV4 1 443, SockV4 2 443, SockV6 3 443 0 0]" "[]" 443
      "[SockV4 1 443, SockV4 2 443, SockV6 3 443 0 0]"
      "[DelayPassed, Outcome (SockV4 1 443) (Some (io_new TimedOut [])), Outcome (SockV6 3 443 0 0) None]"]
  by (simp add: tcp_connect_host_def race_run_def race_start_def race_step_def loop_top_def start_next_def
      interleaved_Cons is_ipv4_def sock_ip_def)

end
