(* ===== verification/Upstream.thy ===== *)
theory Upstream
  imports Connect Egress
begin

text \<open>
  The proxy the client dials out through (\<^verbatim>\<open>aether/src/upstream.rs\<close>): how the setting names it, the
  SOCKS5 and HTTP handshakes the client makes with it, and the headers of relayed datagrams.
\<close>

section \<open>The setting\<close>

datatype upstream_kind = Socks5 | Http

definition kind_label :: "upstream_kind \<Rightarrow> str" where
  "kind_label k = (case k of Socks5 \<Rightarrow> lit ''socks5'' | Http \<Rightarrow> lit ''http'')"

record upstream =
  up_kind :: upstream_kind
  up_host :: str
  up_port :: u16
  up_user :: "str option"
  up_password :: "str option"

definition malformed :: "str \<Rightarrow> aether_error" where
  "malformed endpoint = Other (endpoint @ lit '' is not a host and port an upstream proxy can live at'')"

definition split_endpoint :: "str \<Rightarrow> (aether_error, str \<times> u16) run" where
  "split_endpoint endpoint = (case strip_prefix endpoint [91] of
     Some rest \<Rightarrow>
       bnd (ok_or (malformed endpoint) (split_once 93 rest)) (\<lambda>(host, tail).
       bnd (ok_or (malformed endpoint) (strip_prefix tail [58])) (\<lambda>port.
       bnd (ok_or (malformed endpoint) (parse_u16 port)) (\<lambda>port.
       if host = [] \<or> port = 0 then Err (malformed endpoint) else Ok (host, port))))
   | None \<Rightarrow>
       bnd (ok_or (malformed endpoint) (rsplit_once 58 endpoint)) (\<lambda>(host, port).
       bnd (ok_or (malformed endpoint) (parse_u16 port)) (\<lambda>port.
       if host = [] \<or> port = 0 then Err (malformed endpoint) else Ok (host, port))))"

definition unreserved :: "u8 \<Rightarrow> bool" where
  "unreserved b \<longleftrightarrow> is_upper b \<or> 97 \<le> b \<and> b \<le> 122 \<or> is_digit b \<or> b \<in> {45, 46, 95, 126}"

definition hex_upper :: "nat \<Rightarrow> u8" where
  "hex_upper d = of_nat (if d < 10 then 48 + d else 55 + d)"

definition percent_encode :: "str \<Rightarrow> str" where
  "percent_encode value = concat (map (\<lambda>byte.
     if unreserved byte then [byte] else [37, hex_upper (unat byte div 16), hex_upper (unat byte mod 16)]) value)"

text \<open>The loop of \<^verbatim>\<open>percent_decode\<close>, over what is left of the text.\<close>

fun percent_bytes :: "bytes \<Rightarrow> bytes" where
  "percent_bytes (p # a # b # s) =
     (if p = 37 then
        (case (if utf8_valid [a, b] then parse_radix 16 8 [a, b] else None) of
           Some byte \<Rightarrow> of_nat byte # percent_bytes s
         | None \<Rightarrow> p # percent_bytes (a # b # s))
      else p # percent_bytes (a # b # s))"
| "percent_bytes s = s"

definition percent_decode :: "str \<Rightarrow> str" where
  "percent_decode value = utf8_lossy (percent_bytes value)"

definition upstream_parse :: "(str \<Rightarrow> str) \<Rightarrow> str \<Rightarrow> (aether_error, upstream) run" where
  "upstream_parse ul raw =
     (let raw = trim raw;
          (scheme, rest) = (case find_sub (lit ''://'') raw of
             Some i \<Rightarrow> (to_lowercase ul (take i raw), drop (i + 3) raw)
           | None \<Rightarrow> (lit ''socks5'', raw))
      in bnd (if scheme \<in> {lit ''socks5'', lit ''socks5h'', lit ''socks''} then Ok Socks5
              else if scheme \<in> {lit ''http'', lit ''https''} then Ok Http
              else Err (Other (scheme @ lit '' is not an upstream proxy kind aether understands''))) (\<lambda>kind.
         let (credentials, endpoint) = (case rsplit_once 64 rest of
               Some (credentials, endpoint) \<Rightarrow> (Some credentials, endpoint)
             | None \<Rightarrow> (None, rest))
         in if scheme = lit ''https'' \<and> credentials \<noteq> None then
              Err (Other (lit ''an https:// upstream with a password is refused: aether talks to its upstream over plain http, which would send the password in the clear; use http:// only if that is acceptable, or socks5://''))
            else
              bnd (split_endpoint (trim_end_matches 47 endpoint)) (\<lambda>(host, port).
              let (user, password) = (case credentials of
                    Some pair \<Rightarrow> (case split_once 58 pair of
                        Some (user, password) \<Rightarrow> (Some (percent_decode user), Some (percent_decode password))
                      | None \<Rightarrow> (Some (percent_decode pair), None))
                  | None \<Rightarrow> (None, None))
              in Ok \<lparr>up_kind = kind, up_host = host, up_port = port, up_user = user, up_password = password\<rparr>)))"

definition from_value :: "(str \<Rightarrow> str) \<Rightarrow> str \<Rightarrow> upstream option" where
  "from_value ul raw =
     (let trimmed = trim raw in
      if trimmed = [] then None
      else case upstream_parse ul trimmed of Ok u \<Rightarrow> Some u | _ \<Rightarrow> None)"

definition usable :: "(str \<Rightarrow> str) \<Rightarrow> str \<Rightarrow> (aether_error, unit) run" where
  "usable ul raw =
     (if trim raw = [] then Ok ()
      else map_err (\<lambda>e. Other (lit ''--upstream cannot be used: '' @ detail e @
             lit ''; aether ends rather than connect around it'')) (bnd (upstream_parse ul raw) (\<lambda>_. Ok ())))"

definition check_setting :: "(str \<Rightarrow> str) \<Rightarrow> (string \<Rightarrow> str option) \<Rightarrow> (aether_error, unit) run" where
  "check_setting ul env = usable ul (case env ''AETHER_UPSTREAM'' of Some v \<Rightarrow> v | None \<Rightarrow> [])"

text \<open>The setting that was seen last, and the proxy it named.\<close>

type_synonym seen = "(str \<times> upstream option) option"

definition remembered :: "(str \<Rightarrow> str) \<Rightarrow> seen \<Rightarrow> str \<Rightarrow> upstream option \<times> seen" where
  "remembered ul seen raw =
     (case seen of
        Some (l, u) \<Rightarrow> if l = raw then (u, seen)
          else (let u = from_value ul raw in (u, Some (raw, u)))
      | None \<Rightarrow> (let u = from_value ul raw in (u, Some (raw, u))))"

text \<open>\<open>task\<close>: the proxy the running task goes through (\<^verbatim>\<open>through\<close>).\<close>

definition configured ::
    "(str \<Rightarrow> str) \<Rightarrow> upstream option \<Rightarrow> (string \<Rightarrow> str option) \<Rightarrow> seen \<Rightarrow> upstream option \<times> seen" where
  "configured ul task env seen = (case task of
     Some proxy \<Rightarrow> (Some proxy, seen)
   | None \<Rightarrow> remembered ul seen (case env ''AETHER_UPSTREAM'' of Some v \<Rightarrow> v | None \<Rightarrow> []))"

definition endpoint :: "upstream \<Rightarrow> str" where
  "endpoint u = up_host u @ [58] @ show_nat (unat (up_port u))"

definition bracketed :: "str \<Rightarrow> str" where
  "bracketed host = (if contains host [58] then [91] @ host @ [93] else host)"

definition upstream_url :: "upstream \<Rightarrow> str" where
  "upstream_url u =
     (case up_kind u of Socks5 \<Rightarrow> lit ''socks5h'' | Http \<Rightarrow> lit ''http'') @ lit ''://'' @
     bracketed (up_host u) @ [58] @ show_nat (unat (up_port u))"

definition psiphon_url :: "upstream \<Rightarrow> str" where
  "psiphon_url u =
     (case up_kind u of Socks5 \<Rightarrow> lit ''socks5'' | Http \<Rightarrow> lit ''http'') @ lit ''://'' @
     (case (up_user u, up_password u) of
        (Some user, Some password) \<Rightarrow> percent_encode user @ [58] @ percent_encode password @ [64]
      | (Some user, None) \<Rightarrow> percent_encode user @ [64]
      | _ \<Rightarrow> []) @
     bracketed (up_host u) @ [58] @ show_nat (unat (up_port u))"

definition socks_address :: "upstream \<Rightarrow> socket_addr option" where
  "socks_address u =
     (if up_kind u \<noteq> Socks5 \<or> up_user u \<noteq> None then None
      else map_option (\<lambda>ip. socket_new ip (up_port u)) (parse_ip (up_host u)))"

section \<open>Requests\<close>

definition AUTH_NONE :: u8 where "AUTH_NONE = 0"
definition AUTH_USERPASS :: u8 where "AUTH_USERPASS = 2"
definition AUTH_REJECTED :: u8 where "AUTH_REJECTED = 255"

definition encode_address :: "socket_addr \<Rightarrow> bytes" where
  "encode_address target =
     (case sock_ip target of V4 v4 \<Rightarrow> ATYP_V4 # octets4 v4 | V6 v6 \<Rightarrow> ATYP_V6 # octets16 v6) @ be16 (sock_port target)"

definition encode_request :: "u8 \<Rightarrow> socket_addr \<Rightarrow> bytes" where
  "encode_request command target = [VER, command, 0] @ encode_address target"

text \<open>\<open>dbg\<close>: the text of a name as \<^verbatim>\<open>{:?}\<close> prints it.\<close>

definition encode_name_request :: "(str \<Rightarrow> str) \<Rightarrow> u8 \<Rightarrow> str \<Rightarrow> u16 \<Rightarrow> (aether_error, bytes) run" where
  "encode_name_request dbg command name port =
     (if length name < 256 \<and> 0 < length name then
        Ok ([VER, command, 0, ATYP_DOMAIN, of_nat (length name)] @ name @ be16 port)
      else Err (Other (dbg name @ lit '' is no name a socks5 proxy can be asked for'')))"

definition encode_udp_header :: "socket_addr \<Rightarrow> bytes" where
  "encode_udp_header target = [0, 0, 0] @ encode_address target"

definition decode_udp_header :: "bytes \<Rightarrow> (socket_addr \<times> nat) opt" where
  "decode_udp_header buf =
     (if length buf < 4 \<or> buf ! 2 \<noteq> 0 then Err ()
      else
        bnd (ix buf 3) (\<lambda>atyp.
        if atyp = ATYP_V4 then
          (if length buf < 10 then Err ()
           else bnd (ix buf 4) (\<lambda>a. bnd (ix buf 5) (\<lambda>b. bnd (ix buf 6) (\<lambda>c. bnd (ix buf 7) (\<lambda>d.
                bnd (ix buf 8) (\<lambda>p0. bnd (ix buf 9) (\<lambda>p1.
                Ok (socket_new (V4 (ipv4 a b c d)) (u16_be p0 p1), 10))))))))
        else if atyp = ATYP_V6 then
          (if length buf < 22 then Err ()
           else bnd (sl buf 4 20) (\<lambda>octets. bnd (ix buf 20) (\<lambda>p0. bnd (ix buf 21) (\<lambda>p1.
                Ok (socket_new (V6 (v6_from octets)) (u16_be p0 p1), 22)))))
        else if atyp = ATYP_DOMAIN then
          bnd (ok_or () (get buf 4)) (\<lambda>len.
          let fin = 5 + unat len in
          if length buf < fin + 2 then Err ()
          else bnd (ix buf fin) (\<lambda>p0. bnd (ix buf (fin + 1)) (\<lambda>p1.
               bnd (sl buf 5 fin) (\<lambda>name.
               if \<not> utf8_valid name then Err ()
               else bnd (ok_or () (parse_ip name)) (\<lambda>ip.
               Ok (socket_new ip (u16_be p0 p1), fin + 2))))))
        else Err ()))"

section \<open>Handshakes\<close>

definition socks_authenticate :: "upstream \<Rightarrow> ('x sock_scheme, unit) io" where
  "socks_authenticate u =
     (let user = (case up_user u of Some v \<Rightarrow> v | None \<Rightarrow> []);
          password = (case up_password u of Some v \<Rightarrow> v | None \<Rightarrow> [])
      in if length user > 255 \<or> length password > 255 then
           fail (Other (lit ''the upstream proxy credentials are longer than socks5 allows''))
         else
         seq (write_all ([1, of_nat (length user)] @ user @ [of_nat (length password)] @ password)) (\<lambda>_.
         seq (read_exact 2) (\<lambda>answer.
         if answer ! 0 \<noteq> 1 then
           fail (Other (lit ''the upstream proxy answered the password negotiation with the wrong version''))
         else if answer ! 1 \<noteq> 0 then
           fail (Other (lit ''the upstream proxy refused the credentials supplied''))
         else ret ())))"

definition socks_greet :: "upstream \<Rightarrow> ('x sock_scheme, unit) io" where
  "socks_greet u =
     (let wants_auth = up_user u \<noteq> None in
      seq (write_all (if wants_auth then [VER, 1, AUTH_USERPASS] else [VER, 1, AUTH_NONE])) (\<lambda>_.
      seq (read_exact 2) (\<lambda>answer.
      if answer ! 0 \<noteq> VER then fail (Other (lit ''the upstream proxy did not speak socks5''))
      else if answer ! 1 = AUTH_NONE \<and> wants_auth then
        fail (Other (lit ''the upstream proxy skipped authentication even though credentials are configured''))
      else if answer ! 1 = AUTH_NONE then ret ()
      else if answer ! 1 = AUTH_USERPASS then socks_authenticate u
      else if answer ! 1 = AUTH_REJECTED then
        fail (Other (lit ''the upstream proxy rejected every authentication method offered''))
      else fail (Other (lit ''the upstream proxy asked for authentication method '' @ show_nat (unat (answer ! 1)) @
        lit '', which aether cannot do'')))))"

definition read_reply :: "('x sock_scheme, socket_addr) io" where
  "read_reply =
     seq (read_exact 4) (\<lambda>head.
     if head ! 0 \<noteq> VER then
       fail (Other (lit ''the upstream proxy answered with something other than socks5''))
     else if head ! 1 \<noteq> REP_OK then
       fail (Other (lit ''the upstream proxy refused the request with code '' @ show_nat (unat (head ! 1))))
     else
     seq (if head ! 3 = ATYP_V4 then seq (read_exact 4) (\<lambda>octets. ret (V4 (v4_from octets)))
          else if head ! 3 = ATYP_V6 then seq (read_exact 16) (\<lambda>octets. ret (V6 (v6_from octets)))
          else if head ! 3 = ATYP_DOMAIN then
            seq (read_exact 1) (\<lambda>len.
            seq (read_exact (unat (len ! 0))) (\<lambda>name.
            ret (case parse_ip (utf8_lossy name) of Some ip \<Rightarrow> ip | None \<Rightarrow> V4 0)))
          else fail (Other (lit ''the upstream proxy sent address type '' @ show_nat (unat (head ! 3)) @
            lit '', which aether cannot read''))) (\<lambda>ip.
     seq (read_exact 2) (\<lambda>port.
     ret (socket_new ip (u16_be (port ! 0) (port ! 1))))))"

definition http_status :: "bytes \<Rightarrow> u16 option" where
  "http_status head = (case lines (utf8_lossy head) of
     [] \<Rightarrow> None
   | line # _ \<Rightarrow> (case split_whitespace line of
       version # code # _ \<Rightarrow> if starts_with version (lit ''HTTP/'') then parse_u16 code else None
     | _ \<Rightarrow> None))"

text \<open>The loop of \<^verbatim>\<open>http_connect\<close>: the answer is read byte by byte, so that nothing behind it is taken.\<close>

function answer_loop :: "bytes \<Rightarrow> arrival list \<Rightarrow> (aether_error, bytes) run \<times> arrival list" where
  "answer_loop head r =
     (if length head > 8192 then (Err (Other (lit ''the upstream proxy sent an oversized answer'')), r)
      else case read_segs 1 r of
        (Err e, q) \<Rightarrow> (Err (io_err e), q)
      | (Panic, q) \<Rightarrow> (Panic, q)
      | (Ok byte, q) \<Rightarrow>
        if byte = [] then (Err (Other (lit ''the upstream proxy closed before answering the connect'')), q)
        else if ends_with (head @ byte) [13, 10, 13, 10] then (Ok (head @ byte), q)
        else answer_loop (head @ byte) q)"
  by pat_completeness auto
termination
  by (relation "measure (\<lambda>(_, r). weight r)") (auto dest: read_segs_smaller [OF sym])

declare answer_loop.simps [simp del]

definition http_connect :: "(bytes \<Rightarrow> str) \<Rightarrow> upstream \<Rightarrow> str \<Rightarrow> ('x sock_scheme, unit) io" where
  "http_connect b64 u authority =
     seq (write_all (lit ''CONNECT '' @ authority @ lit '' HTTP/1.1'' @ [13, 10] @ lit ''Host: '' @ authority @ [13, 10] @
       lit ''Proxy-Connection: Keep-Alive'' @ [13, 10] @
       (case up_user u of
          Some user \<Rightarrow> lit ''Proxy-Authorization: Basic '' @
            b64 (user @ [58] @ (case up_password u of Some v \<Rightarrow> v | None \<Rightarrow> [])) @ [13, 10]
        | None \<Rightarrow> []) @ [13, 10])) (\<lambda>_.
     seq (\<lambda>s. let (r, q) = answer_loop [] (rx s) in (r, s\<lparr>rx := q\<rparr>)) (\<lambda>head.
     case http_status head of
       None \<Rightarrow> fail (Other (lit ''the upstream proxy answer was not http''))
     | Some status \<Rightarrow>
       if 200 \<le> status \<and> status < 300 then ret ()
       else fail (Other (lit ''the upstream proxy answered '' @ show_nat (unat status) @ lit '' to the connect''))))"

text \<open>\<open>dial\<close> is the outcome of connecting to the proxy, \<open>None\<close> when the time runs out first; \<open>late\<close>: it
  runs out during the handshake, of which nothing is recorded then, though some of it may have been written.\<close>

definition up_open ::
    "(bytes \<Rightarrow> str) \<Rightarrow> upstream \<Rightarrow> (io_error, socket_addr) run option \<Rightarrow> bool \<Rightarrow> bytes \<Rightarrow> str \<Rightarrow> ('x sock_scheme, unit) io" where
  "up_open b64 u dial late socks_request authority =
     (case (if late then None else dial) of
        None \<Rightarrow> fail (Other (lit ''the upstream proxy at '' @ endpoint u @ lit '' did not answer in time''))
      | Some r \<Rightarrow>
        seq (lift (map_err io_err r)) (\<lambda>_.
        case up_kind u of
          Socks5 \<Rightarrow>
            seq (socks_greet u) (\<lambda>_.
            seq (write_all socks_request) (\<lambda>_.
            seq read_reply (\<lambda>_. ret ())))
        | Http \<Rightarrow> http_connect b64 u authority))"

definition up_connect ::
    "(bytes \<Rightarrow> str) \<Rightarrow> upstream \<Rightarrow> (io_error, socket_addr) run option \<Rightarrow> bool \<Rightarrow> socket_addr \<Rightarrow> ('x sock_scheme, unit) io" where
  "up_connect b64 u dial late target =
     up_open b64 u dial late (encode_request CMD_CONNECT target) (show_socket target)"

definition connect_host ::
    "(bytes \<Rightarrow> str) \<Rightarrow> (str \<Rightarrow> str) \<Rightarrow> upstream \<Rightarrow> (io_error, socket_addr) run option \<Rightarrow> bool \<Rightarrow> str \<Rightarrow> u16 \<Rightarrow>
     ('x sock_scheme, unit) io" where
  "connect_host b64 dbg u dial late host port = (case parse_ip host of
     Some ip \<Rightarrow> up_connect b64 u dial late (socket_new ip port)
   | None \<Rightarrow>
     seq (lift (encode_name_request dbg CMD_CONNECT host port)) (\<lambda>request.
     up_open b64 u dial late request (host @ [58] @ show_nat (unat port))))"

section \<open>Lemmas: the setting\<close>

lemma hex_upper_digit:
  assumes "d < 16"
  shows "digit_val 16 (hex_upper d) = Some d" "hex_upper d \<noteq> 43" "hex_upper d < 128" "hex_upper d \<notin> {37, 58, 64}"
proof -
  have "d \<in> set [0, 1, 2, 3, 4, 5, 6, 7, 8, 9, 10, 11, 12, 13, 14, 15]" using assms by simp presburger
  moreover have "list_all (\<lambda>d. digit_val 16 (hex_upper d) = Some d \<and> hex_upper d \<noteq> 43 \<and> hex_upper d < 128 \<and>
      hex_upper d \<notin> {37, 58, 64}) [0, 1, 2, 3, 4, 5, 6, 7, 8, 9, 10, 11, 12, 13, 14, 15]"
    by (simp add: hex_upper_def digit_val_def is_digit_def)
  ultimately show "digit_val 16 (hex_upper d) = Some d" "hex_upper d \<noteq> 43" "hex_upper d < 128"
    "hex_upper d \<notin> {37, 58, 64}" by (auto simp: list_all_iff)
qed

lemma hex_halves: "unat (b :: u8) div 16 < 16" "unat b mod 16 < 16"
  using unat_u8_less [of b] less_mult_imp_div_less [of "unat b" 16 16] by simp_all

lemma hex_pair:
  "utf8_valid [hex_upper (unat (b :: u8) div 16), hex_upper (unat b mod 16)]"
  "parse_radix 16 8 [hex_upper (unat b div 16), hex_upper (unat b mod 16)] = Some (unat b)"
proof -
  note d = hex_halves [of b]
  show "utf8_valid [hex_upper (unat b div 16), hex_upper (unat b mod 16)]"
    using hex_upper_digit(3) [OF d(1)] hex_upper_digit(3) [OF d(2)] by (intro utf8_valid_ascii) (simp add: is_ascii_def)
  show "parse_radix 16 8 [hex_upper (unat b div 16), hex_upper (unat b mod 16)] = Some (unat b)"
    using hex_upper_digit(1,2) [OF d(1)] hex_upper_digit(1) [OF d(2)] unat_u8_less [of b]
    by (simp add: parse_radix_def)
qed

lemma percent_bytes_plain: "b \<noteq> 37 \<Longrightarrow> percent_bytes (b # s) = b # percent_bytes s"
  by (cases s; cases "tl s") auto

lemma unreserved_plain: "unreserved b \<Longrightarrow> b \<notin> {37, 58, 64}"
  by (auto simp: unreserved_def is_upper_def is_digit_def)

lemma percent_bytes_encode: "percent_bytes (percent_encode v) = v"
proof (induction v)
  case Nil
  then show ?case by (simp add: percent_encode_def)
next
  case (Cons b v)
  show ?case
  proof (cases "unreserved b")
    case True
    then show ?thesis using Cons unreserved_plain by (simp add: percent_encode_def percent_bytes_plain)
  next
    case False
    then show ?thesis using Cons by (simp add: percent_encode_def hex_pair)
  qed
qed

lemma percent_decode_encode: "utf8_valid v \<Longrightarrow> percent_decode (percent_encode v) = v"
  by (simp add: percent_decode_def percent_bytes_encode utf8_lossy_valid)

lemma percent_encode_bytes: "58 \<notin> set (percent_encode v)" "64 \<notin> set (percent_encode v)"
proof -
  show "58 \<notin> set (percent_encode v)" "64 \<notin> set (percent_encode v)"
    using unreserved_plain hex_upper_digit(4) [OF hex_halves(1)] hex_upper_digit(4) [OF hex_halves(2)]
    by (auto simp: percent_encode_def split: if_splits)
qed

lemma digits_plain: "b \<in> set (show_nat n) \<Longrightarrow> b \<notin> {47, 58, 64, 93}"
  using show_nat_digits [of n] by (auto simp: list_all_iff is_digit_def)

text \<open>A host as a URL can hold it: a name, or an IPv6 address.\<close>

definition url_host :: "str \<Rightarrow> bool" where
  "url_host h \<longleftrightarrow> h \<noteq> [] \<and> list_all (\<lambda>b. unreserved b \<or> b = 58) h"

lemma url_host_plain: "url_host h \<Longrightarrow> 64 \<notin> set h \<and> 93 \<notin> set h \<and> hd h \<noteq> 91"
  by (cases h) (auto simp: url_host_def list_all_iff unreserved_def is_upper_def is_digit_def)

lemma split_endpoint_bracketed:
  assumes "url_host h" "p \<noteq> 0"
  shows "split_endpoint (bracketed h @ [58] @ show_nat (unat p)) = Ok (h, p)"
proof (cases "58 \<in> set h")
  case True
  then have "strip_prefix (bracketed h @ [58] @ show_nat (unat p)) [91] = Some (h @ 93 # 58 # show_nat (unat p))"
    by (simp add: bracketed_def contains_single strip_prefix_def starts_with_def)
  then show ?thesis
    using assms url_host_plain [of h] split_once_at [of 93 h "58 # show_nat (unat p)"]
    by (simp add: split_endpoint_def strip_prefix_def starts_with_def url_host_def)
next
  case False
  then have "strip_prefix (bracketed h @ [58] @ show_nat (unat p)) [91] = None"
    using url_host_plain [OF assms(1)] assms(1)
    by (cases h) (simp_all add: bracketed_def contains_single strip_prefix_def starts_with_def url_host_def)
  moreover have "rsplit_once 58 (h @ 58 # show_nat (unat p)) = Some (h, show_nat (unat p))"
    by (rule rsplit_once_at) (use digits_plain [of 58] in blast)
  ultimately show ?thesis
    using assms False by (simp add: split_endpoint_def bracketed_def contains_single url_host_def)
qed

definition login :: "upstream \<Rightarrow> str option" where
  "login u = (case (up_user u, up_password u) of
     (Some user, Some password) \<Rightarrow> Some (percent_encode user @ [58] @ percent_encode password)
   | (Some user, None) \<Rightarrow> Some (percent_encode user)
   | _ \<Rightarrow> None)"

definition wellformed_upstream :: "upstream \<Rightarrow> bool" where
  "wellformed_upstream u \<longleftrightarrow> url_host (up_host u) \<and> up_port u \<noteq> 0 \<and>
     (\<forall>v. up_user u = Some v \<or> up_password u = Some v \<longrightarrow> utf8_valid v) \<and> (up_user u = None \<longrightarrow> up_password u = None)"

lemma login_back:
  assumes "wellformed_upstream u"
  shows "(case login u of
      Some pair \<Rightarrow> (case split_once 58 pair of
          Some (user, password) \<Rightarrow> (Some (percent_decode user), Some (percent_decode password))
        | None \<Rightarrow> (Some (percent_decode pair), None))
    | None \<Rightarrow> (None, None)) = (up_user u, up_password u)"
  using assms split_once_at [OF percent_encode_bytes(1)] split_once_absent [OF percent_encode_bytes(1)]
  by (auto simp: login_def wellformed_upstream_def percent_decode_encode split: option.splits)

lemma psiphon_url_shape:
  "psiphon_url u = kind_label (up_kind u) @ lit ''://'' @
     (case login u of Some c \<Rightarrow> c @ [64] | None \<Rightarrow> []) @ bracketed (up_host u) @ [58] @ show_nat (unat (up_port u))"
  by (auto simp: psiphon_url_def kind_label_def login_def split: option.splits upstream_kind.splits)

lemma trim_psiphon_url: "trim (psiphon_url u) = psiphon_url u"
proof (rule trim_visible)
  let ?n = "show_nat (unat (up_port u))"
  show "psiphon_url u \<noteq> []" by (simp add: psiphon_url_shape)
  show "visible (hd (psiphon_url u))"
    by (cases "up_kind u") (simp_all add: psiphon_url_shape kind_label_def lit_def visible_def ascii_ws_def)
  have "is_digit (last ?n)" using show_nat_digits [of "unat (up_port u)"] last_in_set [OF show_nat_nonempty]
    by (auto simp: list_all_iff)
  then have "visible (last ?n)" by (auto simp: visible_def is_digit_def ascii_ws_def word_le_nat_alt word_less_nat_alt)
  then show "visible (last (psiphon_url u))" by (simp add: psiphon_url_shape)
qed

lemma upstream_parse_url:
  assumes "wellformed_upstream u"
  shows "upstream_parse ul (psiphon_url u) = Ok u"
proof -
  let ?ep = "bracketed (up_host u) @ [58] @ show_nat (unat (up_port u))"
  let ?rest = "(case login u of Some c \<Rightarrow> c @ [64] | None \<Rightarrow> []) @ ?ep"
  have wf: "url_host (up_host u)" "up_port u \<noteq> 0" using assms by (simp_all add: wellformed_upstream_def)
  have scheme: "find_sub (lit ''://'') (kind_label (up_kind u) @ lit ''://'' @ ?rest) = Some (length (kind_label (up_kind u)))"
    by (rule find_sub_at) (cases "up_kind u"; simp add: kind_label_def lit_def)+
  have low: "to_lowercase ul (kind_label (up_kind u)) = kind_label (up_kind u)"
    by (cases "up_kind u") (simp_all add: kind_label_def to_lowercase_def lit_def is_ascii_def lower_def is_upper_def)
  have no64: "64 \<notin> set ?ep"
    using url_host_plain [OF wf(1)] digits_plain [of 64 "unat (up_port u)"] by (auto simp: bracketed_def)
  have at: "rsplit_once 64 ?rest = map_option (\<lambda>c. (c, ?ep)) (login u)"
  proof (cases "login u")
    case None
    then show ?thesis using rsplit_once_absent [OF no64] by simp
  next
    case (Some c)
    then show ?thesis using rsplit_once_at [OF no64, of c] by simp
  qed
  have "last ?ep \<noteq> 47"
    using digits_plain [of "last (show_nat (unat (up_port u)))" "unat (up_port u)"] last_in_set [OF show_nat_nonempty] by simp
  then have trim: "trim_end_matches 47 ?ep = ?ep" by (intro trim_end_matches_keep) simp_all
  have k: "(if kind_label (up_kind u) \<in> {lit ''socks5'', lit ''socks5h'', lit ''socks''} then Ok Socks5
      else if kind_label (up_kind u) \<in> {lit ''http'', lit ''https''} then Ok Http
      else Err (Other (kind_label (up_kind u) @ lit '' is not an upstream proxy kind aether understands''))) =
      Ok (up_kind u)" "kind_label (up_kind u) \<noteq> lit ''https''"
    by (cases "up_kind u"; simp add: kind_label_def lit_def)+
  have cut: "take (length (kind_label (up_kind u))) (kind_label (up_kind u) @ lit ''://'' @ ?rest) = kind_label (up_kind u)"
    "drop (length (kind_label (up_kind u)) + 3) (kind_label (up_kind u) @ lit ''://'' @ ?rest) = ?rest"
    by (simp_all add: lit_def)
  have split: "(case rsplit_once 64 ?rest of Some (c, e) \<Rightarrow> (Some c, e) | None \<Rightarrow> (None, ?rest)) =
      (login u, ?ep)"
    unfolding at by (cases "login u") simp_all
  show ?thesis
    unfolding upstream_parse_def trim_psiphon_url Let_def
    unfolding psiphon_url_shape scheme option.case prod.case cut low k(1) split trim
    using k(2) split_endpoint_bracketed [OF wf] login_back [OF assms] by simp
qed

section \<open>Lemmas: handshakes\<close>

lemma takes_lift: "takes (lift (Ok a)) [] [] a"
  by (auto simp: takes_def intro!: exI [of _ "rx s" for s])

definition login_bytes :: "upstream \<Rightarrow> bytes" where
  "login_bytes u =
     (let user = (case up_user u of Some v \<Rightarrow> v | None \<Rightarrow> []);
          password = (case up_password u of Some v \<Rightarrow> v | None \<Rightarrow> [])
      in [1, of_nat (length user)] @ user @ [of_nat (length password)] @ password)"

definition login_fits :: "upstream \<Rightarrow> bool" where
  "login_fits u \<longleftrightarrow> (\<forall>v. up_user u = Some v \<or> up_password u = Some v \<longrightarrow> length v < 256)"

lemma takes_authenticate:
  assumes "login_fits u"
  shows "takes (socks_authenticate u) [1, 0] (login_bytes u) ()"
proof -
  have "takes (seq (write_all (login_bytes u)) (\<lambda>_. seq (read_exact 2) (\<lambda>answer.
       if answer ! 0 \<noteq> 1 then
         fail (Other (lit ''the upstream proxy answered the password negotiation with the wrong version''))
       else if answer ! 1 \<noteq> 0 then
         fail (Other (lit ''the upstream proxy refused the credentials supplied''))
       else ret ()))) ([1, 0] @ []) (login_bytes u @ []) ()"
    by (intro takes_write_seq takes_exact_seq) (use takes_ret [of "()"] in simp_all)
  then show ?thesis
    using assms by (auto simp: socks_authenticate_def login_bytes_def login_fits_def Let_def split: option.splits)
qed

lemmas auth_defs = AUTH_NONE_def AUTH_USERPASS_def AUTH_REJECTED_def

text \<open>What the proxy answers to the greeting, and what the client then sends.\<close>

definition method_bytes :: "upstream \<Rightarrow> u8 \<Rightarrow> bytes" where
  "method_bytes u m = (if m = AUTH_USERPASS then [VER, AUTH_USERPASS, 1, 0] else [VER, AUTH_NONE])"

definition greet_bytes :: "upstream \<Rightarrow> u8 \<Rightarrow> bytes" where
  "greet_bytes u m = [VER, 1, if up_user u = None then AUTH_NONE else AUTH_USERPASS] @
     (if m = AUTH_USERPASS then login_bytes u else [])"

lemma takes_greet:
  assumes "login_fits u" "m = AUTH_USERPASS \<or> m = AUTH_NONE \<and> up_user u = None"
  shows "takes (socks_greet u) (method_bytes u m) (greet_bytes u m) ()"
proof -
  let ?g = "[VER, 1, if up_user u = None then AUTH_NONE else AUTH_USERPASS]"
  let ?f = "\<lambda>answer. if answer ! 0 \<noteq> VER then fail (Other (lit ''the upstream proxy did not speak socks5''))
      else if answer ! 1 = AUTH_NONE \<and> up_user u \<noteq> None then
        fail (Other (lit ''the upstream proxy skipped authentication even though credentials are configured''))
      else if answer ! 1 = AUTH_NONE then ret ()
      else if answer ! 1 = AUTH_USERPASS then socks_authenticate u
      else if answer ! 1 = AUTH_REJECTED then
        fail (Other (lit ''the upstream proxy rejected every authentication method offered''))
      else fail (Other (lit ''the upstream proxy asked for authentication method '' @ show_nat (unat (answer ! 1)) @
        lit '', which aether cannot do''))"
  have "takes (?f [VER, m]) (if m = AUTH_USERPASS then [1, 0] else []) (if m = AUTH_USERPASS then login_bytes u else []) ()"
    using assms takes_authenticate [OF assms(1)] takes_ret [of "()"] by (auto simp: auth_defs)
  then have "takes (seq (read_exact 2) ?f) ([VER, m] @ (if m = AUTH_USERPASS then [1, 0] else []))
      (if m = AUTH_USERPASS then login_bytes u else []) ()"
    by (intro takes_exact_seq) simp_all
  then have "takes (seq (write_all ?g) (\<lambda>_. seq (read_exact 2) ?f)) ([VER, m] @ (if m = AUTH_USERPASS then [1, 0] else []))
      (?g @ (if m = AUTH_USERPASS then login_bytes u else [])) ()"
    by (rule takes_write_seq)
  moreover have "[VER, m] @ (if m = AUTH_USERPASS then [1, 0] else []) = method_bytes u m"
    using assms(2) by (auto simp: method_bytes_def)
  moreover have "(if up_user u \<noteq> None then [VER, 1, AUTH_USERPASS] else [VER, 1, AUTH_NONE]) = ?g" by simp
  ultimately show ?thesis unfolding socks_greet_def greet_bytes_def Let_def by (simp only:)
qed

text \<open>The success reply of RFC 1928, with the address the proxy has bound.\<close>

definition success_bytes :: "u8 \<Rightarrow> ip_addr \<Rightarrow> u16 \<Rightarrow> bytes" where
  "success_bytes rsv ip port = [VER, REP_OK, rsv] @ target_bytes (TIp ip) @ be16 port"

lemma takes_read_reply: "takes read_reply (success_bytes rsv ip port) [] (socket_new ip port)"
proof -
  let ?p = "\<lambda>ip. seq (read_exact 2) (\<lambda>port. ret (socket_new ip (u16_be (port ! 0) (port ! 1))))"
  have p: "takes (?p x) (be16 port @ []) [] (socket_new x port)" for x
    by (rule takes_exact_seq) (use takes_ret [of "socket_new x port"] u16_be_be16 [of port] in simp_all)
  let ?a = "\<lambda>atyp. if atyp = ATYP_V4 then seq (read_exact 4) (\<lambda>octets. ret (V4 (v4_from octets)))
          else if atyp = ATYP_V6 then seq (read_exact 16) (\<lambda>octets. ret (V6 (v6_from octets)))
          else if atyp = ATYP_DOMAIN then
            seq (read_exact 1) (\<lambda>len.
            seq (read_exact (unat (len ! 0))) (\<lambda>name.
            ret (case parse_ip (utf8_lossy name) of Some ip \<Rightarrow> ip | None \<Rightarrow> V4 0)))
          else fail (Other (lit ''the upstream proxy sent address type '' @ show_nat (unat atyp) @
            lit '', which aether cannot read''))"
  have a: "takes (?a (target_type (TIp ip))) (target_body (TIp ip)) [] ip"
  proof (cases ip)
    case (V4 v)
    have "takes (seq (read_exact 4) (\<lambda>octets. ret (V4 (v4_from octets)))) (octets4 v @ []) [] (V4 v)"
      by (rule takes_exact_seq) (use takes_ret [of "V4 v"] in simp_all)
    then show ?thesis by (simp add: V4 target_type_def target_body_def)
  next
    case (V6 v)
    have "takes (seq (read_exact 16) (\<lambda>octets. ret (V6 (v6_from octets)))) (octets16 v @ []) [] (V6 v)"
      by (rule takes_exact_seq) (use takes_ret [of "V6 v"] in simp_all)
    then show ?thesis by (simp add: V6 target_type_def target_body_def atyp_defs)
  qed
  have all: "takes (seq (?a (target_type (TIp ip))) ?p) (target_body (TIp ip) @ be16 port) [] (socket_new ip port)"
    using takes_seq [OF a p] unfolding append_Nil2 .
  have e: "[VER, REP_OK, rsv, x] ! 0 = VER" "[VER, REP_OK, rsv, x] ! 1 = REP_OK" "[VER, REP_OK, rsv, x] ! 3 = x" for x
    by simp_all
  have "takes read_reply ([VER, REP_OK, rsv, target_type (TIp ip)] @ target_body (TIp ip) @ be16 port) [] (socket_new ip port)"
    unfolding read_reply_def
    by (intro takes_exact_seq) (simp, simp only: e not_True_eq_False simp_thms if_False all)
  then show ?thesis by (simp add: success_bytes_def target_split)
qed

lemma takes_up_open:
  assumes "up_kind u = Socks5" "login_fits u" "m = AUTH_USERPASS \<or> m = AUTH_NONE \<and> up_user u = None"
  shows "takes (up_open b64 u (Some (Ok a)) False request authority)
    (method_bytes u m @ success_bytes rsv ip port) (greet_bytes u m @ request) ()"
proof -
  have "takes (seq read_reply (\<lambda>_. ret ())) (success_bytes rsv ip port @ []) ([] @ []) ()"
    by (rule takes_seq [OF takes_read_reply takes_ret])
  then have "takes (seq (write_all request) (\<lambda>_. seq read_reply (\<lambda>_. ret ()))) (success_bytes rsv ip port) (request @ []) ()"
    by (intro takes_write_seq) simp
  from takes_seq [OF takes_greet [OF assms(2,3)], of "\<lambda>_. seq (write_all request) (\<lambda>_. seq read_reply (\<lambda>_. ret ()))", OF this]
  have "takes (seq (socks_greet u) (\<lambda>_. seq (write_all request) (\<lambda>_. seq read_reply (\<lambda>_. ret ()))))
      (method_bytes u m @ success_bytes rsv ip port) (greet_bytes u m @ request) ()" by simp
  from takes_seq [OF takes_lift, of "\<lambda>_. seq (socks_greet u) (\<lambda>_. seq (write_all request) (\<lambda>_. seq read_reply (\<lambda>_. ret ())))", OF this]
  show ?thesis by (simp add: up_open_def assms(1))
qed

lemma ends_with_take:
  "j \<le> length s \<Longrightarrow> length p \<le> j \<Longrightarrow> ends_with (take j s) p \<longleftrightarrow> starts_with (drop (j - length p) s) p"
  by (simp add: ends_with_def starts_with_def drop_take)

lemma answer_loop_found:
  assumes "clean r" "find_head_end (head @ sent r) = Some n" "length head < n" "n \<le> 8193"
  shows "\<exists>q. answer_loop head r = (Ok (take n (head @ sent r)), q) \<and> sent q = drop (n - length head) (sent r) \<and> clean q"
  using assms
proof (induction head r rule: answer_loop.induct)
  case (1 head r)
  let ?p = "[13, 10, 13, 10] :: bytes" and ?s = "head @ sent r"
  obtain k where k: "find_sub ?p ?s = Some k" "n = k + 4" using "1.prems"(2) by (auto simp: find_head_end_def)
  then have at: "starts_with (drop k ?s) ?p" "\<And>m. m < k \<Longrightarrow> \<not> starts_with (drop m ?s) ?p"
    using find_sub_Some [of ?p ?s k] by auto
  have n: "n \<le> length ?s" using starts_with_length [OF at(1)] k(2) by (cases "k \<le> length ?s") auto
  obtain b q where b: "read_segs 1 r = (Ok b, q)" "sent r = b @ sent q" "clean q" "length b \<le> 1" "b = [] \<longrightarrow> sent r = []"
    using read_segs_sent [OF "1.prems"(1), of 1] by auto
  have "b \<noteq> []" using b(5) n "1.prems"(3) by auto
  then obtain c where c: "b = [c]" using b(4) by (cases b) auto
  have len: "\<not> length head > 8192" using "1.prems"(3,4) by simp
  have tk: "head @ b = take (Suc (length head)) ?s" using b(2) c by simp
  have l: "Suc (length head) \<le> n" using "1.prems"(3) by simp
  show ?case
  proof (cases "Suc (length head) = n")
    case True
    have "ends_with (head @ b) ?p"
      unfolding tk using True at(1) k(2) n by (subst ends_with_take) auto
    then have "answer_loop head r = (Ok (head @ b), q)" using b(1) c len by (simp add: answer_loop.simps [of head r])
    then show ?thesis using b(2,3) c True by (auto simp: True [symmetric])
  next
    case False
    have no: "\<not> ends_with (head @ b) ?p"
    proof
      assume e: "ends_with (head @ b) ?p"
      then have "4 \<le> Suc (length head)" using c by (simp add: ends_with_def)
      then have "starts_with (drop (Suc (length head) - length ?p) ?s) ?p"
        using e l n unfolding tk by (subst (asm) ends_with_take) auto
      moreover have "Suc (length head) - length ?p < k" using \<open>4 \<le> Suc (length head)\<close> l k(2) False by simp
      ultimately show False using at(2) by blast
    qed
    have step: "answer_loop head r = answer_loop (head @ b) q"
      using b(1) c len no by (simp add: answer_loop.simps [of head r])
    have "find_head_end ((head @ b) @ sent q) = Some n" "length (head @ b) < n"
      using "1.prems"(2) b(2) c False l by simp_all
    then obtain q' where "answer_loop (head @ b) q = (Ok (take n ((head @ b) @ sent q)), q')"
        "sent q' = drop (n - length (head @ b)) (sent q)" "clean q'"
      using "1.IH" [OF len b(1) [symmetric] refl _ no b(3)] c "1.prems"(4) by auto
    then show ?thesis using step b(2) c False l
      by (intro exI [of _ q']) (simp add: Suc_diff_Suc drop_Cons')
  qed
qed

lemma remembered_coherent:
  assumes "\<forall>l v. seen = Some (l, v) \<longrightarrow> v = from_value ul l"
  shows "fst (remembered ul seen raw) = from_value ul raw \<and>
    (\<forall>l v. snd (remembered ul seen raw) = Some (l, v) \<longrightarrow> v = from_value ul l)"
  using assms by (auto simp: remembered_def Let_def split: option.splits)

lemma remembered_history:
  "\<forall>l v. foldl (\<lambda>seen raw. snd (remembered ul seen raw)) None history = Some (l, v) \<longrightarrow> v = from_value ul l"
proof (induction history rule: rev_induct)
  case (snoc raw history)
  then show ?case using remembered_coherent [OF snoc, of raw] by simp
qed simp

lemma bnd_unit_Ok: "bnd m (\<lambda>_. Ok ()) = Ok () \<longleftrightarrow> (\<exists>a. m = Ok a)"
  by (cases m) simp_all

lemma usable_from_value:
  assumes "usable ul raw = Ok ()"
  shows "from_value ul raw = None \<longleftrightarrow> trim raw = []"
proof (cases "trim raw = []")
  case False
  have "\<exists>u. upstream_parse ul raw = Ok u"
    using assms False by (auto simp: usable_def map_err_iff bnd_unit_Ok)
  moreover have "upstream_parse ul (trim raw) = upstream_parse ul raw"
    by (simp add: upstream_parse_def trim_idem)
  ultimately show ?thesis using False by (auto simp: from_value_def Let_def)
qed (simp add: from_value_def)

lemma reply_bound_success: "reply_bound bound = write_all (success_bytes 0 (sock_ip bound) (sock_port bound))"
  by (cases "sock_ip bound") (simp_all add: reply_bound_def success_bytes_def)

lemma connect_host_request:
  assumes "host \<noteq> []" "length host < 256" "utf8_valid host"
  shows "\<exists>authority. connect_host b64 dbg u dial late host port =
    up_open b64 u dial late (request_bytes CMD_CONNECT 0 (case parse_ip host of Some ip \<Rightarrow> TIp ip | None \<Rightarrow> TDomain host) port) authority"
proof (cases "parse_ip host")
  case None
  have "connect_host b64 dbg u dial late host port = up_open b64 u dial late
      (request_bytes CMD_CONNECT 0 (TDomain host) port) (host @ [58] @ show_nat (unat port))"
    using None assms by (intro ext) (simp add: connect_host_def encode_name_request_def request_bytes_def seq_def)
  then show ?thesis using None by auto
next
  case (Some ip)
  then show ?thesis
    by (cases ip) (auto simp: connect_host_def up_connect_def encode_request_def encode_address_def request_bytes_def
        socket_new_def sock_ip_def sock_port_def)
qed

lemma read_exact_frame: "read_exact n s = (r, s') \<Longrightarrow> tx s' = tx s \<and> writes s' = writes s"
  by (auto simp: read_exact_def split: prod.splits)

lemma read_reply_frame: "read_reply s = (Ok a, s') \<Longrightarrow> tx s' = tx s"
  unfolding read_reply_def by (auto elim!: seq_OkE split: if_splits dest!: read_exact_frame)

lemma read_reply_OkD:
  assumes "read_reply s = (Ok a, s')"
  shows "\<exists>reply. sent (rx s) = [VER, REP_OK] @ reply @ sent (rx s')"
proof -
  have "\<exists>head reply. sent (rx s) = head @ reply @ sent (rx s') \<and> length head = 4 \<and> head ! 0 = VER \<and> head ! 1 = REP_OK"
    using assms unfolding read_reply_def
    by (auto elim!: seq_OkE split: if_splits dest!: read_exact_OkD) (metis append.assoc)+
  then obtain head reply where h: "sent (rx s) = head @ reply @ sent (rx s')" "length head = 4" "head ! 0 = VER" "head ! 1 = REP_OK"
    by blast
  have "head = [VER, REP_OK] @ drop 2 head"
    using h(2-4) by (cases head; cases "tl head") auto
  then show ?thesis using h(1) by (metis append.assoc)
qed

lemma socks_authenticate_OkD:
  assumes "socks_authenticate u s = (Ok (), s')" "writes s = []"
  shows "sent (rx s) = [1, 0] @ sent (rx s')" "tx s' = tx s @ login_bytes u" "writes s' = []"
    "\<And>user. up_user u = Some user \<Longrightarrow> length user < 256"
proof -
  let ?w = "s\<lparr>tx := tx s @ login_bytes u\<rparr>"
  have fits: "\<not> (255 < length (case up_user u of Some v \<Rightarrow> v | None \<Rightarrow> []) \<or> 255 < length (case up_password u of Some v \<Rightarrow> v | None \<Rightarrow> []))"
    using assms(1) by (auto simp: socks_authenticate_def Let_def split: if_splits)
  then have "seq (write_all (login_bytes u)) (\<lambda>_. seq (read_exact 2) (\<lambda>answer.
         if answer ! 0 \<noteq> 1 then
           fail (Other (lit ''the upstream proxy answered the password negotiation with the wrong version''))
         else if answer ! 1 \<noteq> 0 then
           fail (Other (lit ''the upstream proxy refused the credentials supplied''))
         else ret ())) s = (Ok (), s')"
    using assms(1) by (simp add: socks_authenticate_def login_bytes_def Let_def)
  then obtain answer where a: "read_exact 2 ?w = (Ok answer, s')" "answer ! 0 = 1" "answer ! 1 = 0"
    using assms(2) by (auto elim!: seq_OkE split: if_splits)
  have "answer = [1, 0]" using read_exact_OkD [OF a(1)] a(2,3) two_bytes [of answer] by simp
  then show "sent (rx s) = [1, 0] @ sent (rx s')" using read_exact_OkD [OF a(1)] by simp
  show "tx s' = tx s @ login_bytes u" "writes s' = []" using read_exact_frame [OF a(1)] assms(2) by simp_all
  show "length user < 256" if "up_user u = Some user" for user using fits that by auto
qed

section \<open>Properties\<close>

text \<open>C20. The address of a proxy survives being written down: what \<^verbatim>\<open>psiphon_url\<close> writes, credentials with
  any characters included, is a usable setting and names the same proxy again.\<close>

theorem upstream_url_round_trip:
  assumes "wellformed_upstream u"
  shows "upstream_parse ul (psiphon_url u) = Ok u \<and> usable ul (psiphon_url u) = Ok () \<and>
    from_value ul (psiphon_url u) = Some u"
proof -
  have "trim (psiphon_url u) \<noteq> []" unfolding trim_psiphon_url by (simp add: psiphon_url_shape)
  then show ?thesis
    using upstream_parse_url [OF assms, of ul] by (simp add: usable_def from_value_def Let_def trim_psiphon_url)
qed

definition demo_upstream :: upstream where
  "demo_upstream = \<lparr>up_kind = Http, up_host = lit ''::1'', up_port = 8080, up_user = Some (lit ''a@b''), up_password = Some (lit '':%'')\<rparr>"

theorem upstream_url_round_trip_witness:
  "psiphon_url demo_upstream = lit ''http://a%40b:%3A%25@[::1]:8080'' \<and>
   upstream_parse id (psiphon_url demo_upstream) = Ok demo_upstream"
proof -
  have "utf8_valid (lit ''a@b'')" "utf8_valid (lit '':%'')"
    by (auto intro!: utf8_valid_ascii simp: is_ascii_def lit_def)
  then have "wellformed_upstream demo_upstream"
    by (auto simp: wellformed_upstream_def demo_upstream_def url_host_def lit_def unreserved_def is_upper_def is_digit_def)
  moreover have "psiphon_url demo_upstream = lit ''http://a%40b:%3A%25@[::1]:8080''"
    by (simp add: psiphon_url_def demo_upstream_def lit_def percent_encode_def unreserved_def is_upper_def is_digit_def
        hex_upper_def bracketed_def contains_single show_nat.simps)
  ultimately show ?thesis using upstream_url_round_trip by blast
qed

text \<open>C16. A proxy that is set is never gone around. Once the setting has passed the check at the start, every
  later look-up, whatever settings were looked up before it, names a proxy, unless the setting is
  blank; and it is the one the setting names now.\<close>

theorem upstream_never_bypassed:
  assumes "check_setting ul env = Ok ()"
  shows "let setting = (case env ''AETHER_UPSTREAM'' of Some v \<Rightarrow> v | None \<Rightarrow> []);
             found = fst (configured ul None env (foldl (\<lambda>seen raw. snd (remembered ul seen raw)) None history))
    in (found = None \<longleftrightarrow> trim setting = []) \<and> (\<forall>u. found = Some u \<longrightarrow> upstream_parse ul setting = Ok u)"
proof -
  let ?v = "case env ''AETHER_UPSTREAM'' of Some v \<Rightarrow> v | None \<Rightarrow> []"
  have f: "fst (configured ul None env (foldl (\<lambda>seen raw. snd (remembered ul seen raw)) None history)) = from_value ul ?v"
    using remembered_coherent [OF remembered_history] by (simp add: configured_def)
  have "upstream_parse ul ?v = Ok u" if "from_value ul ?v = Some u" for u
    using that by (auto simp: from_value_def Let_def upstream_parse_def trim_idem split: if_splits run.splits)
  then show ?thesis using f usable_from_value [of ul ?v] assms by (simp add: check_setting_def Let_def)
qed

theorem upstream_never_bypassed_witness:
  "check_setting id (\<lambda>_. Some (psiphon_url demo_upstream)) = Ok () \<and>
   fst (configured id None (\<lambda>_. Some (psiphon_url demo_upstream))
     (foldl (\<lambda>seen raw. snd (remembered id seen raw)) None [[], lit ''junk''])) \<noteq> None"
proof -
  have v: "utf8_valid (lit ''a@b'')" "utf8_valid (lit '':%'')"
    by (auto intro!: utf8_valid_ascii simp: is_ascii_def lit_def)
  have "wellformed_upstream demo_upstream"
    using v by (auto simp: wellformed_upstream_def demo_upstream_def url_host_def lit_def unreserved_def is_upper_def is_digit_def)
  then have c: "check_setting id (\<lambda>_. Some (psiphon_url demo_upstream)) = Ok ()"
    using upstream_parse_url [of demo_upstream id] by (simp add: check_setting_def usable_def)
  moreover have "trim (psiphon_url demo_upstream) \<noteq> []" unfolding trim_psiphon_url by (simp add: psiphon_url_shape)
  ultimately show ?thesis using upstream_never_bypassed [OF c, of "[[], lit ''junk'']"] by (simp add: Let_def)
qed

text \<open>C18. The proxy client and the proxy server of this program understand each other. When the client
  dials a host through a SOCKS5 proxy and that proxy answers as this server does, in whatever
  pieces, the connection is open with everything behind the answers left to be read; and a server
  that receives what the client wrote reads a CONNECT to that host, the name unresolved or the
  address as it is, and answers the greeting as the client expects.\<close>

theorem upstream_meets_server:
  fixes c :: "'c sock_scheme" and srv :: "'s sock_scheme"
  assumes "up_kind u = Socks5" "up_user u = None" "up_password u = None"
    "host \<noteq> []" "length host < 256" "utf8_valid host"
    "clean (rx c)" "writes c = []" "writes srv = []"
    "sent (rx c) = [VER, 0] @ drop (length (tx srv)) (tx (snd (reply_bound bound srv))) @ data"
  shows "\<exists>c' wire. connect_host b64 dbg u (Some (Ok a)) False host port c = (Ok (), c') \<and>
    sent (rx c') = data \<and> tx c' = tx c @ wire \<and>
    (\<forall>(s :: 's sock_scheme) more. clean (rx s) \<longrightarrow> writes s = [] \<longrightarrow> sent (rx s) = wire @ more \<longrightarrow>
      (\<exists>s'. read_request s = (Ok (CMD_CONNECT, (case parse_ip host of Some ip \<Rightarrow> TIp ip | None \<Rightarrow> TDomain host), port), s') \<and>
         sent (rx s') = more \<and> tx s' = tx s @ [VER, 0]))"
proof -
  define t where "t = (case parse_ip host of Some ip \<Rightarrow> TIp ip | None \<Rightarrow> TDomain host)"
  define wire where "wire = greeting_bytes [0] @ request_bytes CMD_CONNECT 0 t port"
  define answer where "answer = [VER, 0] @ success_bytes 0 (sock_ip bound) (sock_port bound)"
  obtain authority where o: "connect_host b64 dbg u (Some (Ok a)) False host port =
      (up_open b64 u (Some (Ok a)) False (request_bytes CMD_CONNECT 0 t port) authority :: ('c sock_scheme, unit) io)"
    using connect_host_request [OF assms(4-6)] unfolding t_def by blast
  have m: "method_bytes u AUTH_NONE = [VER, 0]" "greet_bytes u AUTH_NONE = greeting_bytes [0]"
    using assms(2) by (simp_all add: method_bytes_def greet_bytes_def greeting_bytes_def auth_defs)
  have r: "sent (rx c) = answer @ data"
    using assms(9,10) by (simp add: reply_bound_success answer_def)
  have "takes (connect_host b64 dbg u (Some (Ok a)) False host port :: ('c sock_scheme, unit) io) answer wire ()"
    using takes_up_open [of u AUTH_NONE] assms(1-3) unfolding o wire_def answer_def m [symmetric] by (simp add: login_fits_def)
  from takesD [OF this r assms(7,8)]
  obtain q where q: "connect_host b64 dbg u (Some (Ok a)) False host port c = (Ok (), c\<lparr>rx := q, tx := tx c @ wire\<rparr>)"
      "sent q = data" "clean q" by blast
  have fits: "target_fits t" "as_read t = t"
    using assms(5,6) by (auto simp: t_def utf8_lossy_valid split: option.splits)
  have rq: "takes read_request wire [VER, 0] (CMD_CONNECT, t, port)"
    using takes_read_request [of "[0]" t CMD_CONNECT 0 port] fits by (simp add: wire_def)
  have "\<exists>s'. read_request s = (Ok (CMD_CONNECT, t, port), s') \<and> sent (rx s') = more \<and> tx s' = tx s @ [VER, 0]"
    if "clean (rx s)" "writes s = []" "sent (rx s) = wire @ more" for s :: "'s sock_scheme" and more
    using takesD [OF rq that(3,1,2)] by auto
  then show ?thesis unfolding t_def [symmetric] using q
    by (intro exI [of _ "c\<lparr>rx := q, tx := tx c @ wire\<rparr>"] exI [of _ wire] conjI allI impI) simp_all
qed

definition demo_pieces :: conn where
  "demo_pieces = demo_conn\<lparr>rx := [Chunk [5], Chunk [0, 5, 0, 0, 1, 0, 0], Chunk [0, 0, 0, 0, 7]]\<rparr>"

definition demo_socks :: upstream where
  "demo_socks = \<lparr>up_kind = Socks5, up_host = lit ''::1'', up_port = 1080, up_user = None, up_password = None\<rparr>"

theorem upstream_meets_server_witness:
  "\<exists>c' wire. connect_host id id demo_socks (Some (Ok any_bound)) False (lit ''a.b'') 443 demo_pieces = (Ok (), c') \<and>
    sent (rx c') = [7] \<and> tx c' = tx demo_pieces @ wire"
proof -
  have e: "(4 :: nat) = Suc (Suc (Suc (Suc 0)))" "(2 :: nat) = Suc (Suc 0)" by simp_all
  have o: "octets4 0 = [0, 0, 0, 0]" "be16 0 = [0, 0]"
    unfolding octets4_def be32_def be16_def e by simp_all
  have v: "utf8_valid (lit ''a.b'')" by (intro utf8_valid_ascii) (simp add: is_ascii_def lit_def)
  have r: "sent (rx demo_pieces) = [VER, 0] @ drop (length (tx demo_conn)) (tx (snd (reply_bound any_bound demo_conn))) @ [7]"
    by (simp add: demo_pieces_def demo_conn_def reply_bound_success success_bytes_def any_bound_def sock_ip_def sock_port_def
        VER_def REP_OK_def ATYP_V4_def o)
  have p: "clean (rx demo_pieces)" "writes demo_pieces = []" "writes demo_conn = []"
    by (simp_all add: demo_pieces_def demo_conn_def)
  have u: "up_kind demo_socks = Socks5" "up_user demo_socks = None" "up_password demo_socks = None"
    "lit ''a.b'' \<noteq> []" "length (lit ''a.b'') < 256"
    by (simp_all add: demo_socks_def lit_def)
  show ?thesis using upstream_meets_server [OF u v p r, of id id any_bound 443] by blast
qed

text \<open>C19. The HTTP handshake with a proxy takes exactly the answer. Whatever pieces it comes in, of a stream
  with an HTTP answer of at most 8193 bytes the answer alone is consumed, and everything behind it,
  which belongs to the tunnelled connection, is left to be read; the connection is open exactly
  when the status lies between 200 and 299.\<close>

theorem upstream_http_exact:
  assumes "up_kind u = Http" "clean (rx s)" "writes s = []" "find_head_end (sent (rx s)) = Some n" "n \<le> 8193"
    "http_status (take n (sent (rx s))) = Some status"
  shows "\<exists>q request. up_open b64 u (Some (Ok a)) False socks_request authority s =
      (if 200 \<le> status \<and> status < 300 then Ok ()
       else Err (Other (lit ''the upstream proxy answered '' @ show_nat (unat status) @ lit '' to the connect'')),
       s\<lparr>rx := q, tx := tx s @ lit ''CONNECT '' @ authority @ lit '' HTTP/1.1'' @ [13, 10] @ request\<rparr>) \<and>
    sent q = drop n (sent (rx s)) \<and> clean q"
proof -
  have "0 < n" using assms(4) by (auto simp: find_head_end_def)
  then obtain q where "answer_loop [] (rx s) = (Ok (take n (sent (rx s))), q)" "sent q = drop n (sent (rx s))" "clean q"
    using answer_loop_found [OF assms(2), of "[]" n] assms(4,5) by auto
  then show ?thesis
    using assms(1,3,6)
    by (intro exI [of _ q] exI [of _ "lit ''Host: '' @ authority @ [13, 10] @ lit ''Proxy-Connection: Keep-Alive'' @ [13, 10] @
        (case up_user u of
          Some user \<Rightarrow> lit ''Proxy-Authorization: Basic '' @
            b64 (user @ [58] @ (case up_password u of Some v \<Rightarrow> v | None \<Rightarrow> [])) @ [13, 10]
        | None \<Rightarrow> []) @ [13, 10]"]) (simp add: up_open_def http_connect_def Let_def)
qed

definition demo_answer :: conn where
  "demo_answer = demo_conn\<lparr>rx := [Chunk (lit ''HTTP/1.1 200 OK'' @ [13, 10, 13]), Chunk [10, 22, 3]]\<rparr>"

theorem upstream_http_exact_witness:
  "find_head_end (sent (rx demo_answer)) = Some 19 \<and>
   (\<exists>q request. up_open id demo_upstream (Some (Ok any_bound)) False [] (lit ''a.b:443'') demo_answer =
      (Ok (), demo_answer\<lparr>rx := q, tx := tx demo_answer @ lit ''CONNECT '' @ lit ''a.b:443'' @ lit '' HTTP/1.1'' @ [13, 10] @ request\<rparr>) \<and>
    sent q = [22, 3] \<and> clean q)"
proof -
  have n: "find_head_end (sent (rx demo_answer)) = Some 19"
    by (simp add: demo_answer_def lit_def find_head_end_def starts_with_def)
  have t: "take 19 (sent (rx demo_answer)) = lit ''HTTP/1.1 200 OK'' @ [13, 10] @ [13, 10]"
    "drop 19 (sent (rx demo_answer)) = [22, 3]"
    by (simp_all add: demo_answer_def lit_def)
  obtain ls where l: "lines (lit ''HTTP/1.1 200 OK'' @ [13, 10] @ [13, 10]) = lit ''HTTP/1.1 200 OK'' # ls"
    using lines_first [of "lit ''HTTP/1.1 200 OK''" "[13, 10]"] by (auto simp: lit_def)
  have w: "split_whitespace (lit ''HTTP/1.1 200 OK'') = [lit ''HTTP/1.1'', lit ''200'', lit ''OK'']"
    using split_ws_words [of "lit ''HTTP/1.1''" "lit ''200''" "lit ''OK''"]
    by (simp add: lit_def visible_def ascii_ws_def)
  have u: "utf8_lossy (lit ''HTTP/1.1 200 OK'' @ [13, 10] @ [13, 10]) = lit ''HTTP/1.1 200 OK'' @ [13, 10] @ [13, 10]"
    by (intro utf8_lossy_ascii) (simp add: is_ascii_def lit_def)
  have "parse_u16 (lit ''200'') = Some 200"
    by (simp add: parse_u16_def parse_radix_def lit_def digit_val_def is_digit_def)
  then have st: "http_status (take 19 (sent (rx demo_answer))) = Some 200"
    unfolding t(1) http_status_def u l list.case w by (simp add: starts_with_def lit_def)
  have "up_kind demo_upstream = Http" "clean (rx demo_answer)" "writes demo_answer = []" "(19 :: nat) \<le> 8193"
    by (simp_all add: demo_upstream_def demo_answer_def demo_conn_def)
  from upstream_http_exact [OF this(1-3) n this(4) st, of id any_bound "[]" "lit ''a.b:443''"]
  show ?thesis using n t(2) by simp
qed


text \<open>C17. Credentials that are configured are always asked for. A connection through a SOCKS5 proxy with a
  user is open only when the proxy chose the password method, accepted the password, and granted
  the request; what the client wrote begins with the offer of that method alone.\<close>

theorem upstream_login_enforced:
  assumes "up_kind u = Socks5" "up_user u = Some user"
    "up_open b64 u dial late request authority s = (Ok (), s')" "writes s = []"
  shows "(\<exists>reply. sent (rx s) = [VER, AUTH_USERPASS, 1, 0, VER, REP_OK] @ reply @ sent (rx s')) \<and>
    length user < 256 \<and> tx s' = tx s @ [VER, 1, AUTH_USERPASS] @ login_bytes u @ request"
proof -
  obtain s1 s2 a where g: "socks_greet u s = (Ok (), s1)" and w: "write_all request s1 = (Ok (), s2)"
      and r: "read_reply s2 = (Ok a, s')"
    using assms(1,3) unfolding up_open_def
    by (auto elim!: seq_OkE split: option.splits if_splits run.splits)
  obtain answer sa where n: "read_exact 2 (s\<lparr>tx := tx s @ [VER, 1, AUTH_USERPASS]\<rparr>) = (Ok answer, sa)"
      "answer ! 0 = VER" "answer ! 1 = AUTH_USERPASS" and l: "socks_authenticate u sa = (Ok (), s1)"
    using g assms(2,4) unfolding socks_greet_def Let_def by (auto elim!: seq_OkE split: if_splits)
  have "answer = [VER, AUTH_USERPASS]" using read_exact_OkD [OF n(1)] n(2,3) two_bytes [of answer] by simp
  then have sa: "sent (rx s) = [VER, AUTH_USERPASS] @ sent (rx sa)" "tx sa = tx s @ [VER, 1, AUTH_USERPASS]" "writes sa = []"
    using read_exact_OkD [OF n(1)] read_exact_frame [OF n(1)] assms(4) by simp_all
  note au = socks_authenticate_OkD [OF l sa(3)]
  have s2: "s2 = s1\<lparr>tx := tx s1 @ request\<rparr>" using w au(3) by simp
  obtain reply where "sent (rx s2) = [VER, REP_OK] @ reply @ sent (rx s')" using read_reply_OkD [OF r] by blast
  then show ?thesis
    using sa(1,2) au(1,2) au(4) [OF assms(2)] read_reply_frame [OF r] unfolding s2 by auto
qed

definition demo_login :: conn where
  "demo_login = demo_conn\<lparr>rx := [Chunk [5, 2, 1], Chunk [0, 5, 0, 0, 1, 0, 0, 0, 0], Chunk [0, 0, 7]]\<rparr>"

theorem upstream_login_enforced_witness:
  "\<exists>s'. up_open id (demo_upstream\<lparr>up_kind := Socks5\<rparr>) (Some (Ok any_bound)) False [9] [] demo_login = (Ok (), s') \<and>
    tx s' = tx demo_login @ [VER, 1, AUTH_USERPASS] @ login_bytes (demo_upstream\<lparr>up_kind := Socks5\<rparr>) @ [9]"
proof -
  let ?u = "demo_upstream\<lparr>up_kind := Socks5\<rparr>"
  have e: "(4 :: nat) = Suc (Suc (Suc (Suc 0)))" "(2 :: nat) = Suc (Suc 0)" by simp_all
  have o: "octets4 0 = [0, 0, 0, 0]" "be16 0 = [0, 0]"
    unfolding octets4_def be32_def be16_def e by simp_all
  have r: "sent (rx demo_login) = (method_bytes ?u AUTH_USERPASS @ success_bytes 0 (V4 0) 0) @ [7]"
    by (simp add: demo_login_def method_bytes_def success_bytes_def VER_def REP_OK_def ATYP_V4_def auth_defs o)
  have u: "up_kind ?u = Socks5" "login_fits ?u" by (auto simp: demo_upstream_def login_fits_def lit_def)
  have c: "clean (rx demo_login)" "writes demo_login = []" by (simp_all add: demo_login_def demo_conn_def)
  obtain s' where s': "up_open id ?u (Some (Ok any_bound)) False [9] [] demo_login = (Ok (), s')"
    using takesD [OF takes_up_open [OF u disjI1 [OF refl]] r c] by blast
  have "up_user ?u = Some (lit ''a@b'')" by (simp add: demo_upstream_def)
  from upstream_login_enforced [OF u(1) this s' c(2)] show ?thesis using s' by blast
qed

end
