(* ===== verification/Detour.thy ===== *)
theory Detour
  imports Upstream
begin

text \<open>
  Datagrams through the proxy (\<^verbatim>\<open>aether/src/upstream.rs\<close>): the association with a SOCKS5 proxy, the
  registry of detours that lets an ordinary socket reach its peer through it, and the pump between
  them.
\<close>

section \<open>The association\<close>

definition relay_address ::
    "(str \<Rightarrow> u16 \<Rightarrow> (io_error, socket_addr list) run) \<Rightarrow> socket_addr \<Rightarrow> str \<Rightarrow> u16 \<Rightarrow> (aether_error, socket_addr) run" where
  "relay_address lookup_host bound host port =
     (if \<not> ip_is_unspecified (sock_ip bound) \<and> sock_port bound \<noteq> 0 then Ok bound
      else
        let relay_port = (if sock_port bound = 0 then port else sock_port bound) in
        case parse_ip host of
          Some ip \<Rightarrow> Ok (socket_new ip relay_port)
        | None \<Rightarrow>
          bnd (map_err io_err (lookup_host host relay_port)) (\<lambda>found.
          case found of
            a # _ \<Rightarrow> Ok a
          | [] \<Rightarrow> Err (Other (host @ lit '' does not resolve to a usable relay address''))))"

text \<open>\<open>udp_bind\<close> and \<open>udp_connect\<close>: whether the system binds a wildcard socket of a family, and connects it.\<close>

definition associate ::
    "(str \<Rightarrow> u16 \<Rightarrow> (io_error, socket_addr list) run) \<Rightarrow> (bool \<Rightarrow> io_error option) \<Rightarrow> (socket_addr \<Rightarrow> io_error option) \<Rightarrow>
     upstream \<Rightarrow> (io_error, socket_addr) run option \<Rightarrow> bool \<Rightarrow> ('x sock_scheme, socket_addr) io" where
  "associate lookup_host udp_bind udp_connect u dial late =
     (if up_kind u \<noteq> Socks5 then
        fail (Other (lit ''only a socks5 proxy can carry udp, an http proxy cannot''))
      else case (if late then None else dial) of
        None \<Rightarrow> fail (Other (lit ''the upstream proxy at '' @ endpoint u @ lit '' never opened a udp relay''))
      | Some r \<Rightarrow>
        seq (lift (map_err io_err r)) (\<lambda>_.
        seq (socks_greet u) (\<lambda>_.
        seq (write_all (encode_request CMD_UDP_ASSOCIATE (socket_new (V4 0) 0))) (\<lambda>_.
        seq read_reply (\<lambda>bound.
        seq (lift (relay_address lookup_host bound (up_host u) (up_port u))) (\<lambda>relay.
        case udp_bind (is_ipv4 (sock_ip relay)) of
          Some e \<Rightarrow> fail (io_err e)
        | None \<Rightarrow> (case udp_connect relay of Some e \<Rightarrow> fail (io_err e) | None \<Rightarrow> ret relay)))))))"

definition relay_send :: "bytes \<Rightarrow> socket_addr \<Rightarrow> bytes" where
  "relay_send payload target = encode_udp_header target @ payload"

text \<open>One datagram from the relay into a buffer of \<open>out_len\<close> bytes.\<close>

definition relay_recv :: "nat \<Rightarrow> bytes \<Rightarrow> (io_error, bytes \<times> socket_addr) run" where
  "relay_recv out_len datagram =
     (let framed = take (max out_len 2048 + 512) datagram in
      bnd (map_err (\<lambda>_. io_new InvalidData (lit ''the udp relay sent a malformed header'')) (decode_udp_header framed))
        (\<lambda>(origin, offset).
      bnd (sl framed offset (length framed)) (\<lambda>payload.
      Ok (take out_len payload, origin))))"

section \<open>The pump\<close>

definition from_detoured_socket :: "socket_addr \<Rightarrow> socket_addr \<Rightarrow> bool" where
  "from_detoured_socket client origin \<longleftrightarrow>
     sock_port origin = sock_port client \<and>
     (sock_ip origin = sock_ip client \<or> ip_is_unspecified (sock_ip client) \<and> ip_is_loopback (sock_ip origin))"

record pump =
  reply_to :: "socket_addr option"
  pump_over :: "(io_error, unit) run option"

text \<open>A failure, or a datagram, from the shim or from the relay, with the outcome of the send that may
  follow it.\<close>

datatype pump_event =
    FromShim "io_error + bytes \<times> socket_addr" "io_error option"
  | FromRelay "io_error + bytes" "io_error option"

datatype pump_out = ToRelay bytes | ToShim socket_addr bytes

definition pump_step :: "socket_addr \<Rightarrow> socket_addr \<Rightarrow> pump \<Rightarrow> pump_event \<Rightarrow> pump \<times> pump_out list" where
  "pump_step client peer st ev =
     (if pump_over st \<noteq> None then (st, [])
      else case ev of
        FromShim (Inl e) _ \<Rightarrow> (st\<lparr>pump_over := Some (Err e)\<rparr>, [])
      | FromShim (Inr (data, origin)) fault \<Rightarrow>
          if \<not> from_detoured_socket client origin then (st, [])
          else (case fault of
            None \<Rightarrow> (st\<lparr>reply_to := Some origin\<rparr>, [ToRelay (relay_send (take 65535 data) peer)])
          | Some e \<Rightarrow> (st\<lparr>reply_to := Some origin, pump_over := Some (Err e)\<rparr>, []))
      | FromRelay received fault \<Rightarrow>
          (case (case received of Inl e \<Rightarrow> Err e | Inr datagram \<Rightarrow> relay_recv 65535 datagram) of
             Ok (data, _) \<Rightarrow>
               (case reply_to st of
                  None \<Rightarrow> (st, [])
                | Some to \<Rightarrow>
                  (case fault of
                     None \<Rightarrow> (st, [ToShim to data])
                   | Some e \<Rightarrow> (st\<lparr>pump_over := Some (Err e)\<rparr>, [])))
           | Err error \<Rightarrow>
               if kind error = InvalidData then (st, []) else (st\<lparr>pump_over := Some (Err error)\<rparr>, [])
           | Panic \<Rightarrow> (st\<lparr>pump_over := Some Panic\<rparr>, [])))"

definition pump_new :: pump where
  "pump_new = \<lparr>reply_to = None, pump_over = None\<rparr>"

section \<open>The registry\<close>

record detour =
  dt_id :: u64
  dt_shim :: socket_addr
  dt_peer :: socket_addr

text \<open>The task that \<^verbatim>\<open>attach_detour_via\<close> spawns: the pump, with what it has captured.\<close>

record detour_task =
  tk_client :: socket_addr
  tk_id :: u64
  tk_peer :: socket_addr
  tk_pump :: pump
  tk_aborted :: bool

text \<open>The map, the counter, and the tasks in the order of their spawning.\<close>

record registry =
  detours :: "socket_addr \<Rightarrow> detour option"
  next_id :: u64
  tasks :: "detour_task list"

definition registry_new :: registry where
  "registry_new = \<lparr>detours = (\<lambda>_. None), next_id = 1, tasks = []\<rparr>"

definition next_detour_id :: "registry \<Rightarrow> u64 \<times> registry" where
  "next_detour_id r = (next_id r, r\<lparr>next_id := next_id r + 1\<rparr>)"

definition forget_detour :: "socket_addr \<Rightarrow> u64 \<Rightarrow> registry \<Rightarrow> registry" where
  "forget_detour client did r =
     (case detours r client of
        Some d \<Rightarrow> if dt_id d = did then r\<lparr>detours := (detours r)(client := None)\<rparr> else r
      | None \<Rightarrow> r)"

definition relay_target :: "registry \<Rightarrow> socket_addr \<Rightarrow> socket_addr \<Rightarrow> socket_addr" where
  "relay_target r local intended = (case detours r local of Some d \<Rightarrow> dt_shim d | None \<Rightarrow> intended)"

definition real_source :: "registry \<Rightarrow> socket_addr \<Rightarrow> socket_addr \<Rightarrow> socket_addr" where
  "real_source r local observed =
     (case detours r local of
        Some d \<Rightarrow> if dt_shim d = observed then dt_peer d else observed
      | None \<Rightarrow> observed)"

text \<open>A guard holds the socket and the number of its detour and the task of its pump, or nothing when the peer is
  reached without a detour; dropping it stops the task and forgets the detour.\<close>

type_synonym guard = "(socket_addr \<times> u64 \<times> nat) option"

definition abort_task :: "nat \<Rightarrow> registry \<Rightarrow> registry" where
  "abort_task t r = r\<lparr>tasks := (tasks r)[t := (tasks r ! t)\<lparr>tk_aborted := True\<rparr>]\<rparr>"

definition drop_guard :: "guard \<Rightarrow> registry \<Rightarrow> registry" where
  "drop_guard g r = (case g of Some (client, did, task) \<Rightarrow> forget_detour client did (abort_task task r) | None \<Rightarrow> r)"

text \<open>\<open>relay\<close>: the outcome of the association; \<open>client\<close>: the socket's own address; \<open>shim\<close>: the
  address of the loopback socket bound for the family of the client.\<close>

definition attach_detour_via ::
    "(aether_error, socket_addr) run \<Rightarrow> (io_error, socket_addr) run \<Rightarrow> (ip_addr \<Rightarrow> (io_error, socket_addr) run) \<Rightarrow>
     socket_addr \<Rightarrow> registry \<Rightarrow> (aether_error, guard) run \<times> registry" where
  "attach_detour_via relay local_addr bind_shim peer r =
     (if is_private (sock_ip peer) then (Ok None, r)
      else case bnd relay (\<lambda>_. bnd (map_err io_err local_addr) (\<lambda>client.
             bnd (map_err io_err (bind_shim (if is_ipv4 (sock_ip client) then V4 0x7f000001 else V6 1))) (\<lambda>shim.
             Ok (client, shim)))) of
        Err e \<Rightarrow> (Err e, r)
      | Panic \<Rightarrow> (Panic, r)
      | Ok (client, shim) \<Rightarrow>
        (let (did, r) = next_detour_id r;
             task = \<lparr>tk_client = client, tk_id = did, tk_peer = peer, tk_pump = pump_new, tk_aborted = False\<rparr>
         in (Ok (Some (client, did, length (tasks r))),
             r\<lparr>detours := (detours r)(client := Some \<lparr>dt_id = did, dt_shim = shim, dt_peer = peer\<rparr>),
               tasks := tasks r @ [task]\<rparr>)))"

text \<open>What the spawned task does with the next event of its pump: when the pump has returned, the
  task forgets the detour and ends. A panic would end it without that.\<close>

definition task_step :: "nat \<Rightarrow> pump_event \<Rightarrow> registry \<Rightarrow> registry \<times> pump_out list" where
  "task_step t ev r =
     (if t < length (tasks r) \<and> \<not> tk_aborted (tasks r ! t) \<and> pump_over (tk_pump (tasks r ! t)) = None then
        (let task = tasks r ! t;
             (p, outs) = pump_step (tk_client task) (tk_peer task) (tk_pump task) ev;
             r = r\<lparr>tasks := (tasks r)[t := task\<lparr>tk_pump := p\<rparr>]\<rparr>
         in (if pump_over p = None \<or> pump_over p = Some Panic then r
             else forget_detour (tk_client task) (tk_id task) r, outs))
      else (r, []))"

definition attach_detour ::
    "upstream option \<Rightarrow> (upstream \<Rightarrow> (aether_error, socket_addr) run) \<Rightarrow> (io_error, socket_addr) run \<Rightarrow>
     (ip_addr \<Rightarrow> (io_error, socket_addr) run) \<Rightarrow> socket_addr \<Rightarrow> registry \<Rightarrow> (aether_error, guard) run \<times> registry" where
  "attach_detour proxy assoc local_addr bind_shim peer r = (case proxy of
     Some p \<Rightarrow> attach_detour_via (assoc p) local_addr bind_shim peer r
   | None \<Rightarrow> (Ok None, r))"

section \<open>Lemmas: headers\<close>

lemma encode_address_target: "encode_address a = target_bytes (TIp (sock_ip a)) @ be16 (sock_port a)"
  by (cases "sock_ip a") (simp_all add: encode_address_def)

lemma nth_octets4: "octets4 v = [octets4 v ! 0, octets4 v ! 1, octets4 v ! 2, octets4 v ! 3]"
proof -
  have "length (octets4 v) = 4" by simp
  then show ?thesis by (cases "octets4 v"; cases "tl (octets4 v)"; cases "tl (tl (octets4 v))"; cases "tl (tl (tl (octets4 v)))") auto
qed

lemma ipv4_octets: "ipv4 (octets4 v ! 0) (octets4 v ! 1) (octets4 v ! 2) (octets4 v ! 3) = v"
  using nth_octets4 [of v] v4_from_octets [of v] by (simp add: ipv4_def v4_from_def)

lemma be16_two: "be16 p = [be16 p ! 0, be16 p ! 1]"
  by (rule two_bytes) simp

lemma decode_udp_header_encode:
  "decode_udp_header ([a, b, 0] @ encode_address src @ data) =
     Ok (socket_new (sock_ip src) (sock_port src), 3 + length (encode_address src))"
proof (cases "sock_ip src")
  case (V4 v)
  let ?o = "octets4 v" and ?p = "be16 (sock_port src)"
  have "decode_udp_header ([a, b, 0, ATYP_V4, ?o ! 0, ?o ! 1, ?o ! 2, ?o ! 3, ?p ! 0, ?p ! 1] @ data) =
      Ok (socket_new (V4 (ipv4 (?o ! 0) (?o ! 1) (?o ! 2) (?o ! 3))) (u16_be (?p ! 0) (?p ! 1)), 10)"
    by (simp add: decode_udp_header_def ix_def)
  note d = this
  have eq: "[a, b, 0] @ encode_address src @ data =
      [a, b, 0, ATYP_V4, ?o ! 0, ?o ! 1, ?o ! 2, ?o ! 3, ?p ! 0, ?p ! 1] @ data"
    using V4 nth_octets4 [of v] be16_two [of "sock_port src"] by (simp add: encode_address_def)
  show ?thesis
    unfolding eq d using V4 ipv4_octets [of v] u16_be_be16 [of "sock_port src"] by (simp add: encode_address_def)
next
  case (V6 v)
  let ?o = "octets16 v" and ?p = "be16 (sock_port src)"
  have n: "([a, b, 0, ATYP_V6] @ ?o @ [?p ! 0, ?p ! 1] @ data) ! 20 = ?p ! 0"
    "([a, b, 0, ATYP_V6] @ ?o @ [?p ! 0, ?p ! 1] @ data) ! 21 = ?p ! 1"
    "take 16 (drop 4 ([a, b, 0, ATYP_V6] @ ?o @ [?p ! 0, ?p ! 1] @ data)) = ?o"
    by (simp_all add: nth_append)
  have "decode_udp_header ([a, b, 0, ATYP_V6] @ ?o @ [?p ! 0, ?p ! 1] @ data) =
      Ok (socket_new (V6 (v6_from ?o)) (u16_be (?p ! 0) (?p ! 1)), 22)"
    using n by (simp add: decode_udp_header_def ix_def sl_def atyp_defs)
  note d = this
  have eq: "[a, b, 0] @ encode_address src @ data = [a, b, 0, ATYP_V6] @ ?o @ [?p ! 0, ?p ! 1] @ data"
    using V6 be16_two [of "sock_port src"] by (simp add: encode_address_def)
  show ?thesis
    unfolding eq d using V6 u16_be_be16 [of "sock_port src"] by (simp add: encode_address_def)
qed

lemma decode_udp_safe: "safe (decode_udp_header buf)"
  by (auto simp: decode_udp_header_def Let_def run_simps intro!: safe_bnd split: if_splits)

section \<open>The pump as seen from outside\<close>

text \<open>Where the answers go after the events \<open>evs\<close>: where the socket's last datagram came from.\<close>

definition origins :: "socket_addr \<Rightarrow> pump_event list \<Rightarrow> socket_addr list" where
  "origins client evs = [origin. FromShim (Inr (_, origin)) _ \<leftarrow> evs, from_detoured_socket client origin]"

definition last_origin :: "socket_addr \<Rightarrow> pump_event list \<Rightarrow> socket_addr option" where
  "last_origin client evs = (if origins client evs = [] then None else Some (last (origins client evs)))"

text \<open>What is sent on for an event that follows the events \<open>before\<close>, and whether it ends the pump: a socket that
  fails does, and a send that fails; a datagram of a stranger or without a proper header does not.\<close>

definition passed :: "socket_addr \<Rightarrow> socket_addr \<Rightarrow> pump_event list \<Rightarrow> pump_event \<Rightarrow> pump_out list" where
  "passed client peer before ev = (case ev of
     FromShim (Inr (data, origin)) None \<Rightarrow>
       if from_detoured_socket client origin then [ToRelay (relay_send (take 65535 data) peer)] else []
   | FromRelay (Inr raw) None \<Rightarrow>
       (case (relay_recv 65535 raw, last_origin client before) of (Ok (data, _), Some to) \<Rightarrow> [ToShim to data] | _ \<Rightarrow> [])
   | _ \<Rightarrow> [])"

definition stops :: "socket_addr \<Rightarrow> pump_event list \<Rightarrow> pump_event \<Rightarrow> bool" where
  "stops client before ev = (case ev of
     FromShim (Inl _) _ \<Rightarrow> True
   | FromShim (Inr (_, origin)) fault \<Rightarrow> from_detoured_socket client origin \<and> fault \<noteq> None
   | FromRelay (Inl e) _ \<Rightarrow> kind e \<noteq> InvalidData
   | FromRelay (Inr raw) fault \<Rightarrow> fault \<noteq> None \<and> last_origin client before \<noteq> None \<and> (\<exists>r. relay_recv 65535 raw = Ok r))"

definition working :: "socket_addr \<Rightarrow> pump_event list \<Rightarrow> bool" where
  "working client evs \<longleftrightarrow> (\<forall>i < length evs. \<not> stops client (take i evs) (evs ! i))"

section \<open>Lemmas: the pump\<close>

definition pump_inv :: "socket_addr \<Rightarrow> pump \<Rightarrow> bool" where
  "pump_inv client st \<longleftrightarrow> (\<forall>a. reply_to st = Some a \<longrightarrow> from_detoured_socket client a)"

fun pump_good :: "socket_addr \<Rightarrow> pump_out \<Rightarrow> bool" where
  "pump_good client (ToRelay f) = True"
| "pump_good client (ToShim a d) = from_detoured_socket client a"

interpretation pp: machine "pump_step client peer" "pump_inv client" "pump_good client" for client peer
proof
  show "pump_inv client (fst (pump_step client peer st ev))" if "pump_inv client st" for st ev
    using that by (auto simp: pump_step_def pump_inv_def split: pump_event.splits sum.splits run.splits option.splits)
  show "pump_good client out" if "pump_inv client st" "out \<in> set (snd (pump_step client peer st ev))" for st ev out
    using that
    by (auto simp: pump_step_def pump_inv_def split: pump_event.splits sum.splits run.splits option.splits if_splits)
qed

lemma relay_send_read: "parse_udp_request (relay_send d peer) = Ok (TIp (sock_ip peer), sock_port peer, d)"
  using parse_udp_datagram [of "TIp (sock_ip peer)" 0 0 "sock_port peer" d]
  by (simp add: relay_send_def encode_udp_header_def encode_address_target datagram_bytes_def)

lemma relay_recv_reply:
  assumes "length (build_udp_reply sender payload) \<le> 65535"
  shows "relay_recv 65535 (build_udp_reply sender payload) = Ok (payload, socket_new (sock_ip sender) (sock_port sender))"
proof -
  have "build_udp_reply sender payload = [0, 0, 0] @ encode_address sender @ payload"
    by (simp add: build_udp_reply_def encode_address_def)
  then show ?thesis
    using assms decode_udp_header_encode [of 0 0 sender payload]
    by (auto simp: relay_recv_def Let_def sl_def numeral_3_eq_3)
qed

lemma origins_append: "origins client (evs @ evs') = origins client evs @ origins client evs'"
  by (simp add: origins_def)

lemma last_origin_snoc:
  "last_origin client (evs @ [FromShim (Inr (data, origin)) fault]) =
     (if from_detoured_socket client origin then Some origin else last_origin client evs)"
  "last_origin client (evs @ [FromShim (Inl e) fault]) = last_origin client evs"
  "last_origin client (evs @ [FromRelay received fault]) = last_origin client evs"
  by (simp_all add: last_origin_def origins_append) (simp_all add: origins_def)

lemma working_snoc: "working client (evs @ [ev]) \<longleftrightarrow> working client evs \<and> \<not> stops client evs ev"
  by (auto simp: working_def nth_append less_Suc_eq)

lemma decode_udp_offset: "decode_udp_header buf = Ok (origin, offset) \<Longrightarrow> offset \<le> length buf"
  by (auto simp: decode_udp_header_def Let_def bnd_Ok_iff split: if_splits)

lemma relay_recv_cases: "(\<exists>data src. relay_recv n raw = Ok (data, src)) \<or> (\<exists>e. relay_recv n raw = Err e \<and> kind e = InvalidData)"
proof (cases "decode_udp_header (take (max n 2048 + 512) raw)")
  case (Ok d)
  obtain origin offset where d: "d = (origin, offset)" by (cases d)
  then have "offset \<le> length (take (max n 2048 + 512) raw)" using decode_udp_offset Ok by blast
  then show ?thesis using Ok d by (simp add: relay_recv_def sl_def)
next
  case (Err e)
  then show ?thesis by (simp add: relay_recv_def io_new_def)
next
  case Panic
  then show ?thesis using decode_udp_safe [of "take (max n 2048 + 512) raw"] by (simp add: safe_def)
qed

text \<open>The state of the pump after any events, and what it does with the next.\<close>

lemma pump_step_exact:
  assumes "pump_over st = None" "reply_to st = last_origin client evs"
  shows "snd (pump_step client peer st ev) = (if stops client evs ev then [] else passed client peer evs ev) \<and>
    (pump_over (fst (pump_step client peer st ev)) = None \<longleftrightarrow> \<not> stops client evs ev) \<and>
    pump_over (fst (pump_step client peer st ev)) \<noteq> Some Panic \<and>
    reply_to (fst (pump_step client peer st ev)) = last_origin client (evs @ [ev])"
proof (cases ev)
  case (FromShim received fault)
  then show ?thesis using assms
    by (cases received; cases fault) (auto simp: pump_step_def stops_def passed_def last_origin_snoc split: if_splits)
next
  case (FromRelay received fault)
  show ?thesis
  proof (cases received)
    case (Inl e)
    then show ?thesis using assms FromRelay by (auto simp: pump_step_def stops_def passed_def last_origin_snoc)
  next
    case (Inr raw)
    from relay_recv_cases [of 65535 raw] show ?thesis using assms FromRelay Inr
      by (cases "last_origin client evs"; cases fault) (auto simp: pump_step_def stops_def passed_def last_origin_snoc)
  qed
qed

lemma pump_done: "pump_over st \<noteq> None \<Longrightarrow> pump_step client peer st ev = (st, [])"
  by (simp add: pump_step_def)

lemma run_snoc:
  "fst (run_all step s (evs @ [ev])) = fst (step (fst (run_all step s evs)) ev)"
  "snd (run_all step s (evs @ [ev])) = snd (run_all step s evs) @ snd (step (fst (run_all step s evs)) ev)"
  by (simp_all add: run_all_append split_beta)

lemma pump_run_state:
  "let st = fst (run_all (pump_step client peer) pump_new evs) in
     (pump_over st = None \<longleftrightarrow> working client evs) \<and> pump_over st \<noteq> Some Panic \<and>
     (working client evs \<longrightarrow> reply_to st = last_origin client evs)"
proof (induction evs rule: rev_induct)
  case Nil
  then show ?case by (simp add: pump_new_def working_def last_origin_def origins_def)
next
  case (snoc ev evs)
  let ?st = "fst (run_all (pump_step client peer) pump_new evs)"
  show ?case
  proof (cases "working client evs")
    case True
    then show ?thesis using snoc pump_step_exact [of ?st client evs peer ev] by (auto simp: run_snoc working_snoc Let_def)
  next
    case False
    then have "pump_over ?st \<noteq> None" using snoc by (simp add: Let_def)
    then show ?thesis using snoc False by (simp add: run_snoc working_snoc pump_done Let_def)
  qed
qed

lemma pump_run_outs:
  "snd (run_all (pump_step client peer) pump_new evs) =
     concat (map (\<lambda>i. if working client (take (Suc i) evs) then passed client peer (take i evs) (evs ! i) else [])
       [0..<length evs])"
proof (induction evs rule: rev_induct)
  case (snoc ev evs)
  let ?st = "fst (run_all (pump_step client peer) pump_new evs)"
  let ?f = "\<lambda>evs i. if working client (take (Suc i) evs) then passed client peer (take i evs) (evs ! i) else []"
  have before: "map (?f (evs @ [ev])) [0..<length evs] = map (?f evs) [0..<length evs]"
    by (rule map_cong) (simp_all add: nth_append)
  have up: "[0..<length (evs @ [ev])] = [0..<length evs] @ [length evs]" by simp
  have "snd (pump_step client peer ?st ev) = (if working client (evs @ [ev]) then passed client peer evs ev else [])"
  proof (cases "working client evs")
    case True
    then show ?thesis using pump_run_state [of client peer evs] pump_step_exact [of ?st client evs peer ev]
      by (auto simp: working_snoc Let_def)
  next
    case False
    then have "pump_over ?st \<noteq> None" using pump_run_state [of client peer evs] by (simp add: Let_def)
    then show ?thesis using False by (simp add: working_snoc pump_done)
  qed
  then show ?case unfolding run_snoc snoc up map_append before concat_append by simp
qed simp

section \<open>Lemmas: the registry\<close>

text \<open>Detours being attached, their guards kept in the order of the attaching, guards being dropped, and
  the task of a detour getting an event of its pump.\<close>

datatype detour_op = Attach socket_addr socket_addr socket_addr | DropNth nat | Pump nat pump_event

fun apply_op :: "registry \<times> guard list \<Rightarrow> detour_op \<Rightarrow> registry \<times> guard list" where
  "apply_op (r, gs) (Attach client shim peer) =
     (case attach_detour_via (Ok peer) (Ok client) (\<lambda>_. Ok shim) peer r of
        (Ok g, r') \<Rightarrow> (r', gs @ [g]) | (_, r') \<Rightarrow> (r', gs))"
| "apply_op (r, gs) (DropNth k) = (if k < length gs then (drop_guard (gs ! k) r, gs) else (r, gs))"
| "apply_op (r, gs) (Pump k ev) =
     (if k < length gs then (case gs ! k of Some (_, _, t) \<Rightarrow> (fst (task_step t ev r), gs) | None \<Rightarrow> (r, gs)) else (r, gs))"

text \<open>The specification: for each socket the number, the shim and the peer of the detour it has now, and what its pump
  has met with. Dropping the guard takes it away, and so does an event after which the pump has stopped.\<close>

type_synonym detour_map = "socket_addr \<Rightarrow> (nat \<times> socket_addr \<times> socket_addr \<times> pump_event list) option"

definition without :: "nat \<Rightarrow> detour_map \<Rightarrow> detour_map" where
  "without k m = (\<lambda>c. case m c of Some (j, d) \<Rightarrow> if j = k then None else Some (j, d) | None \<Rightarrow> None)"

definition meets :: "nat \<Rightarrow> pump_event \<Rightarrow> detour_map \<Rightarrow> detour_map" where
  "meets k ev m = (\<lambda>c. case m c of
     Some (j, shim, peer, evs) \<Rightarrow>
       if j \<noteq> k then Some (j, shim, peer, evs)
       else if stops c evs ev then None else Some (j, shim, peer, evs @ [ev])
   | None \<Rightarrow> None)"

fun spec_op :: "detour_map \<times> nat \<Rightarrow> detour_op \<Rightarrow> detour_map \<times> nat" where
  "spec_op (m, n) (Attach client shim peer) =
     (if is_private (sock_ip peer) then (m, n + 1) else (m(client := Some (n, shim, peer, [])), n + 1))"
| "spec_op (m, n) (DropNth k) = (without k m, n)"
| "spec_op (m, n) (Pump k ev) = (meets k ev m, n)"

text \<open>The guards that are not empty have numbers of their own, and each the task with its number.\<close>

definition ids_below :: "u64 \<Rightarrow> guard list \<Rightarrow> bool" where
  "ids_below bound gs \<longleftrightarrow>
     (\<forall>k < length gs. \<forall>c i t. gs ! k = Some (c, i, t) \<longrightarrow> i < bound \<and>
        (\<forall>j < length gs. \<forall>c' i' t'. gs ! j = Some (c', i', t') \<longrightarrow> i = i' \<longrightarrow> j = k))"

definition tasks_ok :: "detour_task list \<Rightarrow> guard list \<Rightarrow> bool" where
  "tasks_ok ts gs \<longleftrightarrow>
     (\<forall>k < length gs. \<forall>c i t. gs ! k = Some (c, i, t) \<longrightarrow> t < length ts \<and> tk_client (ts ! t) = c \<and> tk_id (ts ! t) = i)"

definition slot :: "detour option \<Rightarrow> detour_task list \<Rightarrow> guard list \<Rightarrow> socket_addr \<Rightarrow>
    (nat \<times> socket_addr \<times> socket_addr \<times> pump_event list) option \<Rightarrow> bool" where
  "slot d ts gs c e = (case e of
     None \<Rightarrow> d = None
   | Some (k, shim, peer, evs) \<Rightarrow> k < length gs \<and> working c evs \<and>
       (\<exists>i t. gs ! k = Some (c, i, t) \<and> d = Some \<lparr>dt_id = i, dt_shim = shim, dt_peer = peer\<rparr> \<and>
          ts ! t = \<lparr>tk_client = c, tk_id = i, tk_peer = peer,
            tk_pump = fst (run_all (pump_step c peer) pump_new evs), tk_aborted = False\<rparr>))"

definition refines :: "registry \<times> guard list \<Rightarrow> detour_map \<times> nat \<Rightarrow> bool" where
  "refines = (\<lambda>(r, gs) (m, n). n = length gs \<and> ids_below (next_id r) gs \<and> tasks_ok (tasks r) gs \<and>
     (\<forall>c. slot (detours r c) (tasks r) gs c (m c)))"

lemma refines_parts:
  assumes "refines (r, gs) (m, n)"
  shows "n = length gs" "ids_below (next_id r) gs" "tasks_ok (tasks r) gs" "slot (detours r c) (tasks r) gs c (m c)"
  using assms by (auto simp: refines_def)

lemma slotD:
  assumes "refines (r, gs) (m, n)" "m c = Some (k, shim, peer, evs)"
  obtains i t where "k < length gs" "gs ! k = Some (c, i, t)" "working c evs"
    "detours r c = Some \<lparr>dt_id = i, dt_shim = shim, dt_peer = peer\<rparr>"
    "tasks r ! t = \<lparr>tk_client = c, tk_id = i, tk_peer = peer,
       tk_pump = fst (run_all (pump_step c peer) pump_new evs), tk_aborted = False\<rparr>"
  using refines_parts(4) [OF assms(1), of c] assms(2) by (auto simp: slot_def)

lemma ids_unique:
  "ids_below b gs \<Longrightarrow> j < length gs \<Longrightarrow> k < length gs \<Longrightarrow> gs ! j = Some (c, i, t) \<Longrightarrow> gs ! k = Some (c', i, t') \<Longrightarrow> j = k"
  unfolding ids_below_def by blast

lemma ids_bound: "ids_below b gs \<Longrightarrow> k < length gs \<Longrightarrow> gs ! k = Some (c, i, t) \<Longrightarrow> i < b"
  unfolding ids_below_def by blast

lemma tasks_okD:
  "tasks_ok ts gs \<Longrightarrow> k < length gs \<Longrightarrow> gs ! k = Some (c, i, t) \<Longrightarrow> t < length ts \<and> tk_client (ts ! t) = c \<and> tk_id (ts ! t) = i"
  unfolding tasks_ok_def by blast

lemma tasks_unique:
  assumes "refines (r, gs) (m, n)" "j < length gs" "k < length gs" "gs ! j = Some (c, i, t)" "gs ! k = Some (c', i', t)"
  shows "j = k"
  using ids_unique [OF refines_parts(2) [OF assms(1)] assms(2,3,4)] tasks_okD [OF refines_parts(3) [OF assms(1)]] assms(2-5)
  by metis

lemma less_next: "(b :: u64) + 1 \<noteq> 0 \<Longrightarrow> b < b + 1"
  using unatSuc [of b] by (simp add: word_less_nat_alt add.commute)

text \<open>The three things that happen to a detour: it is forgotten, its task changes without it, and its pump
  goes on.\<close>

lemma number_known:
  assumes "refines (r, gs) (m, n)" "m c = Some (k, d)"
  shows "\<exists>i t. k < length gs \<and> gs ! k = Some (c, i, t)"
proof -
  obtain s p evs where "d = (s, p, evs)" by (cases d)
  then show ?thesis using slotD [OF assms(1), of c] assms(2) by metis
qed

lemma number_of:
  assumes "refines (r, gs) (m, n)" "k < length gs" "gs ! k = Some (c, i, t)" "m c' = Some (k, d)"
  shows "c' = c"
  using number_known [OF assms(1,4)] assms(3) by auto

lemma refines_forget:
  assumes ref: "refines (r, gs) (m, n)" and k: "k < length gs" "gs ! k = Some (c, i, t)"
  shows "refines (forget_detour c i r, gs) (without k m, n)"
proof (cases "\<exists>d. m c = Some (k, d)")
  case True
  then obtain s p evs where m: "m c = Some (k, s, p, evs)" by (metis prod_cases3)
  obtain i' t' where "gs ! k = Some (c, i', t')" "detours r c = Some \<lparr>dt_id = i', dt_shim = s, dt_peer = p\<rparr>"
    using slotD [OF ref m] by metis
  then have forget: "forget_detour c i r = r\<lparr>detours := (detours r)(c := None)\<rparr>" using k by (simp add: forget_detour_def)
  have "without k m = m(c := None)"
  proof
    show "without k m x = (m(c := None)) x" for x
      using m number_of [OF ref k, of x] by (cases "m x") (auto simp: without_def)
  qed
  then show ?thesis using ref unfolding forget by (auto simp: refines_def slot_def [of None _ _ _ None])
next
  case False
  have "without k m = m"
  proof
    show "without k m x = m x" for x
      using False number_of [OF ref k, of x] by (cases "m x") (auto simp: without_def)
  qed
  moreover have "forget_detour c i r = r"
  proof (cases "m c")
    case None
    then have "detours r c = None" using refines_parts(4) [OF ref, of c] by (simp add: slot_def)
    then show ?thesis by (simp add: forget_detour_def)
  next
    case (Some e)
    obtain j s p evs where e: "e = (j, s, p, evs)" by (cases e)
    obtain i' t' where j: "j < length gs" "gs ! j = Some (c, i', t')" "detours r c = Some \<lparr>dt_id = i', dt_shim = s, dt_peer = p\<rparr>"
      using slotD [OF ref] Some e by metis
    have "j \<noteq> k" using False Some e by auto
    then have "i' \<noteq> i" using ids_unique [OF refines_parts(2) [OF ref] j(1) k(1) j(2)] k(2) by auto
    then show ?thesis using j by (simp add: forget_detour_def)
  qed
  ultimately show ?thesis using ref by simp
qed

lemma forget_tasks: "forget_detour c i (r\<lparr>tasks := ts\<rparr>) = (forget_detour c i r)\<lparr>tasks := ts\<rparr>" "tasks (forget_detour c i r) = tasks r"
  "next_id (forget_detour c i r) = next_id r"
  by (simp_all add: forget_detour_def split: option.split)

lemma tasks_ok_update:
  "tasks_ok ts gs \<Longrightarrow> tk_client T = tk_client (ts ! t) \<Longrightarrow> tk_id T = tk_id (ts ! t) \<Longrightarrow> tasks_ok (ts[t := T]) gs"
  unfolding tasks_ok_def by (cases "t < length ts") (auto simp: nth_list_update)

lemma slot_other:
  assumes ref: "refines (r, gs) (m, n)" and k: "k < length gs" "gs ! k = Some (c, i, t)" and other: "\<And>d. m c' \<noteq> Some (k, d)"
  shows "slot (detours r c') ((tasks r)[t := T]) gs c' (m c')"
proof (cases "m c'")
  case (Some e)
  obtain j s p evs where e: "e = (j, s, p, evs)" by (cases e)
  obtain i' t' where j: "j < length gs" "gs ! j = Some (c', i', t')"
    using slotD [OF ref] Some e by metis
  then have "t' \<noteq> t" using tasks_unique [OF ref j(1) k(1)] k(2) other Some e by auto
  then show ?thesis using refines_parts(4) [OF ref, of c'] Some e j by (simp add: slot_def)
qed (use refines_parts(4) [OF ref, of c'] in \<open>simp add: slot_def\<close>)

lemma refines_task:
  assumes ref: "refines (r, gs) (m, n)" and k: "k < length gs" "gs ! k = Some (c, i, t)" and gone: "\<And>c d. m c \<noteq> Some (k, d)"
    and T: "tk_client T = c" "tk_id T = i"
  shows "refines (r\<lparr>tasks := (tasks r)[t := T]\<rparr>, gs) (m, n)"
  using refines_parts [OF ref] slot_other [OF ref k gone] tasks_ok_update [OF refines_parts(3) [OF ref], of T t]
    tasks_okD [OF refines_parts(3) [OF ref] k] T
  by (simp add: refines_def)

lemma without_other: "(\<And>c d. m c \<noteq> Some (k, d)) \<Longrightarrow> without k m = m"
  by (auto simp: without_def fun_eq_iff split: option.splits)

lemma without_gone: "without k m c \<noteq> Some (k, d)"
  by (auto simp: without_def split: option.splits)

lemma refines_drop:
  assumes ref: "refines (r, gs) (m, n)"
  shows "refines (apply_op (r, gs) (DropNth k)) (spec_op (m, n) (DropNth k))"
proof (cases "\<exists>c i t. k < length gs \<and> gs ! k = Some (c, i, t)")
  case True
  then obtain c i t where k: "k < length gs" "gs ! k = Some (c, i, t)" by blast
  have "refines ((forget_detour c i r)\<lparr>tasks := (tasks (forget_detour c i r))[t := (tasks r ! t)\<lparr>tk_aborted := True\<rparr>]\<rparr>, gs)
      (without k m, n)"
    using tasks_okD [OF refines_parts(3) [OF ref] k] by (intro refines_task [OF refines_forget [OF ref k] k without_gone]) simp_all
  then show ?thesis using k by (simp add: drop_guard_def abort_task_def forget_tasks)
next
  case False
  then have "without k m = m" using number_known [OF ref] by (intro without_other) blast
  moreover have "apply_op (r, gs) (DropNth k) = (r, gs)" using False by (auto simp: drop_guard_def split: option.splits)
  ultimately show ?thesis using ref by simp
qed

lemma meets_other: "(\<And>c d. m c \<noteq> Some (k, d)) \<Longrightarrow> meets k ev m = m"
  by (auto simp: meets_def fun_eq_iff split: option.splits)

lemma refines_pump_absent:
  assumes ref: "refines (r, gs) (m, n)" and k: "k < length gs" "gs ! k = Some (c, i, t)" and gone: "\<And>c d. m c \<noteq> Some (k, d)"
  shows "refines (fst (task_step t ev r), gs) (m, n)"
proof -
  note task = tasks_okD [OF refines_parts(3) [OF ref] k]
  have same: "refines (r\<lparr>tasks := (tasks r)[t := (tasks r ! t)\<lparr>tk_pump := p\<rparr>]\<rparr>, gs) (m, n)" for p
    using task by (intro refines_task [OF ref k gone]) simp_all
  have "without k m = m" by (rule without_other [OF gone])
  then have "refines (forget_detour c i (r\<lparr>tasks := (tasks r)[t := (tasks r ! t)\<lparr>tk_pump := p\<rparr>]\<rparr>), gs) (m, n)" for p
    using refines_forget [OF same k] by simp
  then show ?thesis using ref same task by (simp add: task_step_def Let_def split_beta)
qed

lemma refines_pump_present:
  assumes ref: "refines (r, gs) (m, n)" and m: "m c = Some (k, shim, peer, evs)"
    and k: "k < length gs" "gs ! k = Some (c, i, t)"
  shows "refines (fst (task_step t ev r), gs) (meets k ev m, n)"
proof -
  define p where "p = fst (run_all (pump_step c peer) pump_new evs)"
  define p' where "p' = fst (pump_step c peer p ev)"
  obtain i' t' where s: "gs ! k = Some (c, i', t')" "working c evs"
      "detours r c = Some \<lparr>dt_id = i', dt_shim = shim, dt_peer = peer\<rparr>"
      "tasks r ! t' = \<lparr>tk_client = c, tk_id = i', tk_peer = peer, tk_pump = p, tk_aborted = False\<rparr>"
    using slotD [OF ref m] unfolding p_def by metis
  then have it: "i' = i" "t' = t" using k(2) by simp_all
  note task = tasks_okD [OF refines_parts(3) [OF ref] k]
  have on: "pump_over p = None" "reply_to p = last_origin c evs"
    using pump_run_state [of c peer evs] s(2) by (auto simp: p_def Let_def)
  have over: "pump_over p' = None \<longleftrightarrow> \<not> stops c evs ev" "pump_over p' \<noteq> Some Panic"
    using pump_step_exact [OF on, of peer ev] by (simp_all add: p'_def)
  let ?r = "r\<lparr>tasks := (tasks r)[t := (tasks r ! t)\<lparr>tk_pump := p'\<rparr>]\<rparr>"
  have step: "fst (task_step t ev r) = (if stops c evs ev then forget_detour c i ?r else ?r)"
    using task s(4) it on(1) over by (auto simp: task_step_def Let_def split_beta p'_def)
  have others: "m x \<noteq> Some (k, d)" if "x \<noteq> c" for x d using number_of [OF ref k] that by blast
  show ?thesis
  proof (cases "stops c evs ev")
    case True
    have "meets k ev m x = without k m x" for x
    proof (cases "x = c")
      case False
      then show ?thesis using others [OF False] by (auto simp: meets_def without_def split: option.split)
    qed (use m True in \<open>simp add: meets_def without_def\<close>)
    then have "meets k ev m = without k m" by (rule ext)
    moreover have "refines ((forget_detour c i r)\<lparr>tasks := (tasks (forget_detour c i r))[t := (tasks r ! t)\<lparr>tk_pump := p'\<rparr>]\<rparr>, gs)
        (without k m, n)"
      using task by (intro refines_task [OF refines_forget [OF ref k] k without_gone]) simp_all
    ultimately show ?thesis using True by (simp add: step forget_tasks)
  next
    case False
    have slots: "slot (detours r x) (tasks ?r) gs x (meets k ev m x)" for x
    proof (cases "x = c")
      case True
      have "meets k ev m c = Some (k, shim, peer, evs @ [ev])" using m False by (simp add: meets_def)
      moreover have "p' = fst (run_all (pump_step c peer) pump_new (evs @ [ev]))" by (simp add: p'_def p_def run_snoc)
      ultimately show ?thesis using True k s it task False by (simp add: slot_def working_snoc)
    next
      case other: False
      then have "meets k ev m x = m x" using others [OF other] by (auto simp: meets_def split: option.splits)
      then show ?thesis using slot_other [OF ref k others [OF other]] by simp
    qed
    have "tasks_ok (tasks ?r) gs" using tasks_ok_update [OF refines_parts(3) [OF ref]] by simp
    then show ?thesis using refines_parts(1,2) [OF ref] slots False by (simp add: step refines_def)
  qed
qed

lemma refines_pump:
  assumes ref: "refines (r, gs) (m, n)"
  shows "refines (apply_op (r, gs) (Pump k ev)) (spec_op (m, n) (Pump k ev))"
proof (cases "\<exists>c d. m c = Some (k, d)")
  case True
  then obtain c shim peer evs where m: "m c = Some (k, shim, peer, evs)" by (metis prod_cases3)
  obtain i t where k: "k < length gs" "gs ! k = Some (c, i, t)" using slotD [OF ref m] by metis
  then show ?thesis using refines_pump_present [OF ref m k] by simp
next
  case False
  then have gone: "m c \<noteq> Some (k, d)" for c d by blast
  then have "refines (fst (task_step t ev r), gs) (m, n)" if "k < length gs" "gs ! k = Some (c, i, t)" for c i t
    by (rule refines_pump_absent [OF ref that])
  then show ?thesis using ref meets_other [OF gone] by (auto split: option.split)
qed

lemma slot_snoc: "slot d ts gs c e \<Longrightarrow> tasks_ok ts gs \<Longrightarrow> slot d (ts @ ts') (gs @ [g]) c e"
  using tasks_okD [of ts gs] by (fastforce simp: slot_def nth_append split: option.splits)

lemma refines_attach:
  assumes ref: "refines (r, gs) (m, n)" and room: "next_id r + 1 \<noteq> 0"
  shows "refines (apply_op (r, gs) (Attach client shim peer)) (spec_op (m, n) (Attach client shim peer))"
proof (cases "is_private (sock_ip peer)")
  case True
  have "ids_below (next_id r) (gs @ [None])" "tasks_ok (tasks r) (gs @ [None])"
    using refines_parts(2,3) [OF ref] unfolding ids_below_def tasks_ok_def by (simp_all add: nth_append less_Suc_eq)
  moreover have "slot (detours r c) (tasks r) (gs @ [None]) c (m c)" for c
    using slot_snoc [where ts' = "[]", OF refines_parts(4,3) [OF ref]] by simp
  ultimately show ?thesis
    using refines_parts(1) [OF ref] True by (simp add: refines_def attach_detour_via_def)
next
  case False
  let ?i = "next_id r"
  let ?g = "Some (client, ?i, length (tasks r))"
  let ?gs = "gs @ [?g]"
  let ?T = "\<lparr>tk_client = client, tk_id = ?i, tk_peer = peer, tk_pump = pump_new, tk_aborted = False\<rparr>"
  let ?r = "r\<lparr>next_id := ?i + 1, detours := (detours r)(client := Some \<lparr>dt_id = ?i, dt_shim = shim, dt_peer = peer\<rparr>),
      tasks := tasks r @ [?T]\<rparr>"
  have op: "apply_op (r, gs) (Attach client shim peer) = (?r, ?gs)"
    using False by (simp add: attach_detour_via_def next_detour_id_def)
  have lt: "?i < ?i + 1" by (rule less_next [OF room])
  have old: "i < ?i" if "k < length gs" "gs ! k = Some (c, i, t)" for k c i t
    using ids_bound [OF refines_parts(2) [OF ref] that] .
  have ids: "ids_below (?i + 1) ?gs"
    unfolding ids_below_def
  proof (intro allI impI conjI)
    fix k c i t
    assume k: "k < length ?gs" "?gs ! k = Some (c, i, t)"
    show "i < ?i + 1"
      using k old [of k c i t] lt by (cases "k < length gs") (auto simp: nth_append less_Suc_eq)
    fix j c' i' t'
    assume j: "j < length ?gs" "?gs ! j = Some (c', i', t')" "i = i'"
    show "j = k"
      using k j old [of k c i t] old [of j c' i' t'] ids_unique [OF refines_parts(2) [OF ref], of j k c' i t' c t]
      by (cases "k < length gs"; cases "j < length gs") (auto simp: nth_append less_Suc_eq)
  qed
  have ts: "tasks_ok (tasks r @ [?T]) ?gs"
    unfolding tasks_ok_def
  proof (intro allI impI)
    fix k c i t
    assume k: "k < length ?gs" "?gs ! k = Some (c, i, t)"
    show "t < length (tasks r @ [?T]) \<and> tk_client ((tasks r @ [?T]) ! t) = c \<and> tk_id ((tasks r @ [?T]) ! t) = i"
      using k tasks_okD [OF refines_parts(3) [OF ref], of k c i t]
      by (cases "k < length gs") (auto simp: nth_append less_Suc_eq)
  qed
  have "slot (detours ?r c) (tasks ?r) ?gs c ((m(client := Some (n, shim, peer, []))) c)" for c
  proof (cases "c = client")
    case True
    then show ?thesis using refines_parts(1) [OF ref] by (simp add: slot_def working_def)
  next
    case False
    then show ?thesis using slot_snoc [where ts' = "[?T]" and g = ?g, OF refines_parts(4) [OF ref, of c] refines_parts(3) [OF ref]] by simp
  qed
  moreover have spec: "spec_op (m, n) (Attach client shim peer) = (m(client := Some (n, shim, peer, [])), n + 1)"
    using False by simp
  ultimately show ?thesis
    unfolding op spec refines_def using ids ts refines_parts(1) [OF ref] by (simp del: fun_upd_apply)
qed

lemma next_id_step: "next_id (fst (apply_op (r, gs) op)) \<in> {next_id r, next_id r + 1}"
  by (cases op) (auto simp: attach_detour_via_def next_detour_id_def drop_guard_def abort_task_def task_step_def forget_tasks
      Let_def split_beta split: option.split)

lemma refines_run:
  "length ops < 2 ^ 64 - 1 \<Longrightarrow>
     refines (foldl apply_op (registry_new, []) ops) (foldl spec_op (\<lambda>_. None, 0) ops) \<and>
     unat (next_id (fst (foldl apply_op (registry_new, []) ops))) \<le> Suc (length ops)"
proof (induction ops rule: rev_induct)
  case Nil
  then show ?case by (simp add: refines_def slot_def registry_new_def ids_below_def tasks_ok_def)
next
  case (snoc op ops)
  obtain r gs where r: "foldl apply_op (registry_new, []) ops = (r, gs)" by fastforce
  obtain m n where m: "foldl spec_op (\<lambda>_. None, 0) ops = (m, n)" by fastforce
  have ref: "refines (r, gs) (m, n)" and le: "unat (next_id r) \<le> Suc (length ops)" using snoc r m by auto
  then have "unat (next_id r) + 1 < 2 ^ 64" using snoc.prems by simp
  then have u: "unat (next_id r + 1) = unat (next_id r) + 1" by (simp add: unat_word_ariths)
  then have "next_id r + 1 \<noteq> 0" by (metis add_is_0 unat_0 zero_neq_one)
  then have "refines (apply_op (r, gs) op) (spec_op (m, n) op)"
    using refines_attach [OF ref] refines_drop [OF ref] refines_pump [OF ref] by (cases op) auto
  moreover have "unat (next_id (fst (apply_op (r, gs) op))) \<le> Suc (length (ops @ [op]))"
    using next_id_step [of r gs op] u le by auto
  ultimately show ?case using r m by simp
qed

section \<open>Properties\<close>

text \<open>C21. The registry of detours is exact. After any history of detours attached, guards dropped and events of their pumps (fewer
  than the numbers of a 64-bit counter), a socket is sent through the shim of the detour attached to it
  last, and sees what comes from that shim as coming from its peer, as long as that detour's own guard
  is held and its own pump has not stopped; neither the guard nor the pump of an earlier detour of the same socket
  takes anything from it. Otherwise addresses are left as they are.\<close>

theorem detour_registry_exact:
  assumes "length ops < 2 ^ 64 - 1" "foldl apply_op (registry_new, []) ops = (r, gs)"
    "foldl spec_op (\<lambda>_. None, 0) ops = (m, n)"
  shows "relay_target r local intended = (case m local of Some (_, shim, _) \<Rightarrow> shim | None \<Rightarrow> intended) \<and>
    real_source r local observed =
      (case m local of Some (_, shim, peer, _) \<Rightarrow> if observed = shim then peer else observed | None \<Rightarrow> observed)"
proof -
  have "refines (r, gs) (m, n)" using refines_run [OF assms(1)] assms(2,3) by simp
  then have "slot (detours r local) (tasks r) gs local (m local)" by (rule refines_parts(4))
  then show ?thesis by (cases "m local") (auto simp: slot_def relay_target_def real_source_def)
qed

text \<open>Two detours of one socket: the first guard is dropped, the pumps get a datagram, the second pump fails.\<close>

definition demo_ops :: "detour_op list" where
  "demo_ops = [Attach (SockV4 1 1) (SockV4 2 2) (SockV4 0x08080808 443), Attach (SockV4 1 1) (SockV4 3 3) (SockV4 0x08080404 443),
     DropNth 0, Pump 1 (FromShim (Inr ([1], SockV4 1 1)) None)]"

definition demo_stop :: detour_op where
  "demo_stop = Pump 1 (FromShim (Inl (io_new TimedOut [])) None)"

lemma demo_ops_spec:
  "fst (foldl spec_op (\<lambda>_. None, 0) demo_ops) (SockV4 1 1) =
     Some (1, SockV4 3 3, SockV4 0x08080404 443, [FromShim (Inr ([1], SockV4 1 1)) None])"
  "fst (foldl spec_op (\<lambda>_. None, 0) (demo_ops @ [demo_stop])) (SockV4 1 1) = None"
proof -
  have e: "(4 :: nat) = Suc (Suc (Suc (Suc 0)))" by simp
  have o: "octets4 0x08080808 = [8, 8, 8, 8]" "octets4 0x08080404 = [8, 8, 4, 4]"
    unfolding octets4_def be32_def e by simp_all
  have pub: "\<not> is_private (V4 0x08080808)" "\<not> is_private (V4 0x08080404)"
    by (simp_all add: is_private_def v4_is_private_def v4_is_loopback_def v4_is_link_local_def v4_is_broadcast_def
        v4_is_documentation_def v4_is_unspecified_def o)
  show "fst (foldl spec_op (\<lambda>_. None, 0) demo_ops) (SockV4 1 1) =
      Some (1, SockV4 3 3, SockV4 0x08080404 443, [FromShim (Inr ([1], SockV4 1 1)) None])"
    using pub by (simp add: demo_ops_def sock_ip_def without_def meets_def stops_def)
  then show "fst (foldl spec_op (\<lambda>_. None, 0) (demo_ops @ [demo_stop])) (SockV4 1 1) = None"
    by (cases "foldl spec_op (\<lambda>_. None, 0) demo_ops") (simp add: demo_stop_def meets_def stops_def)
qed

theorem detour_registry_exact_witness:
  "relay_target (fst (foldl apply_op (registry_new, []) demo_ops)) (SockV4 1 1) (SockV4 0x08080404 443) = SockV4 3 3 \<and>
   relay_target (fst (foldl apply_op (registry_new, []) (demo_ops @ [demo_stop]))) (SockV4 1 1) (SockV4 0x08080404 443) =
     SockV4 0x08080404 443"
proof -
  have "length demo_ops < 2 ^ 64 - 1" "length (demo_ops @ [demo_stop]) < 2 ^ 64 - 1" by (simp_all add: demo_ops_def)
  then show ?thesis
    using detour_registry_exact [OF _ surjective_pairing surjective_pairing, of demo_ops "SockV4 1 1" "SockV4 0x08080404 443"]
      detour_registry_exact [OF _ surjective_pairing surjective_pairing, of "demo_ops @ [demo_stop]" "SockV4 1 1" "SockV4 0x08080404 443"]
    unfolding demo_ops_spec by simp
qed

text \<open>C22. A detour carries the datagrams of its own socket, each once and in order, and nothing else. After any
  events the pump has sent exactly this: to the proxy, every datagram that came from the socket that was detoured, in
  a frame that a SOCKS5 server, this program's own included, reads as that payload for the peer; and to where
  the socket last sent from, the payload of every frame of the proxy that has a proper header, what a
  server answers with among them. Datagrams of others, frames without a proper header and frames that come before the socket has
  sent anything are passed over. The pump stops exactly at the first failure of one of its sockets or of one of its
  sends, and no datagram makes it panic.\<close>

theorem detour_pump_exact:
  "let (st, outs) = run_all (pump_step client peer) pump_new evs in
     outs = concat (map (\<lambda>i. if working client (take (Suc i) evs) then passed client peer (take i evs) (evs ! i) else [])
       [0..<length evs]) \<and>
     (\<forall>a d. ToShim a d \<in> set outs \<longrightarrow> from_detoured_socket client a) \<and>
     (pump_over st = None \<longleftrightarrow> working client evs) \<and> pump_over st \<noteq> Some Panic \<and>
     parse_udp_request (relay_send data peer) = Ok (TIp (sock_ip peer), sock_port peer, data) \<and>
     (length (build_udp_reply sender payload) \<le> 65535 \<longrightarrow>
        relay_recv 65535 (build_udp_reply sender payload) = Ok (payload, socket_new (sock_ip sender) (sock_port sender)))"
proof -
  have "from_detoured_socket client a" if "ToShim a d \<in> set (snd (run_all (pump_step client peer) pump_new evs))" for a d
    using pp.run_good [OF _ that] by (simp add: pump_inv_def pump_new_def)
  then show ?thesis
    using pump_run_outs [of client peer evs] pump_run_state [of client peer evs] relay_send_read [of data peer]
      relay_recv_reply [of sender payload]
    by (auto simp: split_beta Let_def)
qed

text \<open>A stranger's datagram, an early answer, a datagram of the socket, the answer to it, and a failure.\<close>

definition demo_pump :: "pump_event list" where
  "demo_pump = [FromShim (Inr ([9], SockV4 9 9)) None, FromRelay (Inr (build_udp_reply (SockV4 8 53) [5])) None,
     FromShim (Inr ([3], SockV4 7 7)) None, FromRelay (Inr (build_udp_reply (SockV4 8 53) [4])) None,
     FromShim (Inl (io_new TimedOut [])) None, FromShim (Inr ([6], SockV4 7 7)) None]"

theorem detour_pump_exact_witness:
  "snd (run_all (pump_step (SockV4 7 7) (SockV4 8 53)) pump_new demo_pump) =
     [ToRelay (relay_send [3] (SockV4 8 53)), ToShim (SockV4 7 7) [4]]"
proof -
  have "length (build_udp_reply (SockV4 8 53) [x]) \<le> 65535" for x
    by (simp add: build_udp_reply_def sock_ip_def)
  then have r: "relay_recv 65535 (build_udp_reply (SockV4 8 53) [x]) =
      Ok ([x], socket_new (sock_ip (SockV4 8 53)) (sock_port (SockV4 8 53)))" for x
    using detour_pump_exact [of "SockV4 7 7" "SockV4 8 53" "[]" "[]" "SockV4 8 53" "[x]"] by (simp add: split_beta)
  show ?thesis
    using detour_pump_exact [of "SockV4 7 7" "SockV4 8 53" demo_pump]
    by (simp add: demo_pump_def pump_step_def pump_new_def from_detoured_socket_def sock_port_def sock_ip_def r)
qed

end
