(* ===== verification/Https.thy ===== *)
theory Https
  imports Sock NetText
begin

text \<open>
  The HTTP/1.1 client of \<^verbatim>\<open>https.rs\<close>, for the calls to the WARP API and the lookup of the ECH key: the request, and
  the reading of the answer as it comes in. \<open>http1_answer\<close> is what has come, \<open>push\<close> takes the next bytes and
  says whether the answer is whole, \<open>dechunker\<close> joins a chunked body. An error ends the reading and
  drops what has been read, so operations that fail return no state. A \<^verbatim>\<open>usize\<close> has 64 bits.
\<close>

section \<open>Chunked bodies\<close>

definition MAX_BODY :: nat where "MAX_BODY = 512 * 1024"
definition MAX_LINE :: nat where "MAX_LINE = 8 * 1024"

record dechunker =
  dc_at :: nat
  dc_searched :: nat
  dc_data :: "nat option"
  dc_trailer :: bool
  dc_done :: bool
  dc_joined :: bytes

definition dechunker_default :: dechunker where
  "dechunker_default = \<lparr>dc_at = 0, dc_searched = 0, dc_data = None, dc_trailer = False, dc_done = False, dc_joined = []\<rparr>"

definition malformed_chunk :: "string \<Rightarrow> aether_error" where
  "malformed_chunk what = Api (lit ''a chunked answer with '' @ lit what)"

definition chunk_size :: "bytes \<Rightarrow> nat option" where
  "chunk_size line = (case from_utf8 line of None \<Rightarrow> None | Some line \<Rightarrow> parse_radix 16 64 (trim (hd (split_on 59 line))))"

lemma find_crlf_within: "find_sub [13, 10] s = Some n \<Longrightarrow> n + 2 \<le> length s"
  using starts_with_length [of "drop n s" "[13, 10]"] by (simp add: find_sub_Some)

function advance :: "dechunker \<Rightarrow> bytes \<Rightarrow> (aether_error, bool \<times> dechunker) run" where
  "advance st body =
     (if dc_done st then Ok (True, st)
      else case dc_data st of
        Some n \<Rightarrow>
          let end = dc_at st + n + 2 in
          if 2 ^ 64 \<le> end then Err (malformed_chunk ''a chunk too large'')
          else if length body < end then Ok (False, st)
          else
            bnd (sl body (end - 2) end) (\<lambda>line_end.
            if line_end \<noteq> [13, 10] then Err (malformed_chunk ''no line end after a chunk'')
            else
              bnd (sl body (dc_at st) (end - 2)) (\<lambda>data.
              advance (st\<lparr>dc_joined := dc_joined st @ data, dc_at := end, dc_searched := end, dc_data := None\<rparr>) body))
      | None \<Rightarrow>
          let from = max (dc_searched st - 1) (dc_at st) in
          bnd (sl body from (length body)) (\<lambda>rest.
          case find_sub [13, 10] rest of
            None \<Rightarrow>
              if length body < dc_at st then Panic
              else if length body - dc_at st > MAX_LINE then Err (malformed_chunk ''a line too long'')
              else Ok (False, st\<lparr>dc_searched := length body\<rparr>)
          | Some offset \<Rightarrow>
              bnd (sl body (dc_at st) (from + offset)) (\<lambda>line.
              let st = st\<lparr>dc_at := from + offset + 2, dc_searched := from + offset + 2\<rparr> in
              if dc_trailer st then advance (st\<lparr>dc_done := line = []\<rparr>) body
              else case chunk_size line of
                None \<Rightarrow> Err (malformed_chunk ''a bad chunk size'')
              | Some n \<Rightarrow> advance (if n = 0 then st\<lparr>dc_trailer := True\<rparr> else st\<lparr>dc_data := Some n\<rparr>) body)))"
  by pat_completeness auto
termination
  by (relation "measure (\<lambda>(st, body). length body - dc_at st)") (auto simp: Let_def sl_def max_def dest!: find_crlf_within split: if_splits)

declare advance.simps [simp del]

definition dechunker_finish :: "dechunker \<Rightarrow> (aether_error, bytes) run" where
  "dechunker_finish st =
     (if dc_done st then Ok (dc_joined st) else Err (Api (lit ''the chunked answer ended before its last chunk'')))"

section \<open>The head\<close>

datatype framing = Length nat | Chunked dechunker | Close

record http1_head =
  hd_status :: u16
  hd_fields :: "(str \<times> str) list"
  hd_body_start :: nat
  hd_framing :: framing

definition http1_head_of :: "bytes \<Rightarrow> (aether_error, u16 \<times> (str \<times> str) list) run" where
  "http1_head_of head =
     (let lines = split_str [13, 10] (utf8_lossy head); status_line = hd lines in
      bnd (ok_or (Api (lit ''bad status line: '' @ status_line))
        (case split_whitespace status_line of _ # token # _ \<Rightarrow> parse_u16 token | _ \<Rightarrow> None)) (\<lambda>status.
      Ok (status, map (\<lambda>(name, value). (trim name, trim value)) (List.map_filter (split_once 58) (tl lines)))))"

definition field_of :: "(str \<times> str) list \<Rightarrow> str \<Rightarrow> str option" where
  "field_of fs wanted = map_option snd (List.find (\<lambda>(name, _). eq_ignore_ascii_case name wanted) fs)"

definition framing_of :: "u16 \<Rightarrow> (str \<times> str) list \<Rightarrow> (aether_error, framing) run" where
  "framing_of status fs =
     (if status = 204 \<or> status = 304 then Ok (Length 0)
      else if (case field_of fs (lit ''transfer-encoding'') of None \<Rightarrow> False
               | Some value \<Rightarrow> contains (map lower value) (lit ''chunked'')) then Ok (Chunked dechunker_default)
      else case field_of fs (lit ''content-length'') of
        Some value \<Rightarrow> bnd (ok_or (Api (lit ''bad Content-Length: '' @ value)) (parse_radix 10 64 value)) (\<lambda>n. Ok (Length n))
      | None \<Rightarrow> Ok Close)"

section \<open>The answer\<close>

record http1_answer =
  an_raw :: bytes
  an_head_start :: nat
  an_searched :: nat
  an_head :: "http1_head option"

definition answer_default :: http1_answer where
  "answer_default = \<lparr>an_raw = [], an_head_start = 0, an_searched = 0, an_head = None\<rparr>"

lemma find_blank_within: "find_sub [13, 10, 13, 10] s = Some n \<Longrightarrow> n + 4 \<le> length s"
  using starts_with_length [of "drop n s" "[13, 10, 13, 10]"] by (simp add: find_sub_Some)

text \<open>The loop of \<^verbatim>\<open>push\<close> that looks for the head, past interim answers; whether it is there.\<close>

function seek_head :: "http1_answer \<Rightarrow> (aether_error, bool \<times> http1_answer) run" where
  "seek_head a = (case an_head a of
     Some _ \<Rightarrow> Ok (True, a)
   | None \<Rightarrow>
       let from = max (an_searched a - 3) (an_head_start a) in
       bnd (sl (an_raw a) from (length (an_raw a))) (\<lambda>rest.
       case find_sub [13, 10, 13, 10] rest of
         None \<Rightarrow> Ok (False, a\<lparr>an_searched := length (an_raw a)\<rparr>)
       | Some offset \<Rightarrow>
           let end = from + offset in
           bnd (sl (an_raw a) (an_head_start a) end) (\<lambda>head.
           bnd (http1_head_of head) (\<lambda>(status, fs).
           if 100 \<le> status \<and> status < 200 \<and> status \<noteq> 101
           then seek_head (a\<lparr>an_head_start := end + 4, an_searched := end + 4\<rparr>)
           else bnd (framing_of status fs) (\<lambda>framing.
             Ok (True, a\<lparr>an_head := Some \<lparr>hd_status = status, hd_fields = fs, hd_body_start = end + 4, hd_framing = framing\<rparr>\<rparr>))))))"
  by pat_completeness auto
termination
  by (relation "measure (\<lambda>a. length (an_raw a) - an_head_start a)") (auto simp: Let_def sl_def max_def dest!: find_blank_within split: if_splits)

declare seek_head.simps [simp del]

definition push :: "bytes \<Rightarrow> http1_answer \<Rightarrow> (aether_error, bool \<times> http1_answer) run" where
  "push bytes a =
     (let a = a\<lparr>an_raw := an_raw a @ bytes\<rparr> in
      if length (an_raw a) > MAX_BODY then Err (Api (lit ''the answer is too large''))
      else bnd (seek_head a) (\<lambda>(found, a).
        if \<not> found then Ok (False, a)
        else case an_head a of None \<Rightarrow> Panic | Some head \<Rightarrow>
          bnd (sl (an_raw a) (hd_body_start head) (length (an_raw a))) (\<lambda>body.
          case hd_framing head of
            Length n \<Rightarrow> Ok (n \<le> length body, a)
          | Chunked dechunker \<Rightarrow> bnd (advance dechunker body) (\<lambda>(whole, dechunker).
              Ok (whole, a\<lparr>an_head := Some (head\<lparr>hd_framing := Chunked dechunker\<rparr>)\<rparr>))
          | Close \<Rightarrow> Ok (False, a))))"

definition answer_finish :: "http1_answer \<Rightarrow> (aether_error, u16 \<times> (str \<times> str) list \<times> bytes) run" where
  "answer_finish a = (case an_head a of
     None \<Rightarrow> Err (Api (if an_raw a = [] then lit ''empty response'' else lit ''truncated response head''))
   | Some head \<Rightarrow>
       bnd (sl (an_raw a) (hd_body_start head) (length (an_raw a))) (\<lambda>body.
       bnd (case hd_framing head of
              Length n \<Rightarrow>
                if length body < n
                then Err (Api (lit ''the answer ended after '' @ show_nat (length body) @ lit '' of its '' @ show_nat n @ lit '' bytes''))
                else sl body 0 n
            | Chunked dechunker \<Rightarrow> dechunker_finish dechunker
            | Close \<Rightarrow> Ok body) (\<lambda>body.
       Ok (hd_status head, hd_fields head, body))))"

section \<open>The exchange\<close>

definition authority :: "str \<Rightarrow> u16 \<Rightarrow> str" where
  "authority host port =
     (let host = (if contains host [58] then lit ''['' @ host @ lit '']'' else host) in
      if port = 443 then host else host @ lit '':'' @ show_nat (unat port))"

record https_request =
  hq_method :: str
  hq_host :: str
  hq_port :: u16
  hq_path :: str
  hq_headers :: "(str \<times> str) list"
  hq_body :: "bytes option"

record 'm https_response =
  hr_status :: u16
  hr_headers :: 'm
  hr_body :: bytes
  hr_protocol :: str

definition http1_wire :: "https_request \<Rightarrow> bytes" where
  "http1_wire request =
     hq_method request @ lit '' '' @ hq_path request @ lit '' HTTP/1.1'' @ [13, 10] @
     lit ''Host: '' @ authority (hq_host request) (hq_port request) @ [13, 10] @
     concat (map (\<lambda>(name, value). name @ lit '': '' @ value @ [13, 10]) (hq_headers request)) @
     (case hq_body request of None \<Rightarrow> [] | Some body \<Rightarrow> lit ''Content-Length: '' @ show_nat (length body) @ [13, 10]) @
     lit ''Connection: close'' @ [13, 10, 13, 10] @
     (case hq_body request of None \<Rightarrow> [] | Some body \<Rightarrow> body)"

definition http1_failed :: "aether_error \<Rightarrow> aether_error" where
  "http1_failed e = (case e of Io text \<Rightarrow> Api (lit ''http/1.1: '' @ text) | _ \<Rightarrow> e)"

text \<open>The loop of \<^verbatim>\<open>over_http1\<close>, until the answer is whole or the connection ends.\<close>

function answer_segs :: "http1_answer \<Rightarrow> arrival list \<Rightarrow> (aether_error, http1_answer) run \<times> arrival list" where
  "answer_segs answer r = (case read_segs 8192 r of
     (Err e, q) \<Rightarrow> (Err (http1_failed (io_err e)), q)
   | (Panic, q) \<Rightarrow> (Panic, q)
   | (Ok chunk, q) \<Rightarrow>
       if chunk = [] then (Ok answer, q)
       else case push chunk answer of
         Err e \<Rightarrow> (Err e, q)
       | Panic \<Rightarrow> (Panic, q)
       | Ok (whole, answer) \<Rightarrow> if whole then (Ok answer, q) else answer_segs answer q)"
  by pat_completeness auto
termination
  by (relation "measure (\<lambda>(_, r). weight r)") (auto dest: read_segs_smaller [OF sym])

declare answer_segs.simps [simp del]

text \<open>What the \<^verbatim>\<open>http\<close> crate provides: the parsers of names and values of header fields, the empty header map, and
  its \<^verbatim>\<open>append\<close>, which panics (here \<open>None\<close>) when the map is full.\<close>

record ('n, 'v, 'm) http_crate =
  header_name :: "str \<Rightarrow> 'n option"
  header_value :: "str \<Rightarrow> 'v option"
  map_new :: 'm
  map_append :: "'n \<Rightarrow> 'v \<Rightarrow> 'm \<Rightarrow> 'm option"

fun collect_headers :: "('n, 'v, 'm) http_crate \<Rightarrow> (str \<times> str) list \<Rightarrow> 'm \<Rightarrow> (aether_error, 'm) run" where
  "collect_headers http [] headers = Ok headers"
| "collect_headers http ((name, value) # fs) headers =
     (case (header_name http name, header_value http value) of
        (Some n, Some v) \<Rightarrow>
          (case map_append http n v headers of None \<Rightarrow> Panic | Some headers \<Rightarrow> collect_headers http fs headers)
      | _ \<Rightarrow> collect_headers http fs headers)"

definition response_of ::
    "('n, 'v, 'm) http_crate \<Rightarrow> u16 \<times> (str \<times> str) list \<times> bytes \<Rightarrow> (aether_error, 'm https_response) run" where
  "response_of http answer = (case answer of (status, fs, body) \<Rightarrow>
     bnd (collect_headers http fs (map_new http)) (\<lambda>headers.
     Ok \<lparr>hr_status = status, hr_headers = headers, hr_body = body, hr_protocol = lit ''http/1.1''\<rparr>))"

text \<open>A flush is a write of nothing, which may find the peer gone like any other.\<close>

definition over_http1 :: "('n, 'v, 'm) http_crate \<Rightarrow> https_request \<Rightarrow> ('x sock_scheme, 'm https_response) io" where
  "over_http1 http request =
     seq (\<lambda>s. case write_all (http1_wire request) s of (r, s) \<Rightarrow> (map_err http1_failed r, s)) (\<lambda>_.
     seq (\<lambda>s. case write_all [] s of (r, s) \<Rightarrow> (map_err http1_failed r, s)) (\<lambda>_.
     seq (\<lambda>s. let (r, q) = answer_segs answer_default (rx s) in (r, s\<lparr>rx := q\<rparr>)) (\<lambda>answer.
     \<lambda>s. (bnd (answer_finish answer) (response_of http), s))))"

section \<open>Lemmas: going on with a chunked body\<close>

lemma find_sub_more: "p \<noteq> [] \<Longrightarrow> find_sub p s = Some n \<Longrightarrow> find_sub p (s @ t) = Some n"
proof -
  assume p: "p \<noteq> []" and n: "find_sub p s = Some n"
  then have hit: "starts_with (drop n s) p" "length p \<le> length s - n" "\<And>m. m < n \<Longrightarrow> \<not> starts_with (drop m s) p"
    using starts_with_length [of "drop n s" p] by (auto simp: find_sub_Some)
  have "\<not> starts_with (drop m (s @ t)) p" if "m < n" for m
    using hit(2,3) that starts_with_append [of p "drop m s" t] p by (cases "m \<le> length s") auto
  moreover have "starts_with (drop n (s @ t)) p"
    using hit(1,2) starts_with_append [of p "drop n s" t] p by (cases "n \<le> length s") auto
  ultimately show ?thesis using p by (simp add: find_sub_Some)
qed

lemma find_sub_from:
  assumes "p \<noteq> []" "find_sub p (take k s) = None" "k \<le> length s"
  shows "find_sub p s = map_option ((+) (k - (length p - 1))) (find_sub p (drop (k - (length p - 1)) s))"
  using find_sub_resume [OF assms(1,2), of "drop k s"] assms(3) by simp

text \<open>The place up to which the line at hand has been searched holds no end of it.\<close>

definition dc_ok :: "dechunker \<Rightarrow> bytes \<Rightarrow> bool" where
  "dc_ok st body \<longleftrightarrow> dc_at st \<le> dc_searched st \<and> dc_searched st \<le> length body \<and>
     (dc_data st \<noteq> None \<or> dc_done st \<longrightarrow> dc_searched st = dc_at st) \<and>
     find_sub [13, 10] (take (dc_searched st - dc_at st) (drop (dc_at st) body)) = None"

lemma dc_ok_at: "dc_searched st = dc_at st \<Longrightarrow> dc_at st \<le> length body \<Longrightarrow> dc_ok st body"
  by (simp add: dc_ok_def)

lemma dc_ok_more: "dc_ok st body \<Longrightarrow> dc_ok st (body @ c)"
  by (auto simp: dc_ok_def)

text \<open>Looking from where the search stopped is looking from the beginning of the line.\<close>

lemma advance_line:
  assumes ok: "dc_ok st body" and line: "\<not> dc_done st" "dc_data st = None"
  shows "advance st body = (case find_sub [13, 10] (drop (dc_at st) body) of
      None \<Rightarrow> if length body - dc_at st > MAX_LINE then Err (malformed_chunk ''a line too long'')
              else Ok (False, st\<lparr>dc_searched := length body\<rparr>)
    | Some n \<Rightarrow>
        let st' = st\<lparr>dc_at := dc_at st + n + 2, dc_searched := dc_at st + n + 2\<rparr>; line = take n (drop (dc_at st) body) in
        if dc_trailer st then advance (st'\<lparr>dc_done := line = []\<rparr>) body
        else case chunk_size line of
          None \<Rightarrow> Err (malformed_chunk ''a bad chunk size'')
        | Some n \<Rightarrow> advance (if n = 0 then st'\<lparr>dc_trailer := True\<rparr> else st'\<lparr>dc_data := Some n\<rparr>) body)"
proof -
  define m where "m = dc_searched st - dc_at st - 1"
  have bounds: "dc_at st \<le> dc_searched st" "dc_searched st \<le> length body" using ok by (simp_all add: dc_ok_def)
  have from_eq: "max (dc_searched st - Suc 0) (dc_at st) = dc_at st + m" using bounds by (auto simp: m_def max_def)
  have search: "find_sub [13, 10] (drop (dc_at st) body) = map_option ((+) m) (find_sub [13, 10] (drop (dc_at st + m) body))"
    using find_sub_from [of "[13, 10]" "dc_searched st - dc_at st" "drop (dc_at st) body"] ok bounds
    by (simp add: dc_ok_def m_def add.commute)
  have within: "dc_at st + m \<le> length body" using bounds by (auto simp: m_def)
  show ?thesis
  proof (cases "find_sub [13, 10] (drop (dc_at st + m) body)")
    case None
    then show ?thesis
      using search within bounds line by (subst advance.simps) (simp add: from_eq sl_def Let_def)
  next
    case (Some n)
    have "dc_at st + (m + n) \<le> length body" using find_crlf_within [OF Some] within by simp
    then show ?thesis
      using search Some within bounds line
      by (subst advance.simps) (simp add: from_eq sl_def Let_def add.assoc)
  qed
qed

lemma advance_data:
  assumes "\<not> dc_done st" "dc_data st = Some n"
  shows "advance st body =
      (if 2 ^ 64 \<le> dc_at st + n + 2 then Err (malformed_chunk ''a chunk too large'')
       else if length body < dc_at st + n + 2 then Ok (False, st)
       else if take 2 (drop (dc_at st + n) body) \<noteq> [13, 10] then Err (malformed_chunk ''no line end after a chunk'')
       else advance (st\<lparr>dc_joined := dc_joined st @ take n (drop (dc_at st) body), dc_at := dc_at st + n + 2,
          dc_searched := dc_at st + n + 2, dc_data := None\<rparr>) body)"
  using assms by (subst advance.simps) (simp add: sl_def Let_def)

lemma advance_done: "dc_done st \<Longrightarrow> advance st body = Ok (True, st)"
  by (subst advance.simps) simp

text \<open>What has been made of the beginning of a body is what is made of it when more follows.\<close>

definition resumes :: "dechunker \<Rightarrow> bytes \<Rightarrow> bytes \<Rightarrow> bool" where
  "resumes st body c = (case advance st body of
     Ok (whole, st') \<Rightarrow>
       if whole then dc_done st' \<and> advance st (body @ c) = Ok (True, st')
       else dc_ok st' body \<and> \<not> dc_done st' \<and> advance st (body @ c) = advance st' (body @ c)
   | Err e \<Rightarrow> e = malformed_chunk ''a line too long'' \<or> advance st (body @ c) = Err e
   | Panic \<Rightarrow> False)"

lemma resumes_step:
  "resumes st' body c \<Longrightarrow> advance st body = advance st' body \<Longrightarrow> advance st (body @ c) = advance st' (body @ c) \<Longrightarrow> resumes st body c"
  unfolding resumes_def by (simp only:)

lemma advance_more: "dc_ok st body \<Longrightarrow> resumes st body c"
proof (induction "length body - dc_at st" arbitrary: st rule: less_induct)
  case less
  note ok = less.prems
  have le: "dc_at st \<le> length body" using ok by (simp add: dc_ok_def)
  have step: "resumes st' body c" if "dc_at st < dc_at st'" "dc_at st' \<le> length body" "dc_searched st' = dc_at st'" for st'
    using that by (intro less.hyps dc_ok_at) simp_all
  consider "dc_done st" | (data) n where "\<not> dc_done st" "dc_data st = Some n" | (line) "\<not> dc_done st" "dc_data st = None"
    by blast
  then show ?case
  proof cases
    case 1
    then show ?thesis by (simp add: advance_done resumes_def)
  next
    case data
    note eqs = advance_data [OF data, of body] advance_data [OF data, of "body @ c"]
    show ?thesis
    proof (cases "dc_at st + n + 2 < 2 ^ 64 \<and> dc_at st + n + 2 \<le> length body \<and> take 2 (drop (dc_at st + n) body) = [13, 10]")
      case True
      show ?thesis
      proof (rule resumes_step [OF step])
        show "advance st body = advance (st\<lparr>dc_joined := dc_joined st @ take n (drop (dc_at st) body), dc_at := dc_at st + n + 2,
            dc_searched := dc_at st + n + 2, dc_data := None\<rparr>) body" using True eqs(1) by simp
      qed (use True eqs(2) in simp_all)
    next
      case False
      then show ?thesis using data ok eqs by (auto simp: resumes_def not_less)
    qed
  next
    case line
    note eqs = advance_line [OF ok line] advance_line [OF dc_ok_more [OF ok] line, of c]
    show ?thesis
    proof (cases "find_sub [13, 10] (drop (dc_at st) body)")
      case None
      let ?st = "st\<lparr>dc_searched := length body\<rparr>"
      have ok': "dc_ok ?st body" using ok line None le by (simp add: dc_ok_def)
      have "advance ?st (body @ c) = advance st (body @ c)"
        unfolding advance_line [OF dc_ok_more [OF ok'], of c, simplified, OF line] eqs(2)
        by (cases "find_sub [13, 10] (drop (dc_at st) (body @ c))") (simp_all add: Let_def split: option.split)
      then show ?thesis using eqs(1) None ok' line by (simp add: resumes_def)
    next
      case (Some n)
      have within: "dc_at st + n + 2 \<le> length body" using find_crlf_within [OF Some] le by simp
      define ahead where "ahead = st\<lparr>dc_at := dc_at st + n + 2, dc_searched := dc_at st + n + 2\<rparr>"
      let ?line = "take n (drop (dc_at st) body)"
      have more: "find_sub [13, 10] (drop (dc_at st) (body @ c)) = Some n" "take n (drop (dc_at st) (body @ c)) = ?line"
        using find_sub_more [OF _ Some, of c] le within by simp_all
      consider (trailer) "dc_trailer st" | (bad) "\<not> dc_trailer st" "chunk_size ?line = None"
        | (size) k where "\<not> dc_trailer st" "chunk_size ?line = Some k" by blast
      then show ?thesis
      proof cases
        case trailer
        show ?thesis
        proof (rule resumes_step [OF step])
          show "advance st body = advance (ahead\<lparr>dc_done := ?line = []\<rparr>) body"
            unfolding eqs(1) using Some trailer by (simp only: Let_def ahead_def option.case if_True)
          show "advance st (body @ c) = advance (ahead\<lparr>dc_done := ?line = []\<rparr>) (body @ c)"
            unfolding eqs(2) using more trailer by (simp only: Let_def ahead_def option.case if_True)
        qed (use within in \<open>simp_all add: ahead_def\<close>)
      next
        case bad
        then have "advance st body = Err (malformed_chunk ''a bad chunk size'')" "advance st (body @ c) = Err (malformed_chunk ''a bad chunk size'')"
          unfolding eqs using Some more by (simp_all only: Let_def option.case if_False)
        then show ?thesis by (simp add: resumes_def)
      next
        case size
        show ?thesis
        proof (rule resumes_step [OF step])
          show "advance st body = advance (if k = 0 then ahead\<lparr>dc_trailer := True\<rparr> else ahead\<lparr>dc_data := Some k\<rparr>) body"
            unfolding eqs(1) using Some size by (simp only: Let_def ahead_def option.case if_False)
          show "advance st (body @ c) = advance (if k = 0 then ahead\<lparr>dc_trailer := True\<rparr> else ahead\<lparr>dc_data := Some k\<rparr>) (body @ c)"
            unfolding eqs(2) using more size by (simp only: Let_def ahead_def option.case if_False)
        qed (use within in \<open>simp_all add: ahead_def\<close>)
      qed
    qed
  qed
qed

section \<open>Lemmas: going on with an answer\<close>

definition head_ok :: "http1_answer \<Rightarrow> bool" where
  "head_ok a \<longleftrightarrow> an_head_start a \<le> an_searched a \<and> an_searched a \<le> length (an_raw a) \<and>
     find_sub [13, 10, 13, 10] (take (an_searched a - an_head_start a) (drop (an_head_start a) (an_raw a))) = None"

lemma seek_head_eq:
  assumes ok: "head_ok a" and none: "an_head a = None"
  shows "seek_head a = (case find_sub [13, 10, 13, 10] (drop (an_head_start a) (an_raw a)) of
      None \<Rightarrow> Ok (False, a\<lparr>an_searched := length (an_raw a)\<rparr>)
    | Some n \<Rightarrow>
        bnd (http1_head_of (take n (drop (an_head_start a) (an_raw a)))) (\<lambda>(status, fs).
        if 100 \<le> status \<and> status < 200 \<and> status \<noteq> 101
        then seek_head (a\<lparr>an_head_start := an_head_start a + n + 4, an_searched := an_head_start a + n + 4\<rparr>)
        else bnd (framing_of status fs) (\<lambda>framing.
          Ok (True, a\<lparr>an_head := Some \<lparr>hd_status = status, hd_fields = fs, hd_body_start = an_head_start a + n + 4, hd_framing = framing\<rparr>\<rparr>))))"
proof -
  define m where "m = an_searched a - an_head_start a - 3"
  have bounds: "an_head_start a \<le> an_searched a" "an_searched a \<le> length (an_raw a)" using ok by (simp_all add: head_ok_def)
  have from_eq: "max (an_searched a - 3) (an_head_start a) = an_head_start a + m" using bounds by (auto simp: m_def max_def)
  have search: "find_sub [13, 10, 13, 10] (drop (an_head_start a) (an_raw a)) =
      map_option ((+) m) (find_sub [13, 10, 13, 10] (drop (an_head_start a + m) (an_raw a)))"
    using find_sub_from [of "[13, 10, 13, 10]" "an_searched a - an_head_start a" "drop (an_head_start a) (an_raw a)"] ok bounds
    by (simp add: head_ok_def m_def add.commute numeral_3_eq_3)
  have within: "an_head_start a + m \<le> length (an_raw a)" using bounds by (auto simp: m_def)
  show ?thesis
  proof (cases "find_sub [13, 10, 13, 10] (drop (an_head_start a + m) (an_raw a))")
    case None
    then show ?thesis using search within none by (subst seek_head.simps) (simp add: from_eq sl_def Let_def)
  next
    case (Some n)
    have "an_head_start a + (m + n) \<le> length (an_raw a)" using find_blank_within [OF Some] within by simp
    then show ?thesis
      using search Some within none by (subst seek_head.simps) (simp add: from_eq sl_def Let_def add.assoc)
  qed
qed

text \<open>Once the head has been found, how far it was searched for no longer matters.\<close>

definition settle :: "http1_answer \<Rightarrow> http1_answer" where
  "settle a = (if an_head a = None then a else a\<lparr>an_searched := 0\<rparr>)"

definition settled :: "('e, bool \<times> http1_answer) run \<Rightarrow> ('e, bool \<times> http1_answer) run" where
  "settled r = bnd r (\<lambda>(whole, a). Ok (whole, settle a))"

lemma settle_simps [simp]:
  "an_head (settle a) = an_head a" "an_raw (settle a) = an_raw a" "settled (Ok (w, a)) = Ok (w, settle a)" "settled (Err e) = Err e" "settled Panic = Panic"
  by (simp_all add: settle_def settled_def)

definition seeks :: "http1_answer \<Rightarrow> bytes \<Rightarrow> bool" where
  "seeks a c = (case seek_head a of
     Ok (found, a') \<Rightarrow> an_raw a' = an_raw a \<and>
       (if found then (\<exists>h. an_head a' = Some h \<and> hd_body_start h \<le> length (an_raw a) \<and> (\<forall>d. hd_framing h = Chunked d \<longrightarrow> d = dechunker_default)) \<and>
          settled (seek_head (a\<lparr>an_raw := an_raw a @ c\<rparr>)) = Ok (True, settle (a'\<lparr>an_raw := an_raw a @ c\<rparr>))
        else head_ok a' \<and> an_head a' = None \<and>
          settled (seek_head (a\<lparr>an_raw := an_raw a @ c\<rparr>)) = settled (seek_head (a'\<lparr>an_raw := an_raw a @ c\<rparr>)))
   | Err e \<Rightarrow> seek_head (a\<lparr>an_raw := an_raw a @ c\<rparr>) = Err e
   | Panic \<Rightarrow> False)"

lemma seeks_step:
  "seeks a' c \<Longrightarrow> seek_head a = seek_head a' \<Longrightarrow> an_raw a' = an_raw a \<Longrightarrow>
     seek_head (a\<lparr>an_raw := an_raw a @ c\<rparr>) = seek_head (a'\<lparr>an_raw := an_raw a @ c\<rparr>) \<Longrightarrow> seeks a c"
  unfolding seeks_def by (simp only:)

lemma head_ok_more: "head_ok a \<Longrightarrow> head_ok (a\<lparr>an_raw := an_raw a @ c\<rparr>)"
  by (auto simp: head_ok_def)

lemma http1_head_safe: "http1_head_of head \<noteq> Panic" "framing_of status fs \<noteq> Panic"
  by (auto simp: http1_head_of_def framing_of_def Let_def ok_or_iff bnd_Panic_iff split: option.splits list.splits)

lemma framing_chunked: "framing_of status fs = Ok (Chunked d) \<Longrightarrow> d = dechunker_default"
  by (auto simp: framing_of_def ok_or_iff bnd_Ok_iff split: option.splits if_splits)

lemma seek_head_more: "head_ok a \<Longrightarrow> an_head a = None \<Longrightarrow> seeks a c"
proof (induction "length (an_raw a) - an_head_start a" arbitrary: a rule: less_induct)
  case less
  note ok = less.prems(1) and none = less.prems(2)
  define long where "long = a\<lparr>an_raw := an_raw a @ c\<rparr>"
  have long: "an_head_start long = an_head_start a" "an_raw long = an_raw a @ c" "an_head long = None"
    using none by (simp_all add: long_def)
  have le: "an_head_start a \<le> length (an_raw a)" using ok by (simp add: head_ok_def)
  note eqs = seek_head_eq [OF ok none] seek_head_eq [OF head_ok_more [OF ok, of c], folded long_def, OF long(3), unfolded long(1,2)]
  show ?case
  proof (cases "find_sub [13, 10, 13, 10] (drop (an_head_start a) (an_raw a))")
    case None
    define a' where "a' = a\<lparr>an_searched := length (an_raw a)\<rparr>"
    have ok': "head_ok a'" using ok None le by (simp add: head_ok_def a'_def)
    define long' where "long' = a'\<lparr>an_raw := an_raw a' @ c\<rparr>"
    have long': "an_head_start long' = an_head_start a" "an_raw long' = an_raw a @ c" "an_head long' = None"
      using none by (simp_all add: long'_def a'_def)
    note eq' = seek_head_eq [OF head_ok_more [OF ok', of c], folded long'_def, OF long'(3), unfolded long'(1,2)]
    have "settled (seek_head long') = settled (seek_head long)"
    proof (cases "find_sub [13, 10, 13, 10] (drop (an_head_start a) (an_raw a @ c))")
      case None
      then show ?thesis unfolding eq' eqs(2) by (simp add: long_def long'_def a'_def)
    next
      case (Some n)
      have upd: "long'\<lparr>an_head_start := k, an_searched := k\<rparr> = long\<lparr>an_head_start := k, an_searched := k\<rparr>"
          "settle (long'\<lparr>an_head := Some h\<rparr>) = settle (long\<lparr>an_head := Some h\<rparr>)" for k h
        by (simp_all add: long_def long'_def a'_def settle_def)
      show ?thesis
      proof (cases "http1_head_of (take n (drop (an_head_start a) (an_raw a @ c)))")
        case head: (Ok sf)
        then show ?thesis unfolding eq' eqs(2) Some option.case
          by (cases sf; cases "framing_of (fst sf) (snd sf)") (simp_all add: upd)
      qed (simp_all add: eq' eqs(2) Some del: drop_append take_append)
    qed
    moreover have "long' = a'\<lparr>an_raw := an_raw a @ c\<rparr>" by (simp add: long'_def a'_def)
    ultimately show ?thesis using eqs(1) None ok' none by (simp add: seeks_def a'_def long_def)
  next
    case (Some n)
    have within: "an_head_start a + n + 4 \<le> length (an_raw a)" using find_blank_within [OF Some] le by simp
    have more: "find_sub [13, 10, 13, 10] (drop (an_head_start a) (an_raw a @ c)) = Some n"
        "take n (drop (an_head_start a) (an_raw a @ c)) = take n (drop (an_head_start a) (an_raw a))"
      using find_sub_more [OF _ Some, of c] le within by simp_all
    note eqs' = eqs(1) [unfolded Some option.case] eqs(2) [unfolded more option.case]
    show ?thesis
    proof (cases "http1_head_of (take n (drop (an_head_start a) (an_raw a)))")
      case head: (Ok sf)
      obtain status fs where sf: "sf = (status, fs)" by (cases sf)
      show ?thesis
      proof (cases "100 \<le> status \<and> status < 200 \<and> status \<noteq> 101")
        case True
        define a' where "a' = a\<lparr>an_head_start := an_head_start a + n + 4, an_searched := an_head_start a + n + 4\<rparr>"
        have seeks: "seeks a' c" using within none unfolding a'_def by (intro less.hyps) (simp_all add: head_ok_def)
        have long': "a'\<lparr>an_raw := an_raw a @ c\<rparr> = long\<lparr>an_head_start := an_head_start a + n + 4, an_searched := an_head_start a + n + 4\<rparr>"
          by (cases a) (simp add: long_def a'_def)
        have "seek_head a = seek_head a'" "seek_head long = seek_head (a'\<lparr>an_raw := an_raw a @ c\<rparr>)"
          unfolding eqs' long' using head sf True by (simp_all add: a'_def)
        then show ?thesis by (intro seeks_step [OF seeks]) (simp_all add: a'_def long_def)
      next
        case False
        then show ?thesis
          using eqs' head sf within framing_chunked [of status fs] http1_head_safe(2) [of status fs]
          by (cases "framing_of status fs") (auto simp: seeks_def settle_def long_def)
      qed
    qed (use eqs' http1_head_safe in \<open>simp_all add: seeks_def long_def\<close>)
  qed
qed

definition answer_ok :: "http1_answer \<Rightarrow> bool" where
  "answer_ok a \<longleftrightarrow> (case an_head a of
     None \<Rightarrow> head_ok a
   | Some h \<Rightarrow> hd_body_start h \<le> length (an_raw a) \<and> (\<forall>d. hd_framing h = Chunked d \<longrightarrow> dc_ok d (drop (hd_body_start h) (an_raw a))))"

definition look_at_body :: "http1_answer \<Rightarrow> (aether_error, bool \<times> http1_answer) run" where
  "look_at_body a = (case an_head a of None \<Rightarrow> Panic | Some head \<Rightarrow>
     bnd (sl (an_raw a) (hd_body_start head) (length (an_raw a))) (\<lambda>body.
     case hd_framing head of
       Length n \<Rightarrow> Ok (n \<le> length body, a)
     | Chunked dechunker \<Rightarrow> bnd (advance dechunker body) (\<lambda>(whole, dechunker).
         Ok (whole, a\<lparr>an_head := Some (head\<lparr>hd_framing := Chunked dechunker\<rparr>)\<rparr>))
     | Close \<Rightarrow> Ok (False, a)))"

lemma push_eq:
  "push bytes a =
     (if length (an_raw a @ bytes) > MAX_BODY then Err (Api (lit ''the answer is too large''))
      else bnd (seek_head (a\<lparr>an_raw := an_raw a @ bytes\<rparr>)) (\<lambda>(found, a). if \<not> found then Ok (False, a) else look_at_body a))"
  by (simp add: push_def look_at_body_def Let_def cong: if_cong)

definition looks :: "http1_answer \<Rightarrow> bytes \<Rightarrow> bool" where
  "looks a c = (case look_at_body a of
     Ok (whole, a') \<Rightarrow> an_raw a' = an_raw a \<and> an_head a' \<noteq> None \<and>
       (if whole then \<exists>a''. look_at_body (a\<lparr>an_raw := an_raw a @ c\<rparr>) = Ok (True, a'') \<and> answer_finish a'' = answer_finish a'
        else answer_ok a' \<and> look_at_body (a\<lparr>an_raw := an_raw a @ c\<rparr>) = look_at_body (a'\<lparr>an_raw := an_raw a @ c\<rparr>))
   | Err e \<Rightarrow> e = malformed_chunk ''a line too long'' \<or> look_at_body (a\<lparr>an_raw := an_raw a @ c\<rparr>) = Err e
   | Panic \<Rightarrow> False)"

lemma look_at_body_more:
  assumes "answer_ok a" "an_head a = Some h"
  shows "looks a c"
proof (cases "hd_framing h")
  case (Length n)
  then show ?thesis
    using assms by (auto simp: looks_def look_at_body_def answer_ok_def sl_def answer_finish_def)
next
  case Close
  then show ?thesis using assms by (auto simp: looks_def look_at_body_def answer_ok_def sl_def)
next
  case (Chunked d)
  let ?body = "drop (hd_body_start h) (an_raw a)"
  have ok: "hd_body_start h \<le> length (an_raw a)" "dc_ok d ?body" using assms Chunked by (auto simp: answer_ok_def)
  then have more: "drop (hd_body_start h) (an_raw a @ c) = ?body @ c" by simp
  have res: "resumes d ?body c" by (rule advance_more [OF ok(2)])
  show ?thesis
  proof (cases "advance d ?body")
    case (Ok r)
    obtain whole d' where r: "r = (whole, d')" by (cases r)
    show ?thesis
    proof (cases whole)
      case True
      then have "advance d (?body @ c) = Ok (True, d')" using res Ok r by (simp add: resumes_def)
      then show ?thesis
        using Ok r True assms(2) ok(1) Chunked more by (simp add: looks_def look_at_body_def sl_def answer_finish_def)
    next
      case False
      then have "advance d (?body @ c) = advance d' (?body @ c)" "dc_ok d' ?body" using res Ok r by (simp_all add: resumes_def)
      then show ?thesis
        using Ok r False assms(2) ok(1) Chunked more by (simp add: looks_def look_at_body_def sl_def answer_ok_def)
    qed
  next
    case (Err e)
    then show ?thesis using res assms(2) ok(1) Chunked more by (auto simp: looks_def look_at_body_def sl_def resumes_def)
  next
    case Panic
    then show ?thesis using res by (simp add: resumes_def)
  qed
qed

lemma settled_iff:
  "settled r = Ok (w, b) \<longleftrightarrow> (\<exists>a. r = Ok (w, a) \<and> settle a = b)" "settled r = Err e \<longleftrightarrow> r = Err e" "settled r = Panic \<longleftrightarrow> r = Panic"
  by (cases r; auto)+

lemma answer_finish_settle: "answer_finish (settle a) = answer_finish a"
  by (simp add: answer_finish_def split: option.split)

lemma finish_same: "settle a = settle b \<Longrightarrow> answer_finish a = answer_finish b"
  by (metis answer_finish_settle)

lemma look_at_body_settle: "settle a = settle b \<Longrightarrow> settled (look_at_body a) = settled (look_at_body b)"
proof -
  have "settled (look_at_body (settle a)) = settled (look_at_body a)" for a
  proof (cases "an_head a")
    case None
    then show ?thesis by (simp add: settle_def)
  next
    case (Some h)
    show ?thesis
    proof (cases "hd_framing h")
      case (Chunked d)
      then show ?thesis using Some
        by (cases "advance d (drop (hd_body_start h) (an_raw a))") (auto simp: look_at_body_def sl_def settle_def)
    qed (use Some in \<open>simp_all add: look_at_body_def sl_def settle_def\<close>)
  qed
  then show "settle a = settle b \<Longrightarrow> ?thesis" by metis
qed

lemma look_after:
  assumes "settled x = settled y"
  shows "settled (bnd x (\<lambda>(found, a). if \<not> found then Ok (False, a) else look_at_body a)) =
    settled (bnd y (\<lambda>(found, a). if \<not> found then Ok (False, a) else look_at_body a))"
proof (cases x)
  case (Ok r)
  obtain w a where r: "r = (w, a)" by (cases r)
  then obtain b where "y = Ok (w, b)" "settle a = settle b" using assms Ok by (cases y) auto
  then show ?thesis using Ok r look_at_body_settle [of a b] by (cases w) auto
next
  case (Err e)
  then show ?thesis using assms settled_iff(2) [of y e] by simp
next
  case Panic
  then show ?thesis using assms settled_iff(3) [of y] by simp
qed

definition pushes :: "http1_answer \<Rightarrow> bytes \<Rightarrow> bytes \<Rightarrow> bool" where
  "pushes a p q = (case push p a of
     Ok (whole, a') \<Rightarrow> an_raw a' = an_raw a @ p \<and>
       (if whole then \<exists>a''. push (p @ q) a = Ok (True, a'') \<and> answer_finish a'' = answer_finish a'
        else answer_ok a' \<and> settled (push (p @ q) a) = settled (push q a'))
   | Err e \<Rightarrow> e = malformed_chunk ''a line too long'' \<or> push (p @ q) a = Err e
   | Panic \<Rightarrow> False)"

lemma push_found:
  assumes "an_head a = Some h" "length (an_raw a @ q) \<le> MAX_BODY"
  shows "push q a = look_at_body (a\<lparr>an_raw := an_raw a @ q\<rparr>)"
  using assms by (simp add: push_eq) (subst seek_head.simps, simp)

lemma pushes_found:
  assumes first: "push p a = look_at_body b" and all: "settled (push (p @ q) a) = settled (look_at_body (b\<lparr>an_raw := an_raw b @ q\<rparr>))"
    and b: "an_raw b = an_raw a @ p" "an_head b = Some h" "answer_ok b" and size: "length (an_raw a @ p @ q) \<le> MAX_BODY"
  shows "pushes a p q"
proof -
  have looks: "looks b q" using look_at_body_more b by blast
  show ?thesis
  proof (cases "look_at_body b")
    case look: (Ok r)
    obtain whole a' where r: "r = (whole, a')" by (cases r)
    show ?thesis
    proof (cases whole)
      case True
      then obtain a'' where a'': "look_at_body (b\<lparr>an_raw := an_raw b @ q\<rparr>) = Ok (True, a'')" "answer_finish a'' = answer_finish a'"
          "an_raw a' = an_raw b"
        using looks look r by (auto simp: looks_def)
      have "settled (push (p @ q) a) = Ok (True, settle a'')" using all a''(1) by simp
      then obtain a3 where a3: "push (p @ q) a = Ok (True, a3)" "settle a3 = settle a''" unfolding settled_iff by blast
      have "answer_finish a3 = answer_finish a'" using finish_same [OF a3(2)] a''(2) by simp
      then show ?thesis using first a''(3) a3(1) look r True b(1) by (simp add: pushes_def)
    next
      case False
      then have a': "an_raw a' = an_raw b" "an_head a' \<noteq> None" "answer_ok a'"
          "look_at_body (b\<lparr>an_raw := an_raw b @ q\<rparr>) = look_at_body (a'\<lparr>an_raw := an_raw b @ q\<rparr>)"
        using looks look r by (auto simp: looks_def)
      obtain h' where "an_head a' = Some h'" using a'(2) by auto
      then have "push q a' = look_at_body (a'\<lparr>an_raw := an_raw b @ q\<rparr>)"
        using push_found [of a' h' q] size a'(1) b(1) by simp
      then show ?thesis using first all look r False a' b(1) by (simp add: pushes_def)
    qed
  next
    case (Err e)
    then have "e = malformed_chunk ''a line too long'' \<or> push (p @ q) a = Err e"
      using looks all settled_iff(2) [of "push (p @ q) a" e] by (auto simp: looks_def)
    then show ?thesis using Err first by (simp add: pushes_def)
  next
    case Panic
    then show ?thesis using looks by (simp add: looks_def)
  qed
qed

text \<open>Taking the bytes of an answer in two pieces is taking them in one, but for lines that are too long.\<close>

lemma push_more:
  assumes ok: "answer_ok a" and size: "length (an_raw a @ p @ q) \<le> MAX_BODY"
  shows "pushes a p q"
proof (cases "an_head a")
  case (Some h)
  let ?b = "a\<lparr>an_raw := an_raw a @ p\<rparr>"
  have "push p a = look_at_body ?b" using push_found [OF Some, of p] size by simp
  moreover have "push (p @ q) a = look_at_body (?b\<lparr>an_raw := an_raw ?b @ q\<rparr>)" using push_found [OF Some, of "p @ q"] size by simp
  moreover have "answer_ok ?b" using ok Some by (auto simp: answer_ok_def dc_ok_more)
  ultimately show ?thesis using Some size by (intro pushes_found [of p a ?b]) simp_all
next
  case None
  define b where "b = a\<lparr>an_raw := an_raw a @ p\<rparr>"
  define long where "long = b\<lparr>an_raw := an_raw b @ q\<rparr>"
  have raw: "an_raw b = an_raw a @ p" "an_head b = None" using None by (simp_all add: b_def)
  have both: "push p a = bnd (seek_head b) (\<lambda>(found, a). if \<not> found then Ok (False, a) else look_at_body a)"
      "push (p @ q) a = bnd (seek_head long) (\<lambda>(found, a). if \<not> found then Ok (False, a) else look_at_body a)"
    using size by (simp_all add: push_eq b_def long_def)
  have "head_ok a" using ok None by (simp add: answer_ok_def)
  then have "head_ok b" unfolding b_def by (rule head_ok_more)
  then have seeks: "seeks b q" using seek_head_more raw(2) by simp
  show ?thesis
  proof (cases "seek_head b")
    case (Ok r)
    obtain found b' where r: "r = (found, b')" by (cases r)
    show ?thesis
    proof (cases found)
      case False
      then have b': "an_raw b' = an_raw b" "head_ok b'" "an_head b' = None"
          "settled (seek_head long) = settled (seek_head (b'\<lparr>an_raw := an_raw b @ q\<rparr>))"
        using seeks Ok r by (simp_all add: seeks_def long_def)
      have "push q b' = bnd (seek_head (b'\<lparr>an_raw := an_raw b @ q\<rparr>)) (\<lambda>(found, a). if \<not> found then Ok (False, a) else look_at_body a)"
        using size raw(1) b'(1) by (simp add: push_eq)
      then have "settled (push (p @ q) a) = settled (push q b')" unfolding both(2) by (simp only: look_after [OF b'(4)])
      then show ?thesis using both(1) Ok r False b' raw(1) by (simp add: pushes_def answer_ok_def)
    next
      case True
      then obtain h where h: "an_raw b' = an_raw b" "an_head b' = Some h" "hd_body_start h \<le> length (an_raw b)"
          "\<forall>d. hd_framing h = Chunked d \<longrightarrow> d = dechunker_default"
          "settled (seek_head long) = Ok (True, settle (b'\<lparr>an_raw := an_raw b @ q\<rparr>))"
        using seeks Ok r by (auto simp: seeks_def long_def)
      obtain b2 where b2: "seek_head long = Ok (True, b2)" "settle b2 = settle (b'\<lparr>an_raw := an_raw b @ q\<rparr>)"
        using h(5) settled_iff(1) by blast
      have "settled (push (p @ q) a) = settled (look_at_body (b'\<lparr>an_raw := an_raw b' @ q\<rparr>))"
        using both(2) b2(1) look_at_body_settle [OF b2(2)] h(1) by simp
      moreover have "answer_ok b'" using h by (auto simp: answer_ok_def dc_ok_def dechunker_default_def)
      moreover have "push p a = look_at_body b'" using both(1) Ok r True by simp
      ultimately show ?thesis using h(1,2) raw(1) size by (intro pushes_found [of p a b']) simp_all
    qed
  next
    case (Err e)
    then have "seek_head long = Err e" using seeks by (simp add: seeks_def long_def)
    then show ?thesis using both Err by (simp add: pushes_def)
  next
    case Panic
    then show ?thesis using seeks by (simp add: seeks_def)
  qed
qed

text \<open>Reading piece by piece as the pieces come.\<close>

lemma push_settledD:
  assumes "answer_ok a" "push p a = Ok (False, b)" "length (an_raw a @ p @ q) \<le> MAX_BODY"
  shows "an_raw b = an_raw a @ p" "answer_ok b" "settled (push (p @ q) a) = settled (push q b)"
  using push_more [OF assms(1,3)] assms(2) by (simp_all add: pushes_def)

lemma answer_segs_cut:
  assumes "clean r" "answer_ok a" "\<exists>a'. push [] a = Ok (False, a') \<and> answer_finish a' = answer_finish a" "length (an_raw a @ sent r) \<le> MAX_BODY"
  shows "case fst (answer_segs a r) of
      Ok a' \<Rightarrow> \<exists>whole a''. push (sent r) a = Ok (whole, a'') \<and> answer_finish a'' = answer_finish a'
    | Err e \<Rightarrow> \<exists>k. push (take k (sent r)) a = Err e
    | Panic \<Rightarrow> False"
  using assms
proof (induction a r rule: answer_segs.induct)
  case (1 a r)
  obtain b q where b: "read_segs 8192 r = (Ok b, q)" "sent r = b @ sent q" "clean q" "b = [] \<longrightarrow> sent r = []"
    using read_segs_sent [OF "1.prems"(1), of 8192] by auto
  have size: "length (an_raw a @ b @ sent q) \<le> MAX_BODY" using "1.prems"(4) b(2) by simp
  have pushes: "pushes a b (sent q)" by (rule push_more [OF "1.prems"(2) size])
  show ?case
  proof (cases "b = []")
    case True
    then show ?thesis using b "1.prems"(3) by (auto simp: answer_segs.simps [of a r])
  next
    case ne: False
    show ?thesis
    proof (cases "push b a")
      case (Ok w)
      obtain whole a1 where w: "w = (whole, a1)" by (cases w)
      show ?thesis
      proof (cases whole)
        case True
        then show ?thesis using b(1,2) ne Ok w pushes by (auto simp: answer_segs.simps [of a r] pushes_def)
      next
        case False
        have first: "push b a = Ok (False, a1)" using Ok w False by simp
        have small: "length (an_raw a @ b @ take k (sent q)) \<le> MAX_BODY" for k using size by simp
        have a1: "an_raw a1 = an_raw a @ b" "answer_ok a1" "settled (push (b @ take k (sent q)) a) = settled (push (take k (sent q)) a1)" for k
          using push_settledD [OF "1.prems"(2) first small] by blast+
        have "\<exists>a'. push [] a1 = Ok (False, a') \<and> answer_finish a' = answer_finish a1"
        proof -
          have "settled (push [] a1) = Ok (False, settle a1)" using a1(3) [of 0] first by simp
          then show ?thesis unfolding settled_iff using finish_same by blast
        qed
        then have IH: "case fst (answer_segs a1 q) of
              Ok a' \<Rightarrow> \<exists>whole a''. push (sent q) a1 = Ok (whole, a'') \<and> answer_finish a'' = answer_finish a'
            | Err e \<Rightarrow> \<exists>k. push (take k (sent q)) a1 = Err e
            | Panic \<Rightarrow> False"
          using "1.IH" [OF b(1) [symmetric] refl ne Ok w [symmetric] False b(3) a1(2)] size a1(1) by simp
        have step: "answer_segs a r = answer_segs a1 q" using b(1) ne Ok w False by (simp add: answer_segs.simps [of a r])
        show ?thesis
        proof (cases "fst (answer_segs a1 q)")
          case (Ok a')
          then obtain whole a'' where a'': "push (sent q) a1 = Ok (whole, a'')" "answer_finish a'' = answer_finish a'" using IH by auto
          then have "settled (push (sent r) a) = Ok (whole, settle a'')" using a1(3) [of "length (sent q)"] b(2) by simp
          then obtain a3 where "push (sent r) a = Ok (whole, a3)" "settle a3 = settle a''" unfolding settled_iff by blast
          then have "push (sent r) a = Ok (whole, a3)" "answer_finish a3 = answer_finish a'" using finish_same [of a3 a''] a''(2) by simp_all
          then show ?thesis unfolding step Ok run.case by blast
        next
          case (Err e)
          then obtain k where "push (take k (sent q)) a1 = Err e" using IH by auto
          then have "push (take (length b + k) (sent r)) a = Err e" using a1(3) [of k] b(2) settled_iff(2) [of "push (b @ take k (sent q)) a" e] by simp
          then show ?thesis unfolding step Err run.case by blast
        next
          case Panic
          then show ?thesis using IH by simp
        qed
      qed
    next
      case (Err e)
      then have "push (take (length b) (sent r)) a = Err e" using b(2) by simp
      then show ?thesis using b(1) ne Err by (auto simp: answer_segs.simps [of a r])
    next
      case Panic
      then show ?thesis using pushes by (simp add: pushes_def)
    qed
  qed
qed

lemma answer_default_ok:
  "answer_ok answer_default" "\<exists>a'. push [] answer_default = Ok (False, a') \<and> answer_finish a' = answer_finish answer_default"
  "an_raw answer_default = []"
proof -
  show ok: "answer_ok answer_default" "an_raw answer_default = []" by (simp_all add: answer_ok_def head_ok_def answer_default_def)
  show "\<exists>a'. push [] answer_default = Ok (False, a') \<and> answer_finish a' = answer_finish answer_default"
    by (simp add: push_eq answer_default_def MAX_BODY_def) (subst seek_head.simps, simp add: sl_def)
qed

lemma over_http1_eq:
  assumes "writes s = []"
  shows "fst (over_http1 http request s) =
    bnd (fst (answer_segs answer_default (rx s))) (\<lambda>a. bnd (answer_finish a) (response_of http))"
proof -
  obtain r q where "answer_segs answer_default (rx s) = (r, q)" by (cases "answer_segs answer_default (rx s)")
  then show ?thesis using assms by (cases r) (simp_all add: over_http1_def seq_def write_all_def)
qed

section \<open>Lemmas: whole answers\<close>

definition line_ok :: "bytes \<Rightarrow> bool" where
  "line_ok l \<longleftrightarrow> find_sub [13, 10] l = None \<and> length l < MAX_LINE"

lemma find_line: "find_sub [13, 10] l = None \<Longrightarrow> find_sub [13, 10] (l @ 13 # 10 # t) = Some (length l)"
  by (induction l rule: induct_list012) (auto simp: starts_with_def split: if_splits)

lemma find_sub_cut:
  assumes "p \<noteq> []" "find_sub p s = Some n"
  shows "find_sub p (take k s) = (if n + length p \<le> k then Some n else None)"
proof -
  have s: "s = take k s @ drop k s" by simp
  have len: "n + length p \<le> length s" using assms starts_with_length [of "drop n s" p] by (cases p) (auto simp: find_sub_Some)
  show ?thesis
  proof (cases "n + length p \<le> k")
    case True
    then show ?thesis using find_sub_prefix [OF assms(1), of "take k s" "drop k s" n] assms(2) len by simp
  next
    case False
    then show ?thesis using find_sub_before [OF assms(1), of "take k s" "drop k s" n] assms(2) len by simp
  qed
qed

text \<open>One line at the beginning of what is left of a body that has come up to some point.\<close>

lemma advance_line_at:
  assumes st: "\<not> dc_done st" "dc_data st = None" "dc_searched st = dc_at st" "dc_at st = length pre" "length pre \<le> k"
    and l: "line_ok l" and whole: "whole = pre @ l @ 13 # 10 # t"
  shows "advance st (take k whole) =
    (if k < length pre + length l + 2 then Ok (False, st\<lparr>dc_searched := length (take k whole)\<rparr>)
     else let st' = st\<lparr>dc_at := length pre + length l + 2, dc_searched := length pre + length l + 2\<rparr> in
       if dc_trailer st then advance (st'\<lparr>dc_done := l = []\<rparr>) (take k whole)
       else case chunk_size l of
         None \<Rightarrow> Err (malformed_chunk ''a bad chunk size'')
       | Some n \<Rightarrow> advance (if n = 0 then st'\<lparr>dc_trailer := True\<rparr> else st'\<lparr>dc_data := Some n\<rparr>) (take k whole))"
proof -
  have rest: "drop (length pre) (take k whole) = take (k - length pre) (l @ 13 # 10 # t)" by (simp only: whole drop_take drop_append) simp
  have ok: "dc_ok st (take k whole)" using st whole by (intro dc_ok_at) simp_all
  have find: "find_sub [13, 10] (drop (dc_at st) (take k whole)) = (if length pre + length l + 2 \<le> k then Some (length l) else None)"
    unfolding st(4) rest using l st(5) find_line [of l t] by (subst find_sub_cut [of _ _ "length l"]) (auto simp: line_ok_def)
  show ?thesis
  proof (cases "k < length pre + length l + 2")
    case True
    have "length (take k whole) - dc_at st \<le> MAX_LINE" using True st(4) l by (auto simp: whole line_ok_def)
    then show ?thesis unfolding advance_line [OF ok st(1,2)] find using True by simp
  next
    case False
    have "take (length l) (drop (dc_at st) (take k whole)) = l" unfolding st(4) rest using False by simp
    then show ?thesis unfolding advance_line [OF ok st(1,2)] find using False st(4) by (simp add: Let_def)
  qed
qed

definition ends_as :: "dechunker \<Rightarrow> bytes \<Rightarrow> bool \<Rightarrow> bytes \<Rightarrow> bool" where
  "ends_as st body whole data \<longleftrightarrow> (\<exists>st'. advance st body = Ok (whole, st') \<and> dc_done st' = whole \<and> (whole \<longrightarrow> dc_joined st' = data))"

definition trailer_bytes :: "bytes list \<Rightarrow> bytes" where
  "trailer_bytes ls = concat (map (\<lambda>l. l @ [13, 10]) ls) @ [13, 10]"

lemma advance_trailer:
  assumes "\<not> dc_done st" "dc_data st = None" "dc_searched st = dc_at st" "dc_at st = length pre" "length pre \<le> k" "dc_trailer st"
    and "list_all (\<lambda>l. line_ok l \<and> l \<noteq> []) ls" and whole: "whole = pre @ trailer_bytes ls @ t"
  shows "ends_as st (take k whole) (length (pre @ trailer_bytes ls) \<le> k) (dc_joined st)"
  using assms(1-6,7) whole
proof (induction ls arbitrary: st pre)
  case Nil
  have "whole = pre @ [] @ 13 # 10 # t" "line_ok []" using Nil.prems(8) by (simp_all add: trailer_bytes_def line_ok_def MAX_LINE_def)
  note adv = advance_line_at [OF Nil.prems(1-5) this(2,1)]
  show ?case
  proof (cases "k < length pre + 2")
    case True
    then show ?thesis using adv Nil.prems(1) by (simp add: ends_as_def trailer_bytes_def)
  next
    case False
    then show ?thesis using adv Nil.prems(6) by (simp add: ends_as_def trailer_bytes_def advance_done Let_def)
  qed
next
  case (Cons l ls)
  have w: "whole = pre @ l @ 13 # 10 # trailer_bytes ls @ t" "line_ok l" "l \<noteq> []" using Cons.prems(7,8) by (simp_all add: trailer_bytes_def)
  note adv = advance_line_at [OF Cons.prems(1-5) w(2,1)]
  show ?case
  proof (cases "k < length pre + length l + 2")
    case True
    then show ?thesis using adv Cons.prems(1) by (simp add: ends_as_def trailer_bytes_def)
  next
    case False
    let ?st = "st\<lparr>dc_at := length pre + length l + 2, dc_searched := length pre + length l + 2, dc_done := False\<rparr>"
    have "ends_as ?st (take k whole) (length ((pre @ l @ [13, 10]) @ trailer_bytes ls) \<le> k) (dc_joined ?st)"
      using Cons.prems w False by (intro Cons.IH) (simp_all)
    moreover have "advance st (take k whole) = advance ?st (take k whole)"
      using adv False Cons.prems(6) w(3) by (simp add: Let_def)
    ultimately show ?thesis by (simp add: ends_as_def trailer_bytes_def add.assoc)
  qed
qed

definition chunk_bytes :: "bytes \<times> bytes \<Rightarrow> bytes" where
  "chunk_bytes chunk = fst chunk @ [13, 10] @ snd chunk @ [13, 10]"

definition chunked_bytes :: "(bytes \<times> bytes) list \<Rightarrow> bytes \<Rightarrow> bytes list \<Rightarrow> bytes" where
  "chunked_bytes chunks last_line ls = concat (map chunk_bytes chunks) @ last_line @ [13, 10] @ trailer_bytes ls"

definition chunk_ok :: "bytes \<times> bytes \<Rightarrow> bool" where
  "chunk_ok chunk \<longleftrightarrow> line_ok (fst chunk) \<and> chunk_size (fst chunk) = Some (length (snd chunk)) \<and> snd chunk \<noteq> []"

lemma advance_chunks:
  assumes "\<not> dc_done st" "dc_data st = None" "dc_searched st = dc_at st" "dc_at st = length pre" "length pre \<le> k" "\<not> dc_trailer st"
    and "list_all chunk_ok chunks" "whole = pre @ chunked_bytes chunks last_line ls @ t" "length whole < 2 ^ 64"
    and zero: "line_ok last_line" "chunk_size last_line = Some 0" and ls: "list_all (\<lambda>l. line_ok l \<and> l \<noteq> []) ls"
  shows "ends_as st (take k whole) (length (pre @ chunked_bytes chunks last_line ls) \<le> k) (dc_joined st @ concat (map snd chunks))"
  using assms(1-9)
proof (induction chunks arbitrary: st pre)
  case Nil
  have w: "whole = pre @ last_line @ 13 # 10 # trailer_bytes ls @ t" using Nil.prems(8) by (simp add: chunked_bytes_def)
  note adv = advance_line_at [OF Nil.prems(1-5) zero(1) w]
  show ?case
  proof (cases "k < length pre + length last_line + 2")
    case True
    then show ?thesis using adv Nil.prems(1) by (simp add: ends_as_def chunked_bytes_def)
  next
    case False
    let ?st = "st\<lparr>dc_at := length pre + length last_line + 2, dc_searched := length pre + length last_line + 2, dc_trailer := True\<rparr>"
    have "ends_as ?st (take k whole) (length ((pre @ last_line @ [13, 10]) @ trailer_bytes ls) \<le> k) (dc_joined ?st)"
      using Nil.prems w False ls by (intro advance_trailer) simp_all
    moreover have "advance st (take k whole) = advance ?st (take k whole)"
      using adv False Nil.prems(6) zero(2) by (simp add: Let_def)
    ultimately show ?thesis by (simp add: ends_as_def chunked_bytes_def add.assoc)
  qed
next
  case (Cons chunk chunks)
  obtain l d where chunk: "chunk = (l, d)" by (cases chunk)
  have ok: "line_ok l" "chunk_size l = Some (length d)" "d \<noteq> []" using Cons.prems(7) chunk by (simp_all add: chunk_ok_def)
  have w: "whole = pre @ l @ 13 # 10 # d @ 13 # 10 # chunked_bytes chunks last_line ls @ t"
    using Cons.prems(8) chunk by (simp add: chunked_bytes_def chunk_bytes_def)
  note adv = advance_line_at [OF Cons.prems(1-5) ok(1) w]
  show ?case
  proof (cases "k < length pre + length l + 2")
    case True
    then show ?thesis using adv Cons.prems(1) chunk by (simp add: ends_as_def chunked_bytes_def chunk_bytes_def)
  next
    case False
    define n where "n = length pre + length l + 2"
    define st1 where "st1 = st\<lparr>dc_at := n, dc_searched := n, dc_data := Some (length d)\<rparr>"
    have step: "advance st (take k whole) = advance st1 (take k whole)"
      using adv False Cons.prems(6) ok(2,3) by (simp add: Let_def st1_def n_def)
    have st1: "\<not> dc_done st1" "dc_data st1 = Some (length d)" "dc_at st1 = n" using Cons.prems(1) by (simp_all add: st1_def)
    have small: "\<not> 2 ^ 64 \<le> n + length d + 2" using Cons.prems(9) w by (simp add: n_def)
    have rest: "drop n (take k whole) = take (k - n) (d @ 13 # 10 # chunked_bytes chunks last_line ls @ t)"
      unfolding n_def drop_take by (simp add: w)
    show ?thesis
    proof (cases "k < n + length d + 2")
      case True
      then have "advance st1 (take k whole) = Ok (False, st1)"
        using advance_data [OF st1(1,2), of "take k whole"] small st1(3) by simp
      then show ?thesis using True step st1(1) chunk by (simp add: ends_as_def chunked_bytes_def chunk_bytes_def n_def)
    next
      case more: False
      let ?st = "st\<lparr>dc_joined := dc_joined st @ d, dc_at := n + length d + 2, dc_searched := n + length d + 2, dc_data := None\<rparr>"
      have data: "take (length d) (drop n (take k whole)) = d" "take 2 (drop (n + length d) (take k whole)) = [13, 10]"
        using more unfolding rest by (simp_all add: w n_def drop_take)
      have long: "\<not> length (take k whole) < n + length d + 2" using more w by (simp add: n_def)
      have "advance st1 (take k whole) = advance ?st (take k whole)"
        using advance_data [OF st1(1,2), of "take k whole"] small st1(3) long data by (simp add: st1_def)
      moreover have "ends_as ?st (take k whole) (length ((pre @ l @ [13, 10] @ d @ [13, 10]) @ chunked_bytes chunks last_line ls) \<le> k)
          (dc_joined ?st @ concat (map snd chunks))"
        using Cons.prems w more by (intro Cons.IH) (simp_all add: n_def)
      ultimately show ?thesis using step chunk by (simp add: ends_as_def chunked_bytes_def chunk_bytes_def add.assoc)
    qed
  qed
qed

abbreviation blank_line :: bytes where "blank_line \<equiv> [13, 10, 13, 10]"

definition head_at :: "bytes \<Rightarrow> bool" where
  "head_at h \<longleftrightarrow> find_sub blank_line (h @ blank_line) = Some (length h)"

definition interim :: "bytes \<Rightarrow> bool" where
  "interim h \<longleftrightarrow> (case http1_head_of h of Ok (status, _) \<Rightarrow> 100 \<le> status \<and> status < 200 \<and> status \<noteq> 101 | _ \<Rightarrow> False)"

definition heads_bytes :: "bytes list \<Rightarrow> bytes" where
  "heads_bytes hs = concat (map (\<lambda>h. h @ blank_line) hs)"

lemma seek_head_at:
  assumes a: "an_head a = None" "an_searched a = an_head_start a" "an_head_start a = length pre" "length pre \<le> k"
    and "an_raw a = take k whole" "whole = pre @ h @ blank_line @ t" "head_at h"
  shows "seek_head a =
    (if k < length pre + length h + 4 then Ok (False, a\<lparr>an_searched := length (take k whole)\<rparr>)
     else bnd (http1_head_of h) (\<lambda>(status, fs).
        if 100 \<le> status \<and> status < 200 \<and> status \<noteq> 101
        then seek_head (a\<lparr>an_head_start := length pre + length h + 4, an_searched := length pre + length h + 4\<rparr>)
        else bnd (framing_of status fs) (\<lambda>framing.
          Ok (True, a\<lparr>an_head := Some \<lparr>hd_status = status, hd_fields = fs, hd_body_start = length pre + length h + 4, hd_framing = framing\<rparr>\<rparr>))))"
proof -
  have rest: "drop (length pre) (an_raw a) = take (k - length pre) (h @ blank_line @ t)"
    by (simp only: assms(5,6) drop_take drop_append) simp
  have ok: "head_ok a" using assms(2-6) by (simp add: head_ok_def)
  have "find_sub blank_line (h @ blank_line @ t) = Some (length h)"
    using find_sub_more [of blank_line "h @ blank_line" "length h" t] assms(7) by (simp add: head_at_def)
  then have find: "find_sub blank_line (drop (an_head_start a) (an_raw a)) = (if length pre + length h + 4 \<le> k then Some (length h) else None)"
    unfolding assms(3) rest using a(4) by (subst find_sub_cut [of _ _ "length h"]) auto
  show ?thesis
  proof (cases "k < length pre + length h + 4")
    case True
    then show ?thesis unfolding seek_head_eq [OF ok a(1)] find using assms(5) by simp
  next
    case False
    have "take (length h) (drop (length pre) (an_raw a)) = h" unfolding rest using False by simp
    then show ?thesis unfolding seek_head_eq [OF ok a(1)] find unfolding a(3) using False by simp
  qed
qed

lemma seek_heads:
  assumes "an_head a = None" "an_searched a = an_head_start a" "an_head_start a = length pre" "length pre \<le> k"
    and "an_raw a = take k whole" "whole = pre @ heads_bytes hs @ h @ blank_line @ t" "list_all (\<lambda>h. head_at h \<and> interim h) hs"
    and h: "head_at h" "\<not> interim h" "http1_head_of h = Ok (status, fs)" "framing_of status fs = Ok framing"
  shows "\<exists>a'. seek_head a = Ok (length (pre @ heads_bytes hs @ h @ blank_line) \<le> k, a') \<and> an_raw a' = an_raw a \<and>
    an_head a' = (if length (pre @ heads_bytes hs @ h @ blank_line) \<le> k then Some \<lparr>hd_status = status, hd_fields = fs,
       hd_body_start = length (pre @ heads_bytes hs @ h @ blank_line), hd_framing = framing\<rparr> else None)"
  using assms(1-7)
proof (induction hs arbitrary: a pre)
  case Nil
  have "whole = pre @ h @ blank_line @ t" using Nil.prems(6) by (simp add: heads_bytes_def)
  note eq = seek_head_at [OF Nil.prems(1-5) this h(1)]
  show ?case using eq h(2-4) Nil.prems(1) by (auto simp: interim_def heads_bytes_def)
next
  case (Cons g hs)
  have w: "whole = pre @ g @ blank_line @ heads_bytes hs @ h @ blank_line @ t" using Cons.prems(6) by (simp add: heads_bytes_def)
  have g: "head_at g" "interim g" using Cons.prems(7) by simp_all
  note eq = seek_head_at [OF Cons.prems(1-5) w g(1)]
  show ?case
  proof (cases "k < length pre + length g + 4")
    case True
    then show ?thesis using eq Cons.prems(1) by (simp add: heads_bytes_def)
  next
    case False
    let ?a = "a\<lparr>an_head_start := length pre + length g + 4, an_searched := length pre + length g + 4\<rparr>"
    have "seek_head a = seek_head ?a" using eq False g(2) by (auto simp: interim_def split: run.splits)
    moreover have "\<exists>a'. seek_head ?a = Ok (length ((pre @ g @ blank_line) @ heads_bytes hs @ h @ blank_line) \<le> k, a') \<and> an_raw a' = an_raw ?a \<and>
        an_head a' = (if length ((pre @ g @ blank_line) @ heads_bytes hs @ h @ blank_line) \<le> k then Some \<lparr>hd_status = status, hd_fields = fs,
          hd_body_start = length ((pre @ g @ blank_line) @ heads_bytes hs @ h @ blank_line), hd_framing = framing\<rparr> else None)"
    proof (rule Cons.IH)
      show "whole = (pre @ g @ blank_line) @ heads_bytes hs @ h @ blank_line @ t" using w by simp
    qed (use Cons.prems(1,5,7) False in simp_all)
    moreover have "an_raw ?a = an_raw a" by simp
    moreover have "(pre @ g @ blank_line) @ heads_bytes hs @ h @ blank_line = pre @ heads_bytes (g # hs) @ h @ blank_line"
      by (simp add: heads_bytes_def)
    ultimately show ?thesis by (simp only:)
  qed
qed

text \<open>The bytes of a body and the data they carry, for an end that the head tells.\<close>

definition body_ok :: "framing \<Rightarrow> bytes \<Rightarrow> bytes \<Rightarrow> bool" where
  "body_ok framing body data \<longleftrightarrow> (case framing of
     Length n \<Rightarrow> body = data \<and> length data = n
   | Chunked _ \<Rightarrow> (\<exists>chunks last_line ls. body = chunked_bytes chunks last_line ls \<and> data = concat (map snd chunks) \<and>
       list_all chunk_ok chunks \<and> line_ok last_line \<and> chunk_size last_line = Some 0 \<and> list_all (\<lambda>l. line_ok l \<and> l \<noteq> []) ls)
   | Close \<Rightarrow> False)"

lemma push_answer:
  assumes hs: "list_all (\<lambda>h. head_at h \<and> interim h) hs"
    and h: "head_at h" "\<not> interim h" "http1_head_of h = Ok (status, fs)" "framing_of status fs = Ok framing"
    and body: "body_ok framing body data" and whole: "whole = heads_bytes hs @ h @ blank_line @ body @ t" and size: "length whole \<le> MAX_BODY"
  shows "\<exists>w a. push (take k whole) answer_default = Ok (w, a) \<and>
    (if length (heads_bytes hs @ h @ blank_line @ body) \<le> k then answer_finish a = Ok (status, fs, data) else \<exists>e. answer_finish a = Err e)"
proof -
  define n where "n = length (heads_bytes hs @ h @ blank_line)"
  let ?a = "answer_default\<lparr>an_raw := take k whole\<rparr>"
  have "\<exists>a'. seek_head ?a = Ok (n \<le> k, a') \<and> an_raw a' = an_raw ?a \<and>
      an_head a' = (if n \<le> k then Some \<lparr>hd_status = status, hd_fields = fs, hd_body_start = n, hd_framing = framing\<rparr> else None)"
    unfolding n_def
    by (rule seek_heads [of ?a "[]" k whole hs h "body @ t", unfolded append_Nil, OF _ _ _ _ _ _ hs h])
      (simp_all add: answer_default_def whole)
  then obtain a where a: "seek_head ?a = Ok (n \<le> k, a)" "an_raw a = take k whole"
      "an_head a = (if n \<le> k then Some \<lparr>hd_status = status, hd_fields = fs, hd_body_start = n, hd_framing = framing\<rparr> else None)"
    by auto
  have push: "push (take k whole) answer_default = (if n \<le> k then look_at_body a else Ok (False, a))"
    using size a(1) by (simp add: push_eq) (simp add: answer_default_def)
  have "whole = (heads_bytes hs @ h @ blank_line) @ body @ t" by (simp add: whole)
  then have "drop n whole = body @ t" "n \<le> length whole" unfolding n_def by simp_all
  then have rest: "drop n (take k whole) = take (k - n) (body @ t)" "n \<le> length whole" by (simp_all only: drop_take)
  show ?thesis
  proof (cases "n \<le> k")
    case False
    then show ?thesis using push a(3) by (auto simp: answer_finish_def n_def)
  next
    case head: True
    have start: "n \<le> length (take k whole)" using head rest(2) by simp
    have total: "length (heads_bytes hs @ h @ blank_line @ body) \<le> k \<longleftrightarrow> length body \<le> k - n" using head by (auto simp: n_def)
    have known: "an_head a = Some \<lparr>hd_status = status, hd_fields = fs, hd_body_start = n, hd_framing = framing\<rparr>"
        "push (take k whole) answer_default = look_at_body a" using push a(3) head by simp_all
    define r where "r = take (k - n) (body @ t)"
    have "take (length (take k whole) - n) (drop n (take k whole)) = r"
      unfolding r_def rest(1) [symmetric] by (rule take_all) simp
    then have body_so_far: "sl (an_raw a) n (length (an_raw a)) = (Ok r :: (aether_error, bytes) run)"
      using start unfolding sl_def a(2) by (simp only: if_True order_refl conj_absorb simp_thms)
    show ?thesis
    proof (cases framing)
      case (Length m)
      then have m: "body = data" "m = length data" using body by (simp_all add: body_ok_def)
      have look: "push (take k whole) answer_default = Ok (m \<le> length r, a)"
        using known body_so_far Length by (simp add: look_at_body_def)
      show ?thesis
      proof (cases "length body \<le> k - n")
        case True
        then have "length data \<le> length r" "take (length data) r = data" using m by (simp_all add: r_def)
        then show ?thesis unfolding total using look True known(1) body_so_far Length m by (auto simp: answer_finish_def sl_def)
      next
        case False
        then have "length r < length data" using m by (simp add: r_def)
        then show ?thesis unfolding total using look False known(1) body_so_far Length m by (auto simp: answer_finish_def)
      qed
    next
      case (Chunked d)
      then have d: "d = dechunker_default" using framing_chunked h(4) by simp
      obtain chunks last_line ls where c: "body = chunked_bytes chunks last_line ls" "data = concat (map snd chunks)"
          "list_all chunk_ok chunks" "line_ok last_line" "chunk_size last_line = Some 0" "list_all (\<lambda>l. line_ok l \<and> l \<noteq> []) ls"
        using body Chunked by (auto simp: body_ok_def)
      have "length (body @ t) < 2 ^ 64" using size by (simp add: whole MAX_BODY_def)
      then have "ends_as d r (length body \<le> k - n) data"
        using advance_chunks [of d "[]" "k - n" chunks "body @ t" last_line ls t] c d by (simp add: dechunker_default_def r_def)
      then obtain d' where d': "advance d r = Ok (length body \<le> k - n, d')" "dc_done d' = (length body \<le> k - n)"
          "length body \<le> k - n \<longrightarrow> dc_joined d' = data"
        by (auto simp: ends_as_def)
      define a' where "a' = a\<lparr>an_head := Some \<lparr>hd_status = status, hd_fields = fs, hd_body_start = n, hd_framing = Chunked d'\<rparr>\<rparr>"
      have look: "push (take k whole) answer_default = Ok (length body \<le> k - n, a')"
        using known body_so_far Chunked d'(1) by (simp add: look_at_body_def a'_def)
      have "answer_finish a' = bnd (dechunker_finish d') (\<lambda>body. Ok (status, fs, body))"
        using body_so_far by (simp add: answer_finish_def a'_def)
      then show ?thesis unfolding total using look d'(2,3) by (auto simp: dechunker_finish_def)
    next
      case Close
      then show ?thesis using body by (simp add: body_ok_def)
    qed
  qed
qed

lemma answer_segs_default:
  assumes "clean r" "length (sent r) \<le> MAX_BODY"
  shows "case fst (answer_segs answer_default r) of
      Ok a' \<Rightarrow> \<exists>whole a''. push (sent r) answer_default = Ok (whole, a'') \<and> answer_finish a'' = answer_finish a'
    | Err e \<Rightarrow> \<exists>k. push (take k (sent r)) answer_default = Err e
    | Panic \<Rightarrow> False"
  using answer_segs_cut [OF assms(1) answer_default_ok(1,2)] assms(2) answer_default_ok(3) by simp

lemma look_at_body_finish: "look_at_body a = Ok (w, b) \<Longrightarrow> answer_finish b \<noteq> Panic"
  by (auto simp: look_at_body_def answer_finish_def dechunker_finish_def bnd_Ok_iff bnd_Panic_iff sl_def split: option.splits if_splits framing.splits)

lemma push_finish:
  assumes "push p answer_default = Ok (w, b)"
  shows "answer_finish b \<noteq> Panic"
proof -
  let ?a = "answer_default\<lparr>an_raw := p\<rparr>"
  have "seeks ?a []" by (rule seek_head_more) (simp_all add: head_ok_def answer_default_def)
  moreover obtain found a where a: "seek_head ?a = Ok (found, a)" "if found then look_at_body a = Ok (w, b) else a = b"
    using assms by (auto simp: push_eq answer_default_ok(3) bnd_Ok_iff split: if_splits)
  ultimately have "\<not> found \<Longrightarrow> an_head a = None" by (simp add: seeks_def)
  then show ?thesis using a(2) look_at_body_finish [of a w b] by (cases found) (simp_all add: answer_finish_def)
qed

lemma response_safe:
  assumes "\<forall>n v m. map_append http n v m \<noteq> None"
  shows "response_of http answer \<noteq> Panic"
proof -
  have "collect_headers http fs m \<noteq> Panic" for fs m
  proof (induction fs arbitrary: m)
    case (Cons f fs)
    have some: "map_append http n v m = None \<longleftrightarrow> False" for n v m using assms by simp
    show ?case by (cases f) (auto simp: Cons.IH some split: option.split)
  qed simp
  then show ?thesis by (auto simp: response_of_def bnd_Panic_iff split: prod.split)
qed

text \<open>What is read from a stream is what one \<open>push\<close> of all of it makes of it, or the complaint about a line.\<close>

lemma over_http1_read:
  assumes "clean (rx s)" "writes s = []" "length (sent (rx s)) \<le> MAX_BODY"
  shows "fst (over_http1 http request s) =
      bnd (push (sent (rx s)) answer_default) (\<lambda>(_, a). bnd (answer_finish a) (response_of http)) \<or>
    fst (over_http1 http request s) = Err (malformed_chunk ''a line too long'')"
    (is "_ = ?read \<or> _")
    and "\<forall>n v m. map_append http n v m \<noteq> None \<Longrightarrow> fst (over_http1 http request s) \<noteq> Panic"
proof -
  note reads = over_http1_eq [OF assms(2), of http request]
  note cut = answer_segs_default [OF assms(1,3)]
  show "fst (over_http1 http request s) = ?read \<or> fst (over_http1 http request s) = Err (malformed_chunk ''a line too long'')"
  proof (cases "fst (answer_segs answer_default (rx s))")
    case (Ok a)
    then show ?thesis using cut reads by auto
  next
    case (Err e)
    then obtain k where k: "push (take k (sent (rx s))) answer_default = Err e" using cut by auto
    have "pushes answer_default (take k (sent (rx s))) (drop k (sent (rx s)))"
      using assms(3) by (intro push_more) (simp_all add: answer_default_ok)
    then have "e = malformed_chunk ''a line too long'' \<or> push (sent (rx s)) answer_default = Err e"
      using k by (simp add: pushes_def)
    then show ?thesis using reads Err by auto
  next
    case Panic
    then show ?thesis using cut by simp
  qed
  assume never: "\<forall>n v m. map_append http n v m \<noteq> None"
  show "fst (over_http1 http request s) \<noteq> Panic"
  proof (cases "fst (answer_segs answer_default (rx s))")
    case (Ok a)
    then obtain w b where "push (sent (rx s)) answer_default = Ok (w, b)" "answer_finish b = answer_finish a" using cut by auto
    then have "answer_finish a \<noteq> Panic" using push_finish by metis
    then show ?thesis using reads Ok response_safe [OF never] by (cases "answer_finish a") simp_all
  qed (use cut reads in simp_all)
qed

section \<open>Properties\<close>

text \<open>C4. An HTTP/1.1 answer is read exactly. Let a server send interim answers, the head of an answer that says where its
body ends, and that body, plain or in chunks with extensions and a trailer, however the stream is cut into reads. If
all of it comes, whatever follows it, the status, the fields and the data are returned; if the connection ends one
byte early, or anywhere before, the result is an error and never a shorter body.\<close>

theorem http1_answer_exact:
  assumes "clean (rx s)" "writes s = []" "list_all (\<lambda>h. head_at h \<and> interim h) hs"
    and "head_at h" "\<not> interim h" "http1_head_of h = Ok (status, fs)" "framing_of status fs = Ok framing" "body_ok framing body data"
    and "sent (rx s) = take k (heads_bytes hs @ h @ blank_line @ body @ rest)" "length (heads_bytes hs @ h @ blank_line @ body @ rest) \<le> MAX_BODY"
  shows "if length (heads_bytes hs @ h @ blank_line @ body) \<le> k
    then fst (over_http1 http request s) = response_of http (status, fs, data)
    else \<exists>e. fst (over_http1 http request s) = Err e"
proof -
  note answer = push_answer [OF assms(3-8) refl assms(10)]
  have size: "length (sent (rx s)) \<le> MAX_BODY" using assms(9,10) by simp
  have "fst (answer_segs answer_default (rx s)) \<noteq> Err e" for e
  proof
    assume "fst (answer_segs answer_default (rx s)) = Err e"
    then obtain j where "push (take j (sent (rx s))) answer_default = Err e" using answer_segs_default [OF assms(1) size] by auto
    then show False using answer [of "min j k"] unfolding assms(9) take_take by (auto simp del: take_append)
  qed
  then obtain a w b where a: "fst (answer_segs answer_default (rx s)) = Ok a" "push (sent (rx s)) answer_default = Ok (w, b)"
      "answer_finish b = answer_finish a"
    using answer_segs_default [OF assms(1) size] by (cases "fst (answer_segs answer_default (rx s))") auto
  have "if length (heads_bytes hs @ h @ blank_line @ body) \<le> k then answer_finish a = Ok (status, fs, data) else \<exists>e. answer_finish a = Err e"
    using answer [of k] a(2) unfolding a(3) [symmetric] assms(9) by (auto simp del: take_append)
  moreover have "fst (over_http1 http request s) = bnd (answer_finish a) (response_of http)"
    using over_http1_eq [OF assms(2), of http request] a(1) by simp
  ultimately show ?thesis by auto
qed

definition demo_heads :: "bytes list" where "demo_heads = [lit ''HTTP/1.1 100 Go on'']"

definition demo_head :: bytes where
  "demo_head = lit ''HTTP/1.1 200 OK'' @ [13, 10] @ lit ''Transfer-Encoding: Chunked''"

definition demo_chunks :: "(bytes \<times> bytes) list" where
  "demo_chunks = [(lit ''2;x=1'', lit ''ok''), (lit ''1'', lit ''!'')]"

definition demo_body :: bytes where
  "demo_body = chunked_bytes demo_chunks (lit ''0'') [lit ''X-Sum: 1'']"

definition demo_exchange :: sock where
  "demo_exchange = \<lparr>rx = [Chunk (take 9 (heads_bytes demo_heads @ demo_head @ blank_line @ demo_body)),
     Chunk (drop 9 (heads_bytes demo_heads @ demo_head @ blank_line @ demo_body))], tx = [], writes = []\<rparr>"

definition demo_crate :: "(str, str, (str \<times> str) list) http_crate" where
  "demo_crate = \<lparr>header_name = Some, header_value = Some, map_new = [],
     map_append = (\<lambda>n v m. if length m < 32768 then Some (m @ [(n, v)]) else None)\<rparr>"

definition demo_request :: https_request where
  "demo_request = \<lparr>hq_method = lit ''GET'', hq_host = lit ''example.org'', hq_port = 443, hq_path = lit ''/'', hq_headers = [], hq_body = None\<rparr>"

lemma demo_status:
  "http1_head_of (lit ''HTTP/1.1 100 Go on'') = Ok (100, [])"
  "http1_head_of demo_head = Ok (200, [(lit ''Transfer-Encoding'', lit ''Chunked'')])"
proof -
  have w: "split_whitespace (lit ''HTTP/1.1 200 OK'') = [lit ''HTTP/1.1'', lit ''200'', lit ''OK'']"
    using split_ws_words [of "lit ''HTTP/1.1''" "lit ''200''" "lit ''OK''"] by (simp add: lit_def visible_def ascii_ws_def)
  have n: "parse_u16 (lit ''100'') = Some 100" "parse_u16 (lit ''200'') = Some 200"
    by (simp_all add: parse_u16_def parse_radix_def lit_def digit_val_def is_digit_def)
  have v: "split_whitespace (lit ''HTTP/1.1 100 Go on'') = [lit ''HTTP/1.1'', lit ''100'', lit ''Go'', lit ''on'']"
    by (simp add: split_whitespace_def lit_def ascii_ws_def ws2_def ws3_def)
  have u: "utf8_lossy (lit ''HTTP/1.1 100 Go on'') = lit ''HTTP/1.1 100 Go on''" "utf8_lossy demo_head = demo_head"
    by (rule utf8_lossy_ascii; simp add: is_ascii_def lit_def demo_head_def)+
  have s: "split_str [13, 10] (lit ''HTTP/1.1 100 Go on'') = [lit ''HTTP/1.1 100 Go on'']"
    by (subst split_str.simps) (simp add: lit_def starts_with_def)
  have f: "find_sub [13, 10] demo_head = Some (length (lit ''HTTP/1.1 200 OK''))"
    using find_line [of "lit ''HTTP/1.1 200 OK''" "lit ''Transfer-Encoding: Chunked''"] by (simp add: demo_head_def lit_def starts_with_def)
  have t: "split_str [13, 10] (lit ''Transfer-Encoding: Chunked'') = [lit ''Transfer-Encoding: Chunked'']"
    by (subst split_str.simps) (simp add: lit_def starts_with_def)
  have d: "split_str [13, 10] demo_head = [lit ''HTTP/1.1 200 OK'', lit ''Transfer-Encoding: Chunked'']"
    by (subst split_str.simps) (simp add: f, simp add: demo_head_def t)
  have c: "split_once 58 (lit ''Transfer-Encoding: Chunked'') = Some (lit ''Transfer-Encoding'', lit '' Chunked'')"
    by (simp add: lit_def)
  have tr: "trim (lit ''Transfer-Encoding'') = lit ''Transfer-Encoding''" "trim (lit '' Chunked'') = lit ''Chunked''"
    by (simp_all add: lit_def trim_def trim_start_def trim_end_def strip.simps ascii_ws_def ws2_def ws3_def)
  show "http1_head_of (lit ''HTTP/1.1 100 Go on'') = Ok (100, [])"
    unfolding http1_head_of_def u s Let_def list.sel v by (simp add: n List.map_filter_def)
  show "http1_head_of demo_head = Ok (200, [(lit ''Transfer-Encoding'', lit ''Chunked'')])"
    unfolding http1_head_of_def u d Let_def list.sel w by (simp add: n List.map_filter_def c tr)
qed

lemma demo_heads_ok: "list_all (\<lambda>h. head_at h \<and> interim h) demo_heads" "head_at demo_head" "\<not> interim demo_head"
  by (simp_all add: demo_heads_def interim_def demo_status head_at_def) (simp_all add: demo_head_def lit_def starts_with_def)

lemma demo_framing: "framing_of 200 [(lit ''Transfer-Encoding'', lit ''Chunked'')] = Ok (Chunked dechunker_default)"
  by (simp add: framing_of_def field_of_def eq_ignore_ascii_case_def lit_def lower_def is_upper_def contains_def starts_with_def)

lemma demo_sizes: "chunk_size (lit ''2;x=1'') = Some 2" "chunk_size (lit ''1'') = Some 1" "chunk_size (lit ''0'') = Some 0"
proof -
  have "utf8_valid (lit ''2;x=1'')" "utf8_valid (lit ''1'')" "utf8_valid (lit ''0'')"
    by (rule utf8_valid_ascii; simp add: is_ascii_def lit_def)+
  then show "chunk_size (lit ''2;x=1'') = Some 2" "chunk_size (lit ''1'') = Some 1" "chunk_size (lit ''0'') = Some 0"
    by (simp_all add: chunk_size_def from_utf8_def)
      (simp_all add: lit_def trim_visible visible_def ascii_ws_def parse_radix_def digit_val_def is_digit_def)
qed

lemma demo_body_ok: "body_ok (Chunked dechunker_default) demo_body (lit ''ok!'')"
proof -
  have "lit ''ok!'' = concat (map snd demo_chunks)" by (simp add: demo_chunks_def lit_def)
  moreover have "list_all chunk_ok demo_chunks" "line_ok (lit ''0'')" "list_all (\<lambda>l. line_ok l \<and> l \<noteq> []) [lit ''X-Sum: 1'']"
    by (simp_all add: demo_chunks_def chunk_ok_def demo_sizes) (simp_all add: line_ok_def MAX_LINE_def lit_def starts_with_def)
  ultimately show ?thesis using demo_sizes(3) unfolding body_ok_def demo_body_def framing.case by blast
qed

lemma demo_length: "length (heads_bytes demo_heads @ demo_head @ blank_line @ demo_body) \<le> MAX_BODY"
  by (simp add: heads_bytes_def demo_heads_def demo_head_def demo_body_def demo_chunks_def chunked_bytes_def chunk_bytes_def trailer_bytes_def
      MAX_BODY_def lit_def)

lemma demo_stream:
  "sent (rx demo_exchange) = heads_bytes demo_heads @ demo_head @ blank_line @ demo_body" "clean (rx demo_exchange)" "writes demo_exchange = []"
  by (simp_all only: demo_exchange_def sock.simps sent.simps clean.simps append_take_drop_id append_Nil2)

theorem http1_answer_exact_witness:
  "fst (over_http1 demo_crate demo_request demo_exchange) =
     Ok \<lparr>hr_status = 200, hr_headers = [(lit ''Transfer-Encoding'', lit ''Chunked'')], hr_body = lit ''ok!'', hr_protocol = lit ''http/1.1''\<rparr>"
proof -
  let ?w = "heads_bytes demo_heads @ demo_head @ blank_line @ demo_body"
  have "sent (rx demo_exchange) = take (length ?w) (heads_bytes demo_heads @ demo_head @ blank_line @ demo_body @ [])"
    unfolding demo_stream(1) append_Nil2 by (rule take_all [OF order_refl, symmetric])
  from http1_answer_exact [OF demo_stream(2,3) demo_heads_ok demo_status(2) demo_framing demo_body_ok this, of demo_crate demo_request]
  have "fst (over_http1 demo_crate demo_request demo_exchange) =
      response_of demo_crate (200, [(lit ''Transfer-Encoding'', lit ''Chunked'')], lit ''ok!'')"
    using demo_length by (simp only: append_Nil2 order_refl if_True simp_thms)
  then show ?thesis by (simp add: response_of_def demo_crate_def)
qed

text \<open>C27. How an answer of any shape is cut into reads does not matter: two connections on which the same bytes come give
the same result, unless one of them meets the limit on the length of a line, and reading panics only if the header
map does.\<close>

theorem http1_any_cut:
  assumes "clean (rx s)" "writes s = []" "clean (rx t)" "writes t = []" "sent (rx s) = sent (rx t)" "length (sent (rx t)) \<le> MAX_BODY"
  shows "(fst (over_http1 http request s) = fst (over_http1 http request t) \<or>
      fst (over_http1 http request s) = Err (malformed_chunk ''a line too long'') \<or>
      fst (over_http1 http request t) = Err (malformed_chunk ''a line too long'')) \<and>
    ((\<forall>n v m. map_append http n v m \<noteq> None) \<longrightarrow> fst (over_http1 http request s) \<noteq> Panic)"
  using over_http1_read [OF assms(1,2), of http request] over_http1_read(1) [OF assms(3,4,6), of http request] assms(5,6)
  by auto

theorem http1_any_cut_witness:
  "fst (over_http1 (demo_crate\<lparr>map_append := \<lambda>n v m. Some (m @ [(n, v)])\<rparr>) demo_request
     (demo_exchange\<lparr>rx := [Chunk (sent (rx demo_exchange))]\<rparr>)) \<noteq> Panic"
proof -
  let ?s = "demo_exchange\<lparr>rx := [Chunk (sent (rx demo_exchange))]\<rparr>"
  let ?c = "demo_crate\<lparr>map_append := \<lambda>n v m. Some (m @ [(n, v)])\<rparr>"
  have "clean (rx ?s)" "writes ?s = []" "sent (rx ?s) = sent (rx demo_exchange)" using demo_stream(3) by simp_all
  moreover have "length (sent (rx demo_exchange)) \<le> MAX_BODY" unfolding demo_stream(1) by (rule demo_length)
  moreover have "\<forall>n v m. map_append ?c n v m \<noteq> None" by simp
  ultimately show ?thesis
    using http1_any_cut [of ?s demo_exchange ?c demo_request] demo_stream(2,3) by blast
qed

text \<open>The limit on the length of a line is looked at only where a line is still open at the end of what has come: a line that is too
long is refused when a read ends inside it, and read when it comes with its end.\<close>

theorem http1_line_limit_depends_on_cut:
  "\<exists>l. MAX_LINE < length l \<and> advance dechunker_default l = Err (malformed_chunk ''a line too long'') \<and>
     (\<exists>st. advance dechunker_default (l @ [13, 10, 13, 10]) = Ok (True, st))"
proof -
  define l :: bytes where "l = 48 # 59 # replicate MAX_LINE 120"
  have none: "find_sub [13, 10] (replicate n 120) = None" for n by (induction n) (simp_all add: starts_with_def)
  then have find: "find_sub [13, 10] l = None" by (simp add: l_def starts_with_def)
  have "is_ascii l" by (simp add: l_def is_ascii_def list_all_iff)
  then have "from_utf8 l = Some l" by (simp add: from_utf8_def utf8_valid_ascii)
  moreover have "hd (split_on 59 l) = [48]" by (simp add: l_def)
  moreover have "parse_radix 16 64 (trim [48]) = Some 0"
    by (simp add: trim_visible visible_def ascii_ws_def parse_radix_def digit_val_def is_digit_def)
  ultimately have zero: "chunk_size l = Some 0" by (simp add: chunk_size_def)
  have "advance dechunker_default l = Err (malformed_chunk ''a line too long'')"
    using find by (subst advance_line) (simp_all add: dechunker_default_def dc_ok_def l_def MAX_LINE_def)
  moreover have "\<exists>st. advance dechunker_default (l @ [13, 10, 13, 10]) = Ok (True, st)"
  proof -
    define st where "st = dechunker_default\<lparr>dc_at := length l + 2, dc_searched := length l + 2, dc_trailer := True\<rparr>"
    have "advance dechunker_default (l @ [13, 10, 13, 10]) = advance st (l @ [13, 10, 13, 10])"
      using find_line [OF find, of "[13, 10]"] zero
      by (subst advance_line) (simp_all add: dechunker_default_def dc_ok_def st_def)
    moreover have "advance st (l @ [13, 10, 13, 10]) = advance (st\<lparr>dc_at := length l + 4, dc_searched := length l + 4, dc_done := True\<rparr>) (l @ [13, 10, 13, 10])"
      by (subst advance_line) (simp_all add: dechunker_default_def dc_ok_def st_def starts_with_def eval_nat_numeral)
    ultimately show ?thesis by (simp add: advance_done)
  qed
  moreover have "MAX_LINE < length l" by (simp add: l_def)
  ultimately show ?thesis by blast
qed

end
