(* ===== verification/QRanges.thy ===== *)
theory QRanges
  imports Prelude
begin

text \<open>
  The sets of packet numbers and offsets of quiche (\<^verbatim>\<open>quiche/quiche/src/ranges.rs\<close>): sorted ranges that
  do not touch, held in a short vector or in a B-tree, with a bound on their number. A number is a
  natural below \<open>2 ^ 64\<close>, and sums that leave that range panic.
\<close>

type_synonym range = "nat \<times> nat"

section \<open>The vector\<close>

definition insert_at :: "nat \<Rightarrow> 'a \<Rightarrow> 'a list \<Rightarrow> 'a list" where
  "insert_at i x xs = take i xs @ x # drop i xs"

definition remove_at :: "nat \<Rightarrow> 'a list \<Rightarrow> 'a list" where
  "remove_at i xs = take i xs @ drop (Suc i) xs"

text \<open>\<^verbatim>\<open>// Merge any newly overlapping ranges\<close>\<close>

function inline_merge :: "range list \<Rightarrow> nat \<Rightarrow> nat \<Rightarrow> range list" where
  "inline_merge inner fin pos =
     (if pos + 1 < length inner then
        (let (s, e) = inner ! (pos + 1) in
         if fin < s then inner
         else let new_e = max e fin in
              inline_merge (remove_at (pos + 1) (inner[pos := (fst (inner ! pos), new_e)])) new_e pos)
      else inner)"
  by pat_completeness auto
termination
  by (relation "measure (\<lambda>(inner, _, _). length inner)") (auto simp: remove_at_def)

declare inline_merge.simps [simp del]

function inline_loop :: "nat \<Rightarrow> range list \<Rightarrow> nat \<Rightarrow> nat \<Rightarrow> nat \<Rightarrow> (unit, range list) run" where
  "inline_loop capacity inner start fin pos =
     (if pos < length inner then
        (let (s, e) = inner ! pos in
         if start > e then inline_loop capacity inner start fin (pos + 1)
         else if fin < s then
           (if length inner = capacity then
              (if pos = 0 then Panic else Ok (insert_at (pos - 1) (start, fin) (remove_at 0 inner)))
            else Ok (insert_at pos (start, fin) inner))
         else
           let s' = (if start < s then start else s) in
           if fin > e then Ok (inline_merge (inner[pos := (s', fin)]) fin pos)
           else Ok (inner[pos := (s', e)]))
      else if length inner = capacity then
        (if inner = [] then Panic else Ok (remove_at 0 inner @ [(start, fin)]))
      else Ok (inner @ [(start, fin)]))"
  by pat_completeness auto
termination
  by (relation "measure (\<lambda>(_, inner, _, _, pos). length inner - pos)") auto

declare inline_loop.simps [simp del]

definition inline_insert :: "nat \<Rightarrow> range list \<Rightarrow> range \<Rightarrow> (unit, range list) run" where
  "inline_insert capacity inner item = inline_loop capacity inner (fst item) (snd item) 0"

fun inline_remove_until :: "range list \<Rightarrow> nat \<Rightarrow> range list" where
  "inline_remove_until [] largest = []"
| "inline_remove_until ((s, e) # inner) largest =
     (if largest \<ge> e then inline_remove_until inner largest
      else let s' = max (largest + 1) s in if s' = e then inner else (s', e) # inner)"

section \<open>The tree\<close>

text \<open>\<^verbatim>\<open>BTreeMap\<close> as the list of its entries in the order of the keys.\<close>

fun bt_insert :: "nat \<Rightarrow> 'v \<Rightarrow> (nat \<times> 'v) list \<Rightarrow> (nat \<times> 'v) list" where
  "bt_insert k v [] = [(k, v)]"
| "bt_insert k v ((a, b) # m) =
     (if k < a then (k, v) # (a, b) # m else if k = a then (k, v) # m else (a, b) # bt_insert k v m)"

definition bt_remove :: "nat \<Rightarrow> range list \<Rightarrow> range list" where
  "bt_remove k m = filter (\<lambda>(a, b). a \<noteq> k) m"

definition prev_to :: "range list \<Rightarrow> nat \<Rightarrow> range option" where
  "prev_to m item = (case rev (filter (\<lambda>(s, e). s \<le> item) m) of [] \<Rightarrow> None | r # _ \<Rightarrow> Some r)"

definition next_to :: "range list \<Rightarrow> nat \<Rightarrow> range option" where
  "next_to m item = (case filter (\<lambda>(s, e). item \<le> s) m of [] \<Rightarrow> None | r # _ \<Rightarrow> Some r)"

definition range_contains :: "range \<Rightarrow> nat \<Rightarrow> bool" where
  "range_contains r x \<longleftrightarrow> fst r \<le> x \<and> x < snd r"

definition range_overlaps :: "range \<Rightarrow> range \<Rightarrow> bool" where
  "range_overlaps r other \<longleftrightarrow>
     fst other \<ge> fst r \<and> fst other \<le> snd r \<or> snd other \<ge> fst r \<and> snd other \<le> snd r"

lemma next_to_in: "next_to m x = Some r \<Longrightarrow> r \<in> set m"
proof -
  assume "next_to m x = Some r"
  then have "\<exists>t. filter (\<lambda>(s, e). x \<le> s) m = r # t" by (auto simp: next_to_def split: list.splits)
  then have "r \<in> set (filter (\<lambda>(s, e). x \<le> s) m)" by (metis list.set_intros(1))
  then show ?thesis by (simp only: set_filter mem_Collect_eq)
qed

lemma bt_remove_less: "r \<in> set m \<Longrightarrow> length (bt_remove (fst r) m) < length m"
  unfolding bt_remove_def by (rule length_filter_less [of r]) auto

text \<open>\<^verbatim>\<open>// Check if following existing ranges overlap with the new one.\<close>\<close>

function btree_absorb :: "range list \<Rightarrow> nat \<Rightarrow> nat \<Rightarrow> range \<Rightarrow> range list \<times> nat \<times> nat" where
  "btree_absorb m start fin item = (case next_to m start of
     None \<Rightarrow> (m, start, fin)
   | Some r \<Rightarrow>
     if range_contains item (fst r) \<and> range_contains item (snd r) then btree_absorb (bt_remove (fst r) m) start fin item
     else if \<not> range_overlaps r item then (m, start, fin)
     else btree_absorb (bt_remove (fst r) m) (min start (fst r)) (max fin (snd r)) item)"
  by pat_completeness auto
termination
  by (relation "measure (\<lambda>(m, _, _, _). length m)") (auto dest!: next_to_in bt_remove_less)

declare btree_absorb.simps [simp del]

definition btree_insert :: "nat \<Rightarrow> range list \<Rightarrow> range \<Rightarrow> range list" where
  "btree_insert capacity m item =
     (let (m, start, fin) = (case prev_to m (fst item) of
            Some r \<Rightarrow>
              if range_overlaps r item then (bt_remove (fst r) m, min (fst item) (fst r), max (snd item) (snd r))
              else (m, fst item, snd item)
          | None \<Rightarrow> (m, fst item, snd item));
          (m, start, fin) = btree_absorb m start fin item;
          m = (if length m \<ge> capacity then drop 1 m else m)
      in bt_insert start fin m)"

fun btree_remove_ranges :: "nat \<Rightarrow> nat \<Rightarrow> range list \<Rightarrow> range list \<Rightarrow> (unit, range list) run" where
  "btree_remove_ranges capacity largest m [] = Ok m"
| "btree_remove_ranges capacity largest m (r # ranges) =
     (let m = bt_remove (fst r) m in
      if largest + 1 \<ge> 2 ^ 64 then Panic
      else btree_remove_ranges capacity largest
        (if snd r > largest + 1 then btree_insert capacity m (largest + 1, snd r) else m) ranges)"

definition btree_remove_until :: "nat \<Rightarrow> range list \<Rightarrow> nat \<Rightarrow> (unit, range list) run" where
  "btree_remove_until capacity m largest =
     btree_remove_ranges capacity largest m (filter (\<lambda>(s, e). s \<le> largest) m)"

section \<open>The set\<close>

definition MAX_INLINE_CAPACITY :: nat where "MAX_INLINE_CAPACITY = 4"
definition MIN_TO_INLINE :: nat where "MIN_TO_INLINE = 2"

datatype range_set = Inline "range list" nat | BTree "range list" nat

definition rs_new :: "nat \<Rightarrow> range_set" where
  "rs_new capacity = Inline [] capacity"

definition rs_iter :: "range_set \<Rightarrow> range list" where
  "rs_iter st = (case st of Inline inner _ \<Rightarrow> inner | BTree inner _ \<Rightarrow> inner)"

definition rs_len :: "range_set \<Rightarrow> nat" where
  "rs_len st = length (rs_iter st)"

definition fixup :: "range_set \<Rightarrow> range_set" where
  "fixup st = (case st of
     Inline inner capacity \<Rightarrow> if length inner = MAX_INLINE_CAPACITY then BTree inner capacity else st
   | BTree inner capacity \<Rightarrow> if length inner \<le> MIN_TO_INLINE then Inline inner capacity else st)"

definition rs_insert :: "range_set \<Rightarrow> range \<Rightarrow> (unit, range_set) run" where
  "rs_insert st item = bnd (case st of
       Inline inner capacity \<Rightarrow> bnd (inline_insert capacity inner item) (\<lambda>inner. Ok (Inline inner capacity))
     | BTree inner capacity \<Rightarrow> Ok (BTree (btree_insert capacity inner item) capacity)) (\<lambda>st. Ok (fixup st))"

definition rs_last :: "range_set \<Rightarrow> (unit, nat option) run" where
  "rs_last st = (case rev (rs_iter st) of
     [] \<Rightarrow> Ok None
   | (s, e) # _ \<Rightarrow> if e = 0 then Panic else Ok (Some (e - 1)))"

definition rs_remove_until :: "range_set \<Rightarrow> nat \<Rightarrow> (unit, range_set) run" where
  "rs_remove_until st largest = bnd (case st of
       Inline inner capacity \<Rightarrow> Ok (Inline (inline_remove_until inner largest) capacity)
     | BTree inner capacity \<Rightarrow>
         bnd (btree_remove_until capacity inner largest) (\<lambda>inner. Ok (BTree inner capacity))) (\<lambda>st. Ok (fixup st))"

definition push_item :: "range_set \<Rightarrow> nat \<Rightarrow> (unit, range_set) run" where
  "push_item st item = (if item + 1 \<ge> 2 ^ 64 then Panic else rs_insert st (item, item + 1))"

section \<open>The specification\<close>

text \<open>Sorted ranges that do not touch, and the numbers they cover.\<close>

definition gap :: "range \<Rightarrow> range \<Rightarrow> bool" where
  "gap r r' \<longleftrightarrow> snd r < fst r'"

definition wf_ranges :: "range list \<Rightarrow> bool" where
  "wf_ranges rs \<longleftrightarrow> list_all (\<lambda>(s, e). s \<le> e) rs \<and> sorted_wrt gap rs"

definition proper :: "range list \<Rightarrow> bool" where
  "proper rs \<longleftrightarrow> list_all (\<lambda>(s, e). s < e) rs"

definition points :: "range list \<Rightarrow> nat set" where
  "points rs = (\<Union>(s, e) \<in> set rs. {s ..< e})"

fun ins :: "nat \<Rightarrow> nat \<Rightarrow> range list \<Rightarrow> range list" where
  "ins s e [] = [(s, e)]"
| "ins s e ((a, b) # rs) =
     (if e < a then (s, e) # (a, b) # rs
      else if b < s then (a, b) # ins s e rs
      else ins (min s a) (max e b) rs)"

fun cut :: "nat \<Rightarrow> range list \<Rightarrow> range list" where
  "cut l [] = []"
| "cut l ((a, b) # rs) = (if b \<le> l + 1 then cut l rs else (max (l + 1) a, b) # rs)"

lemma wf_simps [simp]:
  "wf_ranges []" "wf_ranges ((a, b) # rs) \<longleftrightarrow> a \<le> b \<and> (\<forall>r \<in> set rs. b < fst r) \<and> wf_ranges rs"
  by (auto simp: wf_ranges_def gap_def)

lemma wf_append:
  "wf_ranges (xs @ ys) \<longleftrightarrow> wf_ranges xs \<and> wf_ranges ys \<and> (\<forall>x \<in> set xs. \<forall>y \<in> set ys. snd x < fst y)"
  by (auto simp: wf_ranges_def gap_def sorted_wrt_append)

lemma points_simps [simp]:
  "points [] = {}" "points ((a, b) # rs) = {a ..< b} \<union> points rs" "points (xs @ ys) = points xs \<union> points ys"
  by (auto simp: points_def)

lemma wf_nonempty: "wf_ranges rs \<Longrightarrow> r \<in> set rs \<Longrightarrow> fst r \<le> snd r"
  by (auto simp: wf_ranges_def list_all_iff)

lemma ins_nonempty [simp]: "ins s e rs \<noteq> []"
  by (induction s e rs rule: ins.induct) auto

lemma ins_lower: "r \<in> set (ins s e rs) \<Longrightarrow> fst r = s \<or> (\<exists>r' \<in> set rs. fst r = fst r')"
  by (induction s e rs rule: ins.induct) (auto split: if_splits simp: min_def)

lemma ins_wf: "wf_ranges rs \<Longrightarrow> s \<le> e \<Longrightarrow> wf_ranges (ins s e rs)"
proof (induction s e rs rule: ins.induct)
  case (2 s e a b rs)
  consider "e < a" | "\<not> e < a" "b < s" | "\<not> e < a" "\<not> b < s" by blast
  then show ?case
  proof cases
    case 1
    then show ?thesis using 2 wf_nonempty [of rs] by fastforce
  next
    case 2
    then have "\<forall>r \<in> set (ins s e rs). b < fst r" using "2.prems" ins_lower by fastforce
    then show ?thesis using 2 "2.IH"(1) "2.prems" by simp
  next
    case 3
    then show ?thesis using "2.IH"(2) "2.prems" by (simp add: min_def max_def)
  qed
qed simp

lemma ins_points: "wf_ranges rs \<Longrightarrow> s \<le> e \<Longrightarrow> points (ins s e rs) = points rs \<union> {s ..< e}"
proof (induction s e rs rule: ins.induct)
  case (2 s e a b rs)
  consider "e < a" | "\<not> e < a" "b < s" | "\<not> e < a" "\<not> b < s" by blast
  then show ?case
  proof cases
    case 3
    then have "points (ins s e ((a, b) # rs)) = points rs \<union> {min s a ..< max e b}"
      using "2.IH"(2) "2.prems" by (simp add: min_def max_def)
    moreover have "{min s a ..< max e b} = {s ..< e} \<union> {a ..< b}" using 3 by auto
    ultimately show ?thesis by auto
  qed (use 2 in auto)
qed simp

lemma ins_proper: "proper rs \<Longrightarrow> s < e \<Longrightarrow> proper (ins s e rs)"
  by (induction s e rs rule: ins.induct) (auto simp: proper_def min_def max_def)

lemma ins_length: "length (ins s e rs) \<le> Suc (length rs)"
  by (induction s e rs rule: ins.induct) auto

lemma ins_before: "\<forall>r \<in> set rs. e < fst r \<Longrightarrow> ins s e rs = (s, e) # rs"
  by (cases rs) auto

lemma ins_after: "\<forall>r \<in> set lo. snd r < s \<Longrightarrow> \<forall>r \<in> set lo. fst r \<le> snd r \<Longrightarrow> s \<le> e \<Longrightarrow> ins s e (lo @ hi) = lo @ ins s e hi"
  by (induction lo) auto

lemma cut_wf: "wf_ranges rs \<Longrightarrow> wf_ranges (cut l rs)"
  by (induction l rs rule: cut.induct) auto

lemma cut_points: "wf_ranges rs \<Longrightarrow> points (cut l rs) = points rs - {.. l}"
proof (induction l rs rule: cut.induct)
  case (2 l a b rs)
  have "points rs \<inter> {.. l} = {}" if "\<not> b \<le> l + 1"
    using that "2.prems" by (fastforce simp: points_def)
  then show ?case using 2 by (auto split: if_splits)
qed simp

lemma cut_proper: "proper rs \<Longrightarrow> proper (cut l rs)"
  by (induction l rs rule: cut.induct) (auto simp: proper_def)

lemma cut_length: "length (cut l rs) \<le> length rs"
  by (induction l rs rule: cut.induct) auto

section \<open>Lemmas: the vector\<close>

lemma inline_merge_ins:
  "wf_ranges rest \<Longrightarrow> a \<le> fin \<Longrightarrow> \<forall>r \<in> set rest. a < fst r \<Longrightarrow>
     inline_merge (pre @ (a, fin) # rest) fin (length pre) = pre @ ins a fin rest"
proof (induction rest arbitrary: fin)
  case Nil
  then show ?case by (simp add: inline_merge.simps)
next
  case (Cons r rest)
  obtain s e where r: "r = (s, e)" by (cases r)
  show ?case
  proof (cases "fin < s")
    case True
    then show ?thesis using r by (subst inline_merge.simps) (simp add: nth_append)
  next
    case False
    have "remove_at (Suc (length pre)) ((pre @ (a, fin) # (s, e) # rest)[length pre := (a, max e fin)]) =
        pre @ (a, max e fin) # rest"
      by (simp add: remove_at_def list_update_append)
    then have "inline_merge (pre @ (a, fin) # r # rest) fin (length pre) =
        inline_merge (pre @ (a, max e fin) # rest) (max e fin) (length pre)"
      using False r by (subst inline_merge.simps) (simp add: nth_append Let_def)
    also have "\<dots> = pre @ ins a (max e fin) rest"
      using Cons.prems r by (intro Cons.IH) (auto simp: max_def)
    also have "ins a (max e fin) rest = ins a fin (r # rest)"
      using Cons.prems r False by (auto simp: min_def max_def)
    finally show ?thesis .
  qed
qed

lemma inline_loop_ins:
  assumes "wf_ranges (pre @ suf)" "start \<le> fin" "\<forall>r \<in> set pre. snd r < start" "length (pre @ suf) < capacity"
  shows "inline_loop capacity (pre @ suf) start fin (length pre) = Ok (pre @ ins start fin suf)"
  using assms
proof (induction suf arbitrary: pre)
  case Nil
  then show ?case by (simp add: inline_loop.simps)
next
  case (Cons r suf)
  obtain s e where r: "r = (s, e)" by (cases r)
  have se: "s \<le> e" "\<forall>x \<in> set suf. e < fst x" "wf_ranges suf" using Cons.prems(1) r by (auto simp: wf_append)
  consider "start > e" | "\<not> start > e" "fin < s" | "\<not> start > e" "\<not> fin < s" "fin > e" | "\<not> start > e" "\<not> fin < s" "\<not> fin > e"
    by blast
  then show ?case
  proof cases
    case 1
    have "inline_loop capacity (pre @ r # suf) start fin (length pre) =
        inline_loop capacity ((pre @ [r]) @ suf) start fin (length (pre @ [r]))"
      using 1 r by (subst inline_loop.simps) simp
    also have "\<dots> = Ok ((pre @ [r]) @ ins start fin suf)"
      using Cons.prems 1 r by (intro Cons.IH) auto
    finally show ?thesis using 1 r se(1) Cons.prems(2) by simp
  next
    case 2
    then show ?thesis
      using r Cons.prems(4) by (subst inline_loop.simps) (simp add: insert_at_def)
  next
    case 3
    let ?s = "if start < s then start else s"
    have "inline_merge (pre @ (?s, fin) # suf) fin (length pre) = pre @ ins ?s fin suf"
      using 3 se Cons.prems(2) by (intro inline_merge_ins) auto
    then show ?thesis
      using 3 r by (subst inline_loop.simps) (auto simp: Let_def list_update_append min_def max_def)
  next
    case 4
    have "ins (min start s) e suf = (min start s, e) # suf" by (intro ins_before se(2))
    then show ?thesis
      using 4 r by (subst inline_loop.simps) (auto simp: Let_def list_update_append min_def max_def)
  qed
qed

lemma inline_insert_ins:
  "wf_ranges rs \<Longrightarrow> s \<le> e \<Longrightarrow> length rs < capacity \<Longrightarrow> inline_insert capacity rs (s, e) = Ok (ins s e rs)"
  using inline_loop_ins [of "[]" rs s e capacity] by (simp add: inline_insert_def)

lemma inline_remove_cut: "wf_ranges rs \<Longrightarrow> proper rs \<Longrightarrow> inline_remove_until rs l = cut l rs"
proof (induction rs l rule: inline_remove_until.induct)
  case (2 s e inner l)
  have "cut l inner = inner" if "e = l + 1" using that 2 by (cases inner) (auto simp: proper_def)
  then show ?case using 2 by (auto simp: Let_def max_def proper_def)
qed simp

section \<open>Lemmas: the tree\<close>

lemma bt_insert_at:
  "\<forall>r \<in> set lo. fst r < k \<Longrightarrow> \<forall>r \<in> set hi. k < fst r \<Longrightarrow> bt_insert k v (lo @ hi) = lo @ (k, v) # hi"
proof (induction lo)
  case Nil
  then show ?case by (cases hi) auto
qed auto

lemma bt_remove_at:
  "\<forall>r \<in> set lo. fst r < k \<Longrightarrow> \<forall>r \<in> set hi. k < fst r \<Longrightarrow> bt_remove k (lo @ (k, v) # hi) = lo @ hi"
proof -
  assume "\<forall>r \<in> set lo. fst r < k" "\<forall>r \<in> set hi. k < fst r"
  then have "filter (\<lambda>(a, b). a \<noteq> k) lo = lo" "filter (\<lambda>(a, b). a \<noteq> k) hi = hi"
    by (auto intro!: filter_True)
  then show ?thesis by (simp add: bt_remove_def)
qed

lemma next_to_at:
  assumes "\<forall>r \<in> set lo. fst r < k" "\<forall>r \<in> set hi. k \<le> fst r"
  shows "next_to (lo @ hi) k = (case hi of [] \<Rightarrow> None | r # _ \<Rightarrow> Some r)"
proof -
  have "filter (\<lambda>(s, e). k \<le> s) lo = []" "filter (\<lambda>(s, e). k \<le> s) hi = hi"
    using assms by (force intro!: filter_False filter_True)+
  then show ?thesis by (simp add: next_to_def)
qed

lemma prev_to_at:
  assumes "\<forall>r \<in> set lo. fst r \<le> k" "\<forall>r \<in> set hi. k < fst r"
  shows "prev_to (lo @ hi) k = (case rev lo of [] \<Rightarrow> None | r # _ \<Rightarrow> Some r)"
proof -
  have "filter (\<lambda>(s, e). s \<le> k) lo = lo" "filter (\<lambda>(s, e). s \<le> k) hi = []"
    using assms by (force intro!: filter_False filter_True)+
  then show ?thesis by (simp add: prev_to_def)
qed

text \<open>Absorbing the ranges above: \<open>fin\<close> is at least the end of the item, and no range above begins before
  it has been passed.\<close>

lemma btree_absorb_ins:
  assumes "wf_ranges hi" "\<forall>r \<in> set lo. fst r < start" "\<forall>r \<in> set hi. s < fst r" "start \<le> s" "s \<le> e" "e \<le> fin"
    "e < fin \<Longrightarrow> \<forall>r \<in> set hi. fin < fst r"
  shows "\<exists>rest fin'. btree_absorb (lo @ hi) start fin (s, e) = (lo @ rest, start, fin') \<and> ins start fin hi = (start, fin') # rest"
  using assms
proof (induction hi arbitrary: fin)
  case Nil
  then show ?case using next_to_at [of lo start "[]"] by (simp add: btree_absorb.simps)
next
  case (Cons r hi)
  obtain c d where r: "r = (c, d)" by (cases r)
  have cd: "c \<le> d" "\<forall>x \<in> set hi. d < fst x" "wf_ranges hi" "s < c" using Cons.prems r by auto
  have "\<forall>x \<in> set (r # hi). start \<le> fst x" using Cons.prems(3,4) by fastforce
  then have nt: "next_to (lo @ r # hi) start = Some (c, d)"
    using next_to_at [OF Cons.prems(2), of "r # hi"] r by simp
  have rm: "bt_remove c (lo @ r # hi) = lo @ hi"
    using bt_remove_at [of lo c hi d] Cons.prems(2,4) cd r by fastforce
  consider (within) "d < e" | (over) "c \<le> e" "e \<le> d" | (out) "e < c" using cd(1) by linarith
  then show ?case
  proof cases
    case within
    have "fin = e" using Cons.prems(6,7) within cd(1) r by (cases "e < fin") auto
    then show ?thesis
      using Cons.IH [of fin] Cons.prems cd within r nt rm
      by (subst btree_absorb.simps) (auto simp: range_contains_def min_def max_def)
  next
    case over
    have "fin = e" using Cons.prems(6,7) over r by (cases "e < fin") auto
    then have "\<exists>rest fin'. btree_absorb (lo @ hi) start d (s, e) = (lo @ rest, start, fin') \<and> ins start d hi = (start, fin') # rest"
      using Cons.IH [of d] Cons.prems cd over by auto
    then show ?thesis
      using Cons.prems cd over r nt rm \<open>fin = e\<close>
      by (subst btree_absorb.simps) (auto simp: range_contains_def range_overlaps_def min_def max_def)
  next
    case out
    have "fin < c" using Cons.prems(6,7) out r by (cases "e < fin") auto
    then show ?thesis
      using out cd r nt by (subst btree_absorb.simps) (auto simp: range_contains_def range_overlaps_def)
  qed
qed

text \<open>The bound: one range too many costs the lowest of those there were.\<close>

definition bounded_ins :: "nat \<Rightarrow> nat \<Rightarrow> nat \<Rightarrow> range list \<Rightarrow> range list" where
  "bounded_ins capacity s e rs = (if length (ins s e rs) \<le> capacity then ins s e rs else ins s e (drop 1 rs))"

lemma wf_split: "wf_ranges m \<Longrightarrow> \<exists>lo hi. m = lo @ hi \<and> (\<forall>r \<in> set lo. fst r \<le> s) \<and> (\<forall>r \<in> set hi. s < fst r)"
proof (induction m)
  case (Cons r m)
  obtain a b where r: "r = (a, b)" by (cases r)
  show ?case
  proof (cases "a \<le> s")
    case True
    obtain lo hi where "m = lo @ hi" "\<forall>r \<in> set lo. fst r \<le> s" "\<forall>r \<in> set hi. s < fst r"
      using Cons r by auto
    then show ?thesis using True r by (intro exI [of _ "r # lo"] exI [of _ hi]) auto
  next
    case False
    then have "\<forall>x \<in> set (r # m). s < fst x" using Cons.prems r by fastforce
    then show ?thesis by (intro exI [of _ "[]"] exI [of _ "r # m"]) auto
  qed
qed auto

lemma ins_same:
  assumes "ins s e hi = (s', fin) # rest" "length hi \<le> length rest" "\<forall>r \<in> set hi. s < fst r \<and> fst r \<le> snd r"
  shows "rest = hi \<and> s' = s \<and> fin = e"
proof (cases hi)
  case (Cons r hi')
  obtain c d where r: "r = (c, d)" by (cases r)
  have "length (ins (min s c) (max e d) hi') \<le> Suc (length hi')" by (rule ins_length)
  then have "e < c" using assms Cons r by (cases "e < c") auto
  then show ?thesis using assms(1) Cons r by simp
qed (use assms in simp)

lemma bt_insert_ins:
  "\<forall>r \<in> set lo. snd r < s \<and> fst r \<le> snd r \<Longrightarrow> \<forall>r \<in> set hi. e < fst r \<Longrightarrow> s \<le> e \<Longrightarrow> bt_insert s e (lo @ hi) = ins s e (lo @ hi)"
  using bt_insert_at [of lo s hi e] ins_after [of lo s e hi] ins_before [of hi e s] by fastforce

lemma btree_insert_ins:
  assumes wf: "wf_ranges m" and se: "s \<le> e" and len: "length m \<le> capacity" "0 < capacity"
  shows "btree_insert capacity m (s, e) = bounded_ins capacity s e m"
proof -
  obtain lo hi where m: "m = lo @ hi" "\<forall>r \<in> set lo. fst r \<le> s" "\<forall>r \<in> set hi. s < fst r"
    using wf_split [OF wf] by blast
  have wfl: "wf_ranges lo" "wf_ranges hi" "\<forall>x \<in> set lo. \<forall>y \<in> set hi. snd x < fst y"
    using wf m(1) by (auto simp: wf_append)
  have prev: "prev_to m s = (case rev lo of [] \<Rightarrow> None | r # _ \<Rightarrow> Some r)"
    using prev_to_at [OF m(2,3)] m(1) by simp
  show ?thesis
  proof (cases "\<exists>lo' a b. lo = lo' @ [(a, b)] \<and> s \<le> b")
    case True
    then obtain lo' a b where lo: "lo = lo' @ [(a, b)]" "s \<le> b" by blast
    have wfo: "wf_ranges lo'" "a \<le> b" "a \<le> s" "\<forall>r \<in> set lo'. snd r < a" "\<forall>r \<in> set hi. b < fst r"
      using wfl m(2) lo by (auto simp: wf_append)
    then have ab: "a \<le> b" "a \<le> s" "\<forall>r \<in> set lo'. snd r < a" "\<forall>r \<in> set lo'. fst r < a" "\<forall>r \<in> set lo'. fst r \<le> snd r"
      "\<forall>r \<in> set hi. b < fst r"
      using wf_nonempty [OF wfo(1)] le_less_trans by (blast, blast, blast, blast, blast, blast)
    have m': "m = lo' @ (a, b) # hi" using m(1) lo(1) by simp
    have rm: "bt_remove a m = lo' @ hi"
      unfolding m' using ab by (intro bt_remove_at) (auto intro: le_less_trans)
    have "e < max e b \<Longrightarrow> \<forall>r \<in> set hi. max e b < fst r" using ab(6) by (auto simp: max_def)
    then obtain rest fin where ab': "btree_absorb (lo' @ hi) a (max e b) (s, e) = (lo' @ rest, a, fin)"
        and i: "ins a (max e b) hi = (a, fin) # rest"
      using btree_absorb_ins [OF wfl(2) ab(4) m(3) ab(2) se, of "max e b"] by auto
    have whole: "ins s e m = lo' @ (a, fin) # rest"
    proof -
      have "\<forall>r \<in> set lo'. snd r < s" using ab(2,3) by fastforce
      moreover have "min s a = a" using ab(2) by simp
      ultimately show ?thesis
        unfolding m' using ins_after [of lo' s e "(a, b) # hi"] ab(2,5) lo(2) se i by simp
    qed
    have "length rest \<le> length hi" using ins_length [of a "max e b" hi] i by simp
    then have fits: "\<not> capacity \<le> length (lo' @ rest)" using len(1) m' by simp
    have "\<forall>r \<in> set rest. a < fst r"
      using ins_wf [OF wf se] unfolding whole by (auto simp: wf_append)
    then have "bt_insert a fin (lo' @ rest) = ins s e m" unfolding whole using ab(4) by (intro bt_insert_at)
    moreover have "range_overlaps (a, b) (s, e)" using lo(2) ab(2) by (simp add: range_overlaps_def)
    moreover have "min s a = a" using ab(2) by simp
    ultimately show ?thesis
      using prev lo(1) rm ab' fits whole by (simp add: btree_insert_def bounded_ins_def)
  next
    case False
    have below: "\<forall>r \<in> set lo. snd r < s \<and> fst r \<le> snd r"
    proof
      fix r assume r: "r \<in> set lo"
      obtain lo' l where l: "lo = lo' @ [l]" using r by (cases lo rule: rev_cases) auto
      have "snd l < s" using False l by (cases l) auto
      moreover have "r = l \<or> snd r < fst l" using r l wfl(1) by (auto simp: wf_append)
      moreover have "fst l \<le> s" "fst r \<le> snd r" "fst l \<le> snd l" using m(2) l wf_nonempty [OF wfl(1)] r by auto
      ultimately show "snd r < s \<and> fst r \<le> snd r" by auto
    qed
    have first: "(case prev_to m s of
            Some r \<Rightarrow> if range_overlaps r (s, e) then (bt_remove (fst r) m, min s (fst r), max e (snd r)) else (m, s, e)
          | None \<Rightarrow> (m, s, e)) = (m, s, e)"
      unfolding prev using below se by (cases lo rule: rev_cases) (auto simp: range_overlaps_def)
    obtain rest fin where ab: "btree_absorb (lo @ hi) s e (s, e) = (lo @ rest, s, fin)" and i: "ins s e hi = (s, fin) # rest"
      using btree_absorb_ins [of hi lo s s e e] wfl(2) m(3) se below by fastforce
    have whole: "ins s e m = lo @ (s, fin) # rest"
      unfolding m(1) using ins_after [of lo s e hi] below se i by auto
    have eq: "btree_insert capacity m (s, e) =
        bt_insert s fin (if capacity \<le> length (lo @ rest) then drop 1 (lo @ rest) else lo @ rest)"
      unfolding btree_insert_def fst_conv snd_conv first Let_def using ab m(1) by simp
    have up: "\<forall>r \<in> set rest. s < fst r"
      using ins_wf [OF wf se] unfolding whole by (auto simp: wf_append)
    show ?thesis
    proof (cases "capacity \<le> length (lo @ rest)")
      case True
      then have "length hi \<le> length rest" using len(1) m(1) by simp
      then have same: "rest = hi" "fin = e" using ins_same [OF i] m(3) wf_nonempty [OF wfl(2)] by auto
      have "wf_ranges ((s, e) # hi)" using ins_wf [OF wfl(2) se] i same by simp
      then have hi: "\<forall>r \<in> set hi. e < fst r" by simp
      have "bt_insert s e (drop 1 (lo @ hi)) = ins s e (drop 1 (lo @ hi))"
      proof (cases lo)
        case Nil
        then show ?thesis using bt_insert_ins [of "[]" s "drop 1 hi" e] hi se by (auto dest: in_set_dropD)
      next
        case (Cons x lo'')
        then show ?thesis using bt_insert_ins [of lo'' s hi e] hi se below by auto
      qed
      then show ?thesis
        using same whole True m(1) unfolding eq by (simp add: bounded_ins_def)
    next
      case fits: False
      have "bt_insert s fin (lo @ rest) = ins s e m"
        unfolding whole using below up by (intro bt_insert_at) fastforce+
      then show ?thesis
        using whole fits unfolding eq by (simp add: bounded_ins_def)
    qed
  qed
qed

lemma btree_remove_ranges_cut:
  assumes "wf_ranges (lo @ hi)" "l + 1 < 2 ^ 64" "length (lo @ hi) \<le> capacity"
    "\<forall>r \<in> set lo. fst r \<le> l" "\<forall>r \<in> set hi. l < fst r" "proper hi"
  shows "btree_remove_ranges capacity l (lo @ hi) lo = Ok (cut l (lo @ hi))"
  using assms
proof (induction lo)
  case Nil
  then have "cut l hi = hi"
    by (cases hi) (auto simp: proper_def)
  then show ?case by simp
next
  case (Cons r lo)
  obtain a b where r: "r = (a, b)" by (cases r)
  have gone: "bt_remove a ((a, b) # lo @ hi) = lo @ hi"
  proof -
    have "a \<le> b" "\<forall>x \<in> set (lo @ hi). b < fst x" using Cons.prems(1) r by simp_all
    then have "\<forall>x \<in> set (lo @ hi). a < fst x" using le_less_trans by blast
    then show ?thesis using bt_remove_at [of "[]" a "lo @ hi" b] by simp
  qed
  show ?case
  proof (cases "b \<le> l + 1")
    case True
    then have "btree_remove_ranges capacity l ((r # lo) @ hi) (r # lo) = btree_remove_ranges capacity l (lo @ hi) lo"
      using gone Cons.prems(2) r by (simp add: Let_def)
    then show ?thesis using Cons.IH Cons.prems True r by simp
  next
    case False
    have "lo = []"
      using Cons.prems(1,4) r False by (cases lo) auto
    moreover have "btree_insert capacity hi (l + 1, b) = (l + 1, b) # hi"
    proof -
      have hi: "wf_ranges hi" "\<forall>x \<in> set hi. b < fst x" "Suc (length hi) \<le> capacity"
        using Cons.prems(1,3) r by (auto simp: wf_append)
      then have "ins (l + 1) b hi = (l + 1, b) # hi" by (intro ins_before) simp
      then show ?thesis
        using btree_insert_ins [OF hi(1), of "l + 1" b capacity] False hi(3) by (simp add: bounded_ins_def)
    qed
    ultimately show ?thesis using gone Cons.prems r False by (simp add: Let_def max_def)
  qed
qed

lemma btree_remove_cut:
  assumes "wf_ranges m" "l + 1 < 2 ^ 64" "length m \<le> capacity" "proper m"
  shows "btree_remove_until capacity m l = Ok (cut l m)"
proof -
  obtain lo hi where m: "m = lo @ hi" "\<forall>r \<in> set lo. fst r \<le> l" "\<forall>r \<in> set hi. l < fst r"
    using wf_split [OF assms(1), of l] by blast
  then have "filter (\<lambda>(s, e). s \<le> l) lo = lo" "filter (\<lambda>(s, e). s \<le> l) hi = []"
    by (auto intro!: filter_True filter_False)
  then show ?thesis
    using btree_remove_ranges_cut [of lo hi l capacity] m assms by (simp add: btree_remove_until_def proper_def)
qed

section \<open>Lemmas: the set\<close>

definition rs_capacity :: "range_set \<Rightarrow> nat" where
  "rs_capacity st = (case st of Inline _ capacity \<Rightarrow> capacity | BTree _ capacity \<Rightarrow> capacity)"

definition rs_inv :: "nat \<Rightarrow> range_set \<Rightarrow> bool" where
  "rs_inv capacity st \<longleftrightarrow> rs_capacity st = capacity \<and> wf_ranges (rs_iter st) \<and> length (rs_iter st) \<le> capacity \<and>
     (case st of Inline rs _ \<Rightarrow> length rs < MAX_INLINE_CAPACITY | BTree rs _ \<Rightarrow> MIN_TO_INLINE < length rs)"

lemma rs_iter_simps [simp]: "rs_iter (Inline rs c) = rs" "rs_iter (BTree rs c) = rs"
  by (simp_all add: rs_iter_def)

lemma fixup_simps [simp]: "rs_iter (fixup st) = rs_iter st" "rs_capacity (fixup st) = rs_capacity st"
  by (auto simp: fixup_def rs_iter_def rs_capacity_def split: range_set.splits)

lemma fixup_inv:
  assumes "rs_capacity st = capacity" "wf_ranges (rs_iter st)" "length (rs_iter st) \<le> capacity"
    "case st of Inline rs _ \<Rightarrow> length rs \<le> MAX_INLINE_CAPACITY | BTree rs _ \<Rightarrow> True"
  shows "rs_inv capacity (fixup st)"
  using assms
  by (auto simp: rs_inv_def fixup_def rs_capacity_def MAX_INLINE_CAPACITY_def MIN_TO_INLINE_def split: range_set.splits)

lemma bounded_ins_wf:
  assumes "wf_ranges rs" "s \<le> e" "length rs \<le> capacity" "0 < capacity"
  shows "wf_ranges (bounded_ins capacity s e rs)" "length (bounded_ins capacity s e rs) \<le> capacity"
    "points (bounded_ins capacity s e rs) \<subseteq> points rs \<union> {s ..< e}"
    "length rs < capacity \<Longrightarrow> points (bounded_ins capacity s e rs) = points rs \<union> {s ..< e}"
proof -
  have d: "wf_ranges (drop 1 rs)" using assms(1) by (cases rs) auto
  have p: "points (drop 1 rs) \<subseteq> points rs" by (cases rs) auto
  show "wf_ranges (bounded_ins capacity s e rs)" using ins_wf assms(1,2) d by (simp add: bounded_ins_def)
  show "length (bounded_ins capacity s e rs) \<le> capacity"
    using ins_length [of s e "drop 1 rs"] assms(3,4) by (auto simp: bounded_ins_def)
  show "points (bounded_ins capacity s e rs) \<subseteq> points rs \<union> {s ..< e}"
    using ins_points assms(1,2) d p by (auto simp: bounded_ins_def)
  show "points (bounded_ins capacity s e rs) = points rs \<union> {s ..< e}" if "length rs < capacity"
    using ins_points assms(1,2) ins_length [of s e rs] that by (simp add: bounded_ins_def)
qed

lemma rs_insert_inv:
  assumes "rs_inv capacity st" "s \<le> e" "4 \<le> capacity"
  shows "\<exists>st'. rs_insert st (s, e) = Ok st' \<and> rs_inv capacity st' \<and> rs_iter st' = bounded_ins capacity s e (rs_iter st)"
proof (cases st)
  case (Inline rs c)
  then have c: "c = capacity" "length rs < 4" "wf_ranges rs"
    using assms(1) by (auto simp: rs_inv_def rs_capacity_def MAX_INLINE_CAPACITY_def)
  have len: "length (ins s e rs) \<le> capacity" "length (ins s e rs) \<le> 4" using ins_length [of s e rs] c(2) assms(3) by simp_all
  have "rs_insert st (s, e) = Ok (fixup (Inline (ins s e rs) capacity))"
    using inline_insert_ins [OF c(3) assms(2)] c assms(3) Inline by (simp add: rs_insert_def)
  moreover have "rs_inv capacity (fixup (Inline (ins s e rs) capacity))"
    using len ins_wf [OF c(3) assms(2)] by (intro fixup_inv) (simp_all add: rs_capacity_def MAX_INLINE_CAPACITY_def)
  moreover have "ins s e rs = bounded_ins capacity s e (rs_iter st)"
    using len Inline by (simp add: bounded_ins_def)
  ultimately show ?thesis by simp
next
  case (BTree rs c)
  then have c: "c = capacity" "wf_ranges rs" "length rs \<le> capacity"
    using assms(1) by (auto simp: rs_inv_def rs_capacity_def)
  have "0 < capacity" using assms(3) by simp
  note b = bounded_ins_wf [OF c(2) assms(2) c(3) this]
  have "rs_insert st (s, e) = Ok (fixup (BTree (bounded_ins capacity s e rs) capacity))"
    using btree_insert_ins [OF c(2) assms(2) c(3)] c(1) assms(3) BTree by (simp add: rs_insert_def)
  moreover have "rs_inv capacity (fixup (BTree (bounded_ins capacity s e rs) capacity))"
    using b by (intro fixup_inv) (simp_all add: rs_capacity_def)
  ultimately show ?thesis using BTree by simp
qed

lemma rs_remove_inv:
  assumes "rs_inv capacity st" "l + 1 < 2 ^ 64" "proper (rs_iter st)"
  shows "\<exists>st'. rs_remove_until st l = Ok st' \<and> rs_inv capacity st' \<and> rs_iter st' = cut l (rs_iter st)"
proof -
  have w: "wf_ranges (rs_iter st)" "length (rs_iter st) \<le> capacity" using assms(1) by (auto simp: rs_inv_def)
  note k = cut_wf [OF w(1), of l] cut_length [of l "rs_iter st"]
  show ?thesis
  proof (cases st)
    case (Inline rs c)
    have "rs_remove_until st l = Ok (fixup (Inline (cut l rs) c))"
      using Inline w(1) inline_remove_cut assms(3) by (simp add: rs_remove_until_def)
    moreover have "rs_inv capacity (fixup (Inline (cut l rs) c))"
      using k w(2) assms(1) Inline by (intro fixup_inv) (auto simp: rs_inv_def rs_capacity_def)
    ultimately show ?thesis using Inline by simp
  next
    case (BTree rs c)
    then have "c = capacity" using assms(1) by (auto simp: rs_inv_def rs_capacity_def)
    then have "rs_remove_until st l = Ok (fixup (BTree (cut l rs) c))"
      using BTree w assms(2,3) btree_remove_cut [of rs l capacity] by (simp add: rs_remove_until_def)
    moreover have "rs_inv capacity (fixup (BTree (cut l rs) c))"
      using k w(2) assms(1) BTree by (intro fixup_inv) (auto simp: rs_inv_def rs_capacity_def)
    ultimately show ?thesis using BTree by simp
  qed
qed

section \<open>Runs\<close>

text \<open>The calls the library makes, and the set of numbers they stand for.\<close>

datatype range_op = Insert nat nat | Push nat | Remove_until nat

definition range_call :: "range_set \<Rightarrow> range_op \<Rightarrow> (unit, range_set) run" where
  "range_call st call = (case call of
     Insert s e \<Rightarrow> rs_insert st (s, e) | Push n \<Rightarrow> push_item st n | Remove_until l \<Rightarrow> rs_remove_until st l)"

definition range_run :: "nat \<Rightarrow> range_op list \<Rightarrow> (unit, range_set) run" where
  "range_run capacity calls = foldl (\<lambda>r call. bnd r (\<lambda>st. range_call st call)) (Ok (rs_new capacity)) calls"

definition legal :: "range_op \<Rightarrow> bool" where
  "legal call = (case call of Insert s e \<Rightarrow> s < e | Push n \<Rightarrow> n + 1 < 2 ^ 64 | Remove_until l \<Rightarrow> l + 1 < 2 ^ 64)"

fun covered :: "range_op \<Rightarrow> nat set \<Rightarrow> nat set" where
  "covered (Insert s e) X = X \<union> {s ..< e}"
| "covered (Push n) X = insert n X"
| "covered (Remove_until l) X = X - {.. l}"

definition growing :: "range_op \<Rightarrow> bool" where
  "growing call = (case call of Remove_until _ \<Rightarrow> False | _ \<Rightarrow> True)"

lemma range_call_inv:
  assumes "rs_inv capacity st" "legal call" "4 \<le> capacity" "proper (rs_iter st)"
  shows "\<exists>st'. range_call st call = Ok st' \<and> rs_inv capacity st' \<and> proper (rs_iter st') \<and>
    points (rs_iter st') \<subseteq> covered call (points (rs_iter st)) \<and>
    (length (rs_iter st) < capacity \<or> \<not> growing call \<longrightarrow> points (rs_iter st') = covered call (points (rs_iter st))) \<and>
    length (rs_iter st') \<le> length (rs_iter st) + of_bool (growing call)"
proof -
  have w: "wf_ranges (rs_iter st)" "length (rs_iter st) \<le> capacity" "0 < capacity"
    using assms(1,3) by (auto simp: rs_inv_def)
  have grow: "\<exists>st'. rs_insert st (s, e) = Ok st' \<and> rs_inv capacity st' \<and> proper (rs_iter st') \<and>
      points (rs_iter st') \<subseteq> points (rs_iter st) \<union> {s ..< e} \<and>
      (length (rs_iter st) < capacity \<longrightarrow> points (rs_iter st') = points (rs_iter st) \<union> {s ..< e}) \<and>
      length (rs_iter st') \<le> Suc (length (rs_iter st))" if "s < e" for s e
  proof -
    have "length (bounded_ins capacity s e (rs_iter st)) \<le> Suc (length (rs_iter st))"
      using ins_length [of s e "rs_iter st"] ins_length [of s e "drop 1 (rs_iter st)"] by (auto simp: bounded_ins_def)
    moreover have "proper (drop 1 (rs_iter st))" using assms(4) by (cases "rs_iter st") (auto simp: proper_def)
    then have "proper (bounded_ins capacity s e (rs_iter st))"
      using ins_proper that assms(4) by (simp add: bounded_ins_def)
    ultimately show ?thesis
      using rs_insert_inv [OF assms(1) less_imp_le [OF that] assms(3)] bounded_ins_wf [OF w(1) less_imp_le [OF that] w(2,3)]
      by metis
  qed
  show ?thesis
  proof (cases call)
    case (Insert s e)
    then show ?thesis using grow [of s e] assms(2) by (simp add: range_call_def legal_def growing_def)
  next
    case (Push n)
    have "{n ..< n + 1} = {n}" by auto
    then show ?thesis using grow [of n "n + 1"] assms(2) Push by (simp add: range_call_def legal_def growing_def push_item_def)
  next
    case (Remove_until l)
    then show ?thesis
      using rs_remove_inv [OF assms(1) _ assms(4), of l] assms(2) cut_proper [OF assms(4), of l] cut_points [OF w(1), of l] cut_length [of l "rs_iter st"]
      by (auto simp: range_call_def legal_def growing_def)
  qed
qed

text \<open>C15. A range set whose capacity is at least the four ranges of the inline form never panics on the
calls of the library: whatever the order of the insertions and removals, and however often the set changes
between its vector and its tree, its ranges stay sorted, non-empty and apart, there are never more of them than
the capacity, no number is reported that was not inserted and not removed since, and as long as there were
no more insertions than the capacity the ranges cover exactly the numbers inserted and not removed since.\<close>

theorem range_set_exact:
  assumes "4 \<le> capacity" and "list_all legal calls"
  shows "\<exists>st. range_run capacity calls = Ok st \<and> wf_ranges (rs_iter st) \<and> proper (rs_iter st) \<and> rs_len st \<le> capacity \<and>
    points (rs_iter st) \<subseteq> fold covered calls {} \<and>
    (length (filter growing calls) \<le> capacity \<longrightarrow> points (rs_iter st) = fold covered calls {})"
proof -
  have mono: "X \<subseteq> Y \<Longrightarrow> covered call X \<subseteq> covered call Y" for call X Y
    by (cases call) auto
  have "\<exists>st. range_run capacity calls = Ok st \<and> rs_inv capacity st \<and> proper (rs_iter st) \<and>
      points (rs_iter st) \<subseteq> fold covered calls {} \<and> length (rs_iter st) \<le> length (filter growing calls) \<and>
      (length (filter growing calls) \<le> capacity \<longrightarrow> points (rs_iter st) = fold covered calls {})"
    using assms(2)
  proof (induction calls rule: rev_induct)
    case Nil
    then show ?case
      by (simp add: range_run_def rs_inv_def rs_new_def rs_capacity_def MAX_INLINE_CAPACITY_def proper_def)
  next
    case (snoc call calls)
    then obtain st where st: "range_run capacity calls = Ok st" "rs_inv capacity st"
        "points (rs_iter st) \<subseteq> fold covered calls {}" "length (rs_iter st) \<le> length (filter growing calls)"
        "length (filter growing calls) \<le> capacity \<longrightarrow> points (rs_iter st) = fold covered calls {}" "proper (rs_iter st)"
      by auto
    obtain st' where st': "range_call st call = Ok st'" "rs_inv capacity st'"
        "points (rs_iter st') \<subseteq> covered call (points (rs_iter st))"
        "length (rs_iter st) < capacity \<or> \<not> growing call \<longrightarrow> points (rs_iter st') = covered call (points (rs_iter st))"
        "length (rs_iter st') \<le> length (rs_iter st) + of_bool (growing call)" "proper (rs_iter st')"
      using range_call_inv [OF st(2) _ assms(1) st(6), of call] snoc.prems by auto
    have "range_run capacity (calls @ [call]) = Ok st'" using st(1) st'(1) by (simp add: range_run_def)
    moreover have "points (rs_iter st') \<subseteq> fold covered (calls @ [call]) {}" using order_trans [OF st'(3) mono [OF st(3)]] by simp
    moreover have "length (rs_iter st') \<le> length (filter growing (calls @ [call]))" using st(4) st'(5) by auto
    moreover have "points (rs_iter st') = fold covered (calls @ [call]) {}"
      if "length (filter growing (calls @ [call])) \<le> capacity"
    proof -
      have "length (filter growing calls) \<le> capacity" using that by simp
      moreover have "length (rs_iter st) < capacity \<or> \<not> growing call" using that st(4) by (cases "growing call") simp_all
      ultimately show ?thesis using st(5) st'(4) by simp
    qed
    ultimately show ?case using st'(2,6) by blast
  qed
  then show ?thesis by (auto simp: rs_inv_def rs_len_def)
qed

theorem range_set_exact_witness:
  "range_run 4 [Insert 4 7, Insert 9 12, Push 20, Insert 30 40, Insert 6 9, Remove_until 10, Push 50]
     = Ok (BTree [(11, 12), (20, 21), (30, 40), (50, 51)] 4) \<and>
   points (rs_iter (BTree [(11, 12), (20, 21), (30, 40), (50, 51)] 4)) \<subseteq>
     fold covered [Insert 4 7, Insert 9 12, Push 20, Insert 30 40, Insert 6 9, Remove_until 10, Push 50] {}"
proof -
  have "range_run 4 [Insert 4 7, Insert 9 12, Push 20, Insert 30 40, Insert 6 9, Remove_until 10, Push 50]
     = Ok (BTree [(11, 12), (20, 21), (30, 40), (50, 51)] 4)"
    by (simp add: range_run_def range_call_def rs_insert_def push_item_def rs_remove_until_def rs_new_def fixup_def
        inline_insert_def inline_loop.simps inline_merge.simps insert_at_def remove_at_def btree_insert_def prev_to_def next_to_def
        btree_absorb.simps bt_remove_def range_contains_def range_overlaps_def btree_remove_until_def
        MAX_INLINE_CAPACITY_def MIN_TO_INLINE_def)
  moreover have "list_all legal [Insert 4 7, Insert 9 12, Push 20, Insert 30 40, Insert 6 9, Remove_until 10, Push 50]"
    by (simp add: legal_def)
  ultimately show ?thesis
    using range_set_exact [of 4 "[Insert 4 7, Insert 9 12, Push 20, Insert 30 40, Insert 6 9, Remove_until 10, Push 50]"]
    by auto
qed

text \<open>The bound is not kept the way the vector and the tree promise: at a capacity of at most three, a
range below all the others makes the full vector panic, and the full tree gives up its smallest range
for a new range that is smaller still, so the lowest of the numbers is kept and the one above it lost.\<close>

theorem range_set_low_insert:
  "inline_insert 3 [(10, 11), (20, 21), (30, 31)] (5, 6) = Panic \<and>
   btree_insert 4 [(10, 11), (20, 21), (30, 31), (40, 41)] (5, 6) = [(5, 6), (20, 21), (30, 31), (40, 41)]"
  by code_simp

end
