(* ===== verification/QCore.thy ===== *)
theory QCore
  imports QRanges
begin

text \<open>
  What the streams of quiche share (\<^verbatim>\<open>quiche/quiche/src/\<close>): the errors of \<^verbatim>\<open>error.rs\<close> with their codes
  on the wire, the flow control of \<^verbatim>\<open>flowcontrol.rs\<close>, and the chunks of stream data of \<^verbatim>\<open>range_buf.rs\<close>.
  Offsets and lengths are naturals; a sum that leaves the 64 bits of the code panics. The
  differences that \<^verbatim>\<open>RangeBuf::off\<close> and \<^verbatim>\<open>RangeBuf::len\<close> take do not go below zero for a chunk that is
  \<open>buf_ok\<close>, and every chunk that the stream buffers hold is.
\<close>

section \<open>Errors\<close>

datatype qerror =
    Done
  | BufferTooShort
  | UnknownVersion
  | InvalidFrame
  | InvalidPacket
  | InvalidState
  | InvalidStreamState nat
  | InvalidTransportParam
  | CryptoFail
  | TlsFail
  | FlowControl
  | StreamLimit
  | StreamStopped nat
  | StreamReset nat
  | FinalSize
  | CongestionControl
  | IdLimit
  | OutOfIdentifiers
  | KeyUpdate
  | CryptoBufferExceeded
  | InvalidAckRange
  | OptimisticAckDetected
  | InvalidDcidInitialization

definition to_wire :: "qerror \<Rightarrow> nat" where
  "to_wire e = (case e of
     Done \<Rightarrow> 0x0
   | InvalidFrame \<Rightarrow> 0x7
   | InvalidStreamState _ \<Rightarrow> 0x5
   | InvalidTransportParam \<Rightarrow> 0x8
   | FlowControl \<Rightarrow> 0x3
   | StreamLimit \<Rightarrow> 0x4
   | IdLimit \<Rightarrow> 0x9
   | FinalSize \<Rightarrow> 0x6
   | CryptoBufferExceeded \<Rightarrow> 0xd
   | KeyUpdate \<Rightarrow> 0xe
   | _ \<Rightarrow> 0xa)"

definition u64_sum :: "nat \<Rightarrow> nat \<Rightarrow> (qerror, nat) run" where
  "u64_sum a b = (if a + b < 2 ^ 64 then Ok (a + b) else Panic)"

definition u64_diff :: "nat \<Rightarrow> nat \<Rightarrow> (qerror, nat) run" where
  "u64_diff a b = (if b \<le> a then Ok (a - b) else Panic)"

lemma u64_Ok [simp]: "a + b < 2 ^ 64 \<Longrightarrow> u64_sum a b = Ok (a + b)" "b \<le> a \<Longrightarrow> u64_diff a b = Ok (a - b)"
  by (simp_all add: u64_sum_def u64_diff_def)

section \<open>Flow control\<close>

definition WINDOW_INCREASE_FACTOR :: nat where "WINDOW_INCREASE_FACTOR = 2"
definition WINDOW_TRIGGER_FACTOR :: nat where "WINDOW_TRIGGER_FACTOR = 2"

record flow_control =
  fc_consumed :: nat
  fc_max_data :: nat
  fc_window :: nat
  fc_max_window :: nat
  fc_last_update :: "nat option"

definition fc_new :: "nat \<Rightarrow> nat \<Rightarrow> nat \<Rightarrow> flow_control" where
  "fc_new max_data window max_window =
     \<lparr>fc_consumed = 0, fc_max_data = max_data, fc_window = min window max_window,
      fc_max_window = max_window, fc_last_update = None\<rparr>"

definition add_consumed :: "nat \<Rightarrow> flow_control \<Rightarrow> (qerror, flow_control) run" where
  "add_consumed consumed f = bnd (u64_sum (fc_consumed f) consumed) (\<lambda>c. Ok (f\<lparr>fc_consumed := c\<rparr>))"

definition should_update_max_data :: "flow_control \<Rightarrow> (qerror, bool) run" where
  "should_update_max_data f =
     bnd (u64_diff (fc_max_data f) (fc_consumed f)) (\<lambda>available_window. Ok (available_window < fc_window f div 2))"

definition max_data_next :: "flow_control \<Rightarrow> (qerror, nat) run" where
  "max_data_next f = u64_sum (fc_consumed f) (fc_window f)"

definition update_max_data :: "nat \<Rightarrow> flow_control \<Rightarrow> (qerror, flow_control) run" where
  "update_max_data now f =
     bnd (max_data_next f) (\<lambda>m. Ok (f\<lparr>fc_max_data := m, fc_last_update := Some now\<rparr>))"

definition set_window :: "nat \<Rightarrow> flow_control \<Rightarrow> flow_control" where
  "set_window window f = f\<lparr>fc_window := min window (fc_max_window f)\<rparr>"

text \<open>The difference of two instants is zero when the second is the later one.\<close>

definition autotune_window :: "nat \<Rightarrow> nat \<Rightarrow> flow_control \<Rightarrow> (qerror, flow_control) run" where
  "autotune_window now rtt f = (case fc_last_update f of
     None \<Rightarrow> Ok f
   | Some last_update \<Rightarrow>
     if now - last_update < rtt * WINDOW_TRIGGER_FACTOR then
       (if fc_window f * WINDOW_INCREASE_FACTOR < 2 ^ 64
        then Ok (set_window (fc_window f * WINDOW_INCREASE_FACTOR) f) else Panic)
     else Ok f)"

definition ensure_window_lower_bound :: "nat \<Rightarrow> flow_control \<Rightarrow> flow_control" where
  "ensure_window_lower_bound min_window f = (if min_window > fc_window f then set_window min_window f else f)"

section \<open>Chunks of a stream\<close>

record range_buf =
  rb_data :: bytes
  rb_start :: nat
  rb_pos :: nat
  rb_len :: nat
  rb_off :: nat
  rb_fin :: bool

definition from_raw :: "bytes \<Rightarrow> nat \<Rightarrow> bool \<Rightarrow> range_buf" where
  "from_raw data off fin =
     \<lparr>rb_data = data, rb_start = 0, rb_pos = 0, rb_len = length data, rb_off = off, rb_fin = fin\<rparr>"

definition buf_off :: "range_buf \<Rightarrow> nat" where
  "buf_off b = rb_off b - rb_start b + rb_pos b"

definition buf_len :: "range_buf \<Rightarrow> nat" where
  "buf_len b = rb_len b - (rb_pos b - rb_start b)"

definition buf_max_off :: "range_buf \<Rightarrow> nat" where
  "buf_max_off b = buf_off b + buf_len b"

definition buf_is_empty :: "range_buf \<Rightarrow> bool" where
  "buf_is_empty b \<longleftrightarrow> buf_len b = 0"

definition consume :: "nat \<Rightarrow> range_buf \<Rightarrow> range_buf" where
  "consume count b = b\<lparr>rb_pos := rb_pos b + count\<rparr>"

text \<open>The part before the index, and the part from it on.\<close>

definition split_off :: "nat \<Rightarrow> range_buf \<Rightarrow> (qerror, range_buf \<times> range_buf) run" where
  "split_off at b =
     (if at \<le> rb_len b then
        Ok (b\<lparr>rb_pos := min (rb_pos b) (rb_start b + at), rb_len := at, rb_fin := False\<rparr>,
            b\<lparr>rb_start := rb_start b + at, rb_pos := max (rb_pos b) (rb_start b + at),
              rb_len := rb_len b - at, rb_off := rb_off b + at\<rparr>)
      else Panic)"

definition buf_deref :: "range_buf \<Rightarrow> (qerror, bytes) run" where
  "buf_deref b = sl (rb_data b) (rb_pos b) (rb_start b + rb_len b)"

section \<open>Lemmas: chunks\<close>

definition buf_ok :: "range_buf \<Rightarrow> bool" where
  "buf_ok b \<longleftrightarrow> rb_start b \<le> rb_pos b \<and> rb_pos b \<le> rb_start b + rb_len b \<and>
     rb_start b + rb_len b \<le> length (rb_data b) \<and> rb_start b \<le> rb_off b"

definition fresh :: "range_buf \<Rightarrow> bool" where
  "fresh b \<longleftrightarrow> buf_ok b \<and> rb_pos b = rb_start b"

definition view :: "range_buf \<Rightarrow> bytes" where
  "view b = take (buf_len b) (drop (rb_pos b) (rb_data b))"

text \<open>Every byte of the chunk is one that the stream \<open>src\<close> may have at its offset.\<close>

definition holds :: "(nat \<Rightarrow> u8 \<Rightarrow> bool) \<Rightarrow> range_buf \<Rightarrow> bool" where
  "holds src b \<longleftrightarrow> buf_ok b \<and> list_all2 src [buf_off b ..< buf_max_off b] (view b)"

definition span :: "range_buf \<Rightarrow> nat set" where
  "span b = {buf_off b ..< buf_max_off b}"

lemma fresh_from_raw [simp]: "fresh (from_raw data off fin)"
  by (simp add: fresh_def buf_ok_def from_raw_def)

lemma from_raw_simps [simp]:
  "buf_off (from_raw data off fin) = off" "buf_len (from_raw data off fin) = length data"
  "buf_max_off (from_raw data off fin) = off + length data" "view (from_raw data off fin) = data"
  "rb_fin (from_raw data off fin) = fin"
  by (simp_all add: from_raw_def buf_off_def buf_len_def buf_max_off_def view_def)

lemma buf_deref_view: "buf_ok b \<Longrightarrow> buf_deref b = Ok (view b)"
  by (auto simp: buf_ok_def buf_deref_def view_def buf_len_def add.commute)

lemma length_view [simp]: "buf_ok b \<Longrightarrow> length (view b) = buf_len b"
  by (auto simp: buf_ok_def view_def buf_len_def)

lemma max_off_minus [simp]: "buf_max_off b - buf_off b = buf_len b" and off_le_max_off [simp]: "buf_off b \<le> buf_max_off b"
  and not_max_off_less [simp]: "\<not> buf_max_off b < buf_off b"
  by (simp_all add: buf_max_off_def)

lemma split_off_fresh:
  assumes "fresh b" "at \<le> buf_len b"
  shows "\<exists>l r. split_off at b = Ok (l, r) \<and> fresh l \<and> fresh r \<and> buf_off l = buf_off b \<and> buf_max_off l = buf_off b + at \<and>
    buf_off r = buf_off b + at \<and> buf_max_off r = buf_max_off b \<and> view l = take at (view b) \<and> view r = drop at (view b) \<and>
    \<not> rb_fin l \<and> rb_fin r = rb_fin b"
  using assms
  by (auto simp: split_off_def fresh_def buf_ok_def buf_off_def buf_len_def buf_max_off_def view_def min_def max_def take_drop add.commute)

lemma holds_split:
  assumes "fresh b" "holds src b" "at \<le> buf_len b"
  shows "\<exists>l r. split_off at b = Ok (l, r) \<and> fresh l \<and> fresh r \<and> holds src l \<and> holds src r \<and> buf_off l = buf_off b \<and>
    buf_max_off l = buf_off b + at \<and> buf_off r = buf_off b + at \<and> buf_max_off r = buf_max_off b \<and> \<not> rb_fin l \<and> rb_fin r = rb_fin b"
proof -
  obtain l r where lr: "split_off at b = Ok (l, r)" "fresh l" "fresh r" "buf_off l = buf_off b" "buf_max_off l = buf_off b + at"
      "buf_off r = buf_off b + at" "buf_max_off r = buf_max_off b" "view l = take at (view b)" "view r = drop at (view b)"
      "\<not> rb_fin l" "rb_fin r = rb_fin b"
    using split_off_fresh [OF assms(1,3)] by blast
  have e: "buf_off b + at \<le> buf_max_off b" using assms(3) by (simp add: buf_max_off_def)
  have "list_all2 src [buf_off b ..< buf_max_off b] (view b)" using assms(2) by (simp add: holds_def)
  then have "list_all2 src (take at [buf_off b ..< buf_max_off b]) (view l)" "list_all2 src (drop at [buf_off b ..< buf_max_off b]) (view r)"
    unfolding lr(8,9) by (rule list_all2_takeI, rule list_all2_dropI)
  then have "list_all2 src [buf_off l ..< buf_max_off l] (view l)" "list_all2 src [buf_off r ..< buf_max_off r] (view r)"
    using lr(4-7) e by simp_all
  then have "holds src l" "holds src r" using lr(2,3) by (simp_all add: holds_def fresh_def)
  then show ?thesis using lr by blast
qed

lemma holds_split_at:
  assumes "fresh b" "holds src b" "buf_off b \<le> m" "m \<le> buf_max_off b"
  obtains l r where "split_off (m - buf_off b) b = Ok (l, r)" "fresh l" "fresh r" "holds src l" "holds src r"
    "buf_off l = buf_off b" "buf_max_off l = m" "buf_off r = m" "buf_max_off r = buf_max_off b"
    "\<not> rb_fin l" "rb_fin r = rb_fin b"
proof -
  have "m - buf_off b \<le> buf_len b" "buf_off b + (m - buf_off b) = m" using assms(3,4) by (simp_all add: buf_max_off_def)
  then show ?thesis using holds_split [OF assms(1,2), of "m - buf_off b"] that by auto
qed

lemma consume_simps:
  assumes "buf_ok b" "n \<le> buf_len b"
  shows "buf_ok (consume n b)" "buf_off (consume n b) = buf_off b + n" "buf_max_off (consume n b) = buf_max_off b"
    "view (consume n b) = drop n (view b)"
  using assms by (auto simp: consume_def buf_ok_def buf_off_def buf_len_def buf_max_off_def view_def drop_take add.commute)

lemma holds_consume: "holds src b \<Longrightarrow> n \<le> buf_len b \<Longrightarrow> holds src (consume n b)"
  using list_all2_dropI [of src "[buf_off b ..< buf_max_off b]" "view b" n] by (simp add: holds_def consume_simps)

lemma holds_mono: "holds src b \<Longrightarrow> (\<And>i x. src i x \<Longrightarrow> src' i x) \<Longrightarrow> holds src' b"
  by (auto simp: holds_def elim: list_all2_mono)

end
