(* ===== verification/QRecvBuf.thy ===== *)
theory QRecvBuf
  imports QCore
begin

text \<open>
  The receiving side of a QUIC stream (\<^verbatim>\<open>quiche/quiche/src/stream/recv_buf.rs\<close>): chunks arrive at any
  offset, in any order, more than once and overlapping, and are read out in order. The B-tree of
  the chunks is the list of its entries in the order of their keys, which are the ends of the chunks.
\<close>

section \<open>The buffer\<close>

record recv_buf =
  rv_data :: "(nat \<times> range_buf) list"
  rv_off :: nat
  rv_len :: nat
  rv_flow :: flow_control
  rv_fin_off :: "nat option"
  rv_error :: "nat option"
  rv_drain :: bool

datatype recv_action = Emit nat | Discard nat

definition recv_new :: "nat \<Rightarrow> nat \<Rightarrow> nat \<Rightarrow> recv_buf" where
  "recv_new max_data initial_window max_window =
     \<lparr>rv_data = [], rv_off = 0, rv_len = 0, rv_flow = fc_new max_data initial_window max_window,
      rv_fin_off = None, rv_error = None, rv_drain = False\<rparr>"

definition ready :: "recv_buf \<Rightarrow> bool" where
  "ready st = (case rv_data st of [] \<Rightarrow> False | (_, buf) # _ \<Rightarrow> buf_off buf = rv_off st)"

definition recv_is_fin :: "recv_buf \<Rightarrow> bool" where
  "recv_is_fin st \<longleftrightarrow> rv_fin_off st = Some (rv_off st)"

definition almost_full :: "recv_buf \<Rightarrow> (qerror, bool) run" where
  "almost_full st = (if rv_fin_off st = None then should_update_max_data (rv_flow st) else Ok False)"

section \<open>Writing\<close>

text \<open>The loop over the chunks that may overlap the new one. It returns what is left of the new chunk, if
  anything, and the parts that were put off.\<close>

fun scan :: "range_buf \<Rightarrow> range_buf list \<Rightarrow> range_buf list \<Rightarrow> (qerror, range_buf option \<times> range_buf list) run" where
  "scan buf [] pushed = Ok (Some buf, pushed)"
| "scan buf (b # bs) pushed =
     (let off = buf_off buf in
      if buf_off b > buf_max_off buf then Ok (Some buf, pushed)
      else if off \<ge> buf_off b \<and> buf_max_off buf \<le> buf_max_off b then Ok (None, pushed)
      else
        bnd (if off \<ge> buf_off b \<and> off < buf_max_off b
             then bnd (split_off (buf_max_off b - off) buf) (\<lambda>(_, r). Ok r) else Ok buf) (\<lambda>buf.
        if off < buf_off b \<and> buf_max_off buf > buf_off b
        then bnd (split_off (buf_off b - off) buf) (\<lambda>(l, r). scan l bs (pushed @ [r]))
        else scan buf bs pushed))"

definition store :: "range_buf \<Rightarrow> recv_buf \<Rightarrow> recv_buf" where
  "store buf st =
     (let st = st\<lparr>rv_len := max (rv_len st) (buf_max_off buf)\<rparr> in
      if \<not> rv_drain st then st\<lparr>rv_data := bt_insert (buf_max_off buf) buf (rv_data st)\<rparr>
      else st\<lparr>rv_off := rv_len st\<rparr>)"

text \<open>The loop \<^verbatim>\<open>'tmp\<close> over the parts still to be placed. Each turn places at least a byte, so the number of
  bytes bounds its turns.\<close>

fun write_loop :: "nat \<Rightarrow> range_buf list \<Rightarrow> recv_buf \<Rightarrow> (qerror, recv_buf) run" where
  "write_loop n [] st = Ok st"
| "write_loop 0 (buf # tmp_bufs) st = Panic"
| "write_loop (Suc n) (buf # tmp_bufs) st =
     bnd (if rv_off st > buf_off buf
          then bnd (split_off (rv_off st - buf_off buf) buf) (\<lambda>(_, r). Ok r) else Ok buf) (\<lambda>buf.
     bnd (if buf_off buf < rv_len st \<or> buf_is_empty buf
          then scan buf (map snd (filter (\<lambda>(k, _). buf_off buf \<le> k) (rv_data st))) []
          else Ok (Some buf, [])) (\<lambda>(kept, pushed).
     write_loop n (tmp_bufs @ pushed) (case kept of None \<Rightarrow> st | Some buf \<Rightarrow> store buf st)))"

declare write_loop.simps(3) [simp del]

text \<open>An error leaves the buffer as it was.\<close>

definition recv_write :: "range_buf \<Rightarrow> recv_buf \<Rightarrow> (qerror, recv_buf) run" where
  "recv_write buf st =
     (if buf_max_off buf \<ge> 2 ^ 64 then Panic
      else if buf_max_off buf > fc_max_data (rv_flow st) then Err FlowControl
      else if (case rv_fin_off st of None \<Rightarrow> False | Some fin_off \<Rightarrow>
                 buf_max_off buf > fin_off \<or> rb_fin buf \<and> fin_off \<noteq> buf_max_off buf) then Err FinalSize
      else if rb_fin buf \<and> buf_max_off buf < rv_len st then Err FinalSize
      else if rv_fin_off st \<noteq> None \<and> buf_is_empty buf then Ok st
      else let st = (if rb_fin buf then st\<lparr>rv_fin_off := Some (buf_max_off buf)\<rparr> else st) in
        if \<not> rb_fin buf \<and> buf_is_empty buf then Ok st
        else if rv_off st \<ge> buf_max_off buf \<and> \<not> buf_is_empty buf then Ok st
        else write_loop (Suc (buf_len buf)) [buf] st)"

section \<open>Reading\<close>

fun emit_loop :: "bool \<Rightarrow> nat \<Rightarrow> nat \<Rightarrow> nat \<Rightarrow> bytes \<Rightarrow> (nat \<times> range_buf) list \<Rightarrow>
    (qerror, nat \<times> nat \<times> bytes \<times> (nat \<times> range_buf) list) run" where
  "emit_loop emit cap off len out [] = Ok (off, len, out, [])"
| "emit_loop emit cap off len out ((k, buf) # data) =
     (if cap > 0 \<and> buf_off buf = off then
        let n = min (buf_len buf) cap in
        bnd (if emit then bnd (buf_deref buf) (\<lambda>bs. sl bs 0 n) else Ok []) (\<lambda>piece.
        if n < buf_len buf then Ok (off + n, len + n, out @ piece, (k, consume n buf) # data)
        else emit_loop emit (cap - n) (off + n) (len + n) (out @ piece) data)
      else Ok (off, len, out, (k, buf) # data))"

text \<open>The length and the flag returned, and the bytes written out.\<close>

definition emit_or_discard :: "recv_action \<Rightarrow> recv_buf \<Rightarrow> (qerror, nat \<times> bool \<times> bytes) run \<times> recv_buf" where
  "emit_or_discard action st =
     (if \<not> ready st then (Err Done, st)
      else case rv_error st of
        Some e \<Rightarrow> (Err (StreamReset e), st\<lparr>rv_data := []\<rparr>)
      | None \<Rightarrow>
        let (emit, cap) = (case action of Emit n \<Rightarrow> (True, n) | Discard n \<Rightarrow> (False, n)) in
        case emit_loop emit cap (rv_off st) 0 [] (rv_data st) of
          Ok (off, len, out, data) \<Rightarrow>
            let st = st\<lparr>rv_off := off, rv_data := data\<rparr> in
            (case add_consumed len (rv_flow st) of
               Ok flow \<Rightarrow> (let st = st\<lparr>rv_flow := flow\<rparr> in (Ok (len, recv_is_fin st, out), st))
             | Err e \<Rightarrow> (Err e, st)
             | Panic \<Rightarrow> (Panic, st))
        | Err e \<Rightarrow> (Err e, st)
        | Panic \<Rightarrow> (Panic, st))"

definition recv_emit :: "nat \<Rightarrow> recv_buf \<Rightarrow> (qerror, nat \<times> bool \<times> bytes) run \<times> recv_buf" where
  "recv_emit room st = emit_or_discard (Emit room) st"

section \<open>Ending\<close>

text \<open>The change of the connection's limit, and the bytes it may count as consumed.\<close>

definition recv_reset :: "nat \<Rightarrow> nat \<Rightarrow> recv_buf \<Rightarrow> (qerror, nat \<times> nat) run \<times> recv_buf" where
  "recv_reset error_code final_size st =
     (if (case rv_fin_off st of None \<Rightarrow> False | Some fin_off \<Rightarrow> fin_off \<noteq> final_size) then (Err FinalSize, st)
      else if final_size < rv_len st then (Err FinalSize, st)
      else if rv_error st \<noteq> None then (Ok (0, 0), st)
      else case (u64_diff final_size (rv_len st), u64_diff final_size (rv_off st)) of
        (Ok max_data_delta, Ok consumed_flowcontrol) \<Rightarrow>
          let st = st\<lparr>rv_error := Some error_code, rv_off := final_size, rv_data := []\<rparr> in
          (case recv_write (from_raw [] final_size True) st of
             Ok st \<Rightarrow> (Ok (max_data_delta, consumed_flowcontrol), st)
           | Err e \<Rightarrow> (Err e, st)
           | Panic \<Rightarrow> (Panic, st))
      | _ \<Rightarrow> (Panic, st))"

definition recv_shutdown :: "recv_buf \<Rightarrow> (qerror, nat) run \<times> recv_buf" where
  "recv_shutdown st =
     (if rv_drain st then (Err Done, st)
      else let st = st\<lparr>rv_drain := True, rv_data := []\<rparr> in
        (u64_diff (rv_len st) (rv_off st), st\<lparr>rv_off := rv_len st\<rparr>))"

section \<open>Lemmas: placing a chunk\<close>

definition chunks_ok :: "(nat \<Rightarrow> u8 \<Rightarrow> bool) \<Rightarrow> nat \<Rightarrow> (nat \<times> range_buf) list \<Rightarrow> bool" where
  "chunks_ok src off data \<longleftrightarrow>
     sorted_wrt (\<lambda>x y. fst x < fst y \<and> fst x \<le> buf_off (snd y)) data \<and>
     (\<forall>x \<in> set data. fst x = buf_max_off (snd x) \<and> holds src (snd x) \<and> off \<le> buf_off (snd x))"

definition spans :: "range_buf list \<Rightarrow> nat set" where
  "spans bs = (\<Union>b \<in> set bs. span b)"

lemma spans_simps [simp]: "spans [] = {}" "spans (b # bs) = span b \<union> spans bs" "spans (bs @ cs) = spans bs \<union> spans cs"
  by (auto simp: spans_def)

lemma span_empty: "span b = {} \<longleftrightarrow> buf_len b = 0"
  by (auto simp: span_def buf_max_off_def)

lemma chunks_ok_Nil [simp]: "chunks_ok src off []"
  by (simp add: chunks_ok_def)

lemma chunks_ok_Cons: "chunks_ok src off (x # data) \<longleftrightarrow>
    fst x = buf_max_off (snd x) \<and> holds src (snd x) \<and> off \<le> buf_off (snd x) \<and>
    (\<forall>y \<in> set data. fst x < fst y \<and> fst x \<le> buf_off (snd y)) \<and> chunks_ok src off data"
  by (auto simp: chunks_ok_def)

text \<open>A chunk that lies beside all the others is put among them.\<close>

lemma bt_insert_chunks:
  assumes "chunks_ok src off data" "holds src buf" "off \<le> buf_off buf"
    "\<forall>x \<in> set data. fst x \<le> buf_off buf \<or> buf_max_off buf \<le> buf_off (snd x)"
    "buf_len buf = 0 \<Longrightarrow> \<forall>x \<in> set data. fst x < buf_max_off buf"
  shows "chunks_ok src off (bt_insert (buf_max_off buf) buf data) \<and>
    spans (map snd (bt_insert (buf_max_off buf) buf data)) = spans (map snd data) \<union> span buf \<and>
    set (bt_insert (buf_max_off buf) buf data) \<subseteq> insert (buf_max_off buf, buf) (set data)"
  using assms
proof (induction data)
  case Nil
  then show ?case by (simp add: chunks_ok_Cons)
next
  case (Cons x data)
  obtain k b where x: "x = (k, b)" by (cases x)
  have b: "k = buf_max_off b" "holds src b" "off \<le> buf_off b" "\<forall>y \<in> set data. k < fst y \<and> k \<le> buf_off (snd y)" "chunks_ok src off data"
    using Cons.prems(1) x by (auto simp: chunks_ok_Cons)
  consider "buf_max_off buf < k" | "buf_max_off buf = k" | "k < buf_max_off buf" by linarith
  then show ?case
  proof cases
    case 1
    then have "buf_max_off buf \<le> buf_off b" using Cons.prems(4) x b(1) off_le_max_off [of buf] by fastforce
    moreover have "\<forall>y \<in> set data. buf_max_off buf < fst y \<and> buf_max_off buf \<le> buf_off (snd y)"
      using 1 b(4) less_trans order.trans less_imp_le by metis
    ultimately show ?thesis using 1 x b Cons.prems(2,3) by (auto simp: chunks_ok_Cons)
  next
    case 2
    have "buf_len buf \<noteq> 0" using 2 Cons.prems(5) x by auto
    then have "\<not> k \<le> buf_off buf" using 2 by (simp add: buf_max_off_def)
    then have "k \<le> buf_off b" using Cons.prems(4) x 2 by simp
    then have "span b = {}" using b(1) by (simp add: span_def)
    then show ?thesis using 2 x b Cons.prems(2,3) by (auto simp: chunks_ok_Cons)
  next
    case 3
    have lo: "k \<le> buf_off buf" using 3 Cons.prems(4) x b(1) off_le_max_off [of b] by fastforce
    have IH: "chunks_ok src off (bt_insert (buf_max_off buf) buf data)"
      "spans (map snd (bt_insert (buf_max_off buf) buf data)) = spans (map snd data) \<union> span buf"
      "set (bt_insert (buf_max_off buf) buf data) \<subseteq> insert (buf_max_off buf, buf) (set data)"
      using Cons.IH [OF b(5) Cons.prems(2,3)] Cons.prems(4,5) by auto
    have "\<forall>y \<in> set (bt_insert (buf_max_off buf) buf data). k < fst y \<and> k \<le> buf_off (snd y)"
      using IH(3) b(4) 3 lo by auto
    then show ?thesis using 3 x b IH by (auto simp: chunks_ok_Cons)
  qed
qed

lemma scan_past:
  "\<forall>b \<in> set bs. buf_max_off buf \<le> buf_off b \<Longrightarrow> buf_off buf < buf_max_off buf \<Longrightarrow> scan buf bs pushed = Ok (Some buf, pushed)"
  by (induction bs) (auto simp: Let_def)

text \<open>What is left of a chunk after the scan lies beside the others, and with the part put off and the others
  it still covers the chunk.\<close>

definition scanned :: "(nat \<Rightarrow> u8 \<Rightarrow> bool) \<Rightarrow> range_buf \<Rightarrow> range_buf list \<Rightarrow> range_buf option \<Rightarrow> range_buf list \<Rightarrow> bool" where
  "scanned src buf bs kept pushed \<longleftrightarrow> (case kept of
     None \<Rightarrow> pushed = [] \<and> span buf \<subseteq> spans bs
   | Some b \<Rightarrow> fresh b \<and> holds src b \<and> buf_off buf \<le> buf_off b \<and> 0 < buf_len b \<and>
       (\<forall>x \<in> set bs. buf_max_off x \<le> buf_off b \<or> buf_max_off b \<le> buf_off x) \<and>
       (pushed = [] \<and> buf_max_off b = buf_max_off buf \<or>
        (\<exists>r. pushed = [r] \<and> fresh r \<and> holds src r \<and> buf_off r = buf_max_off b \<and> buf_max_off r = buf_max_off buf \<and> 0 < buf_len r)) \<and>
       {buf_off buf ..< buf_off b} \<subseteq> spans bs)"

lemma buf_lenI: "buf_off b < buf_max_off b \<Longrightarrow> 0 < buf_len b"
  by (simp add: buf_max_off_def)

lemma scan_scanned:
  assumes "fresh buf" "holds src buf" "0 < buf_len buf" "sorted_wrt (\<lambda>x y. buf_max_off x \<le> buf_off y) bs"
    "\<forall>b \<in> set bs. buf_off buf \<le> buf_max_off b"
  shows "\<exists>kept pushed. scan buf bs [] = Ok (kept, pushed) \<and> scanned src buf bs kept pushed"
  using assms
proof (induction bs arbitrary: buf)
  case Nil
  then show ?case by (auto simp: scanned_def)
next
  case (Cons b bs)
  have nonempty: "buf_off buf < buf_max_off buf" using Cons.prems(3) by (simp add: buf_max_off_def)
  have later: "\<forall>x \<in> set bs. buf_max_off b \<le> buf_off x" "sorted_wrt (\<lambda>x y. buf_max_off x \<le> buf_off y) bs"
    using Cons.prems(4) by auto
  have touch: "buf_off buf \<le> buf_max_off b" using Cons.prems(5) by simp
  note e = off_le_max_off [of b]
  consider "buf_max_off buf \<le> buf_off b"
    | "buf_off b \<le> buf_off buf" "buf_max_off buf \<le> buf_max_off b"
    | "buf_off b \<le> buf_off buf" "buf_off buf < buf_max_off b" "buf_max_off b < buf_max_off buf"
    | "buf_off b \<le> buf_off buf" "buf_off buf = buf_max_off b" "buf_max_off b < buf_max_off buf"
    | "buf_off buf < buf_off b" "buf_off b < buf_max_off buf"
    using touch by linarith
  then show ?case
  proof cases
    case 1
    have beside: "\<forall>x \<in> set (b # bs). buf_max_off buf \<le> buf_off x"
      using 1 later(1) by (auto intro: order_trans [OF order_trans [OF 1 e]])
    then show ?thesis using scan_past [OF beside nonempty] Cons.prems by (auto simp: scanned_def)
  next
    case 2
    then show ?thesis using nonempty by (auto simp: scanned_def span_def)
  next
    case 3
    obtain l r where lr: "split_off (buf_max_off b - buf_off buf) buf = Ok (l, r)" "fresh r" "holds src r"
        "buf_off r = buf_max_off b" "buf_max_off r = buf_max_off buf"
      by (rule holds_split_at [OF Cons.prems(1,2), of "buf_max_off b"]) (use 3 in auto)
    obtain kept pushed where k: "scan r bs [] = Ok (kept, pushed)" "scanned src r bs kept pushed"
      using Cons.IH [OF lr(2,3) _ later(2)] lr(4,5) 3 later(1) buf_lenI by (metis off_le_max_off order_trans)
    have "scan buf (b # bs) [] = Ok (kept, pushed)" using 3 lr k(1) by (simp add: Let_def)
    moreover have cover: "{buf_off buf ..< z} \<subseteq> span b \<union> S" if "{buf_max_off b ..< z} \<subseteq> S" for z S
      using that 3 by (force simp: span_def subset_iff not_less)
    then have "scanned src buf (b # bs) kept pushed"
      using k(2) lr(4,5) 3 by (auto simp: scanned_def span_def [of r] span_def [of buf] split: option.splits)
    ultimately show ?thesis by blast
  next
    case 4
    obtain kept pushed where k: "scan buf bs [] = Ok (kept, pushed)" "scanned src buf bs kept pushed"
      using Cons.IH [OF Cons.prems(1-3) later(2)] Cons.prems(5) by auto
    have near: "\<not> buf_max_off buf < buf_off b" using 4 e by linarith
    have "scan buf (b # bs) [] = Ok (kept, pushed)" using 4 k(1) by (simp add: Let_def near)
    moreover have "scanned src buf (b # bs) kept pushed"
      using k(2) 4 by (auto simp: scanned_def split: option.splits)
    ultimately show ?thesis by blast
  next
    case 5
    obtain l r where lr: "split_off (buf_off b - buf_off buf) buf = Ok (l, r)" "fresh l" "holds src l" "fresh r" "holds src r"
        "buf_off l = buf_off buf" "buf_max_off l = buf_off b" "buf_off r = buf_off b" "buf_max_off r = buf_max_off buf"
      by (rule holds_split_at [OF Cons.prems(1,2), of "buf_off b"]) (use 5 in auto)
    have beside: "\<forall>x \<in> set (b # bs). buf_max_off l \<le> buf_off x" using lr(7) later(1) by (auto intro: order_trans [OF e])
    then have "scan l bs [r] = Ok (Some l, [r])" using scan_past [of bs l "[r]"] lr 5 by simp
    then have "scan buf (b # bs) [] = Ok (Some l, [r])" using 5 lr by (simp add: Let_def)
    moreover have "scanned src buf (b # bs) (Some l) [r]"
      using lr 5 beside buf_lenI [of l] buf_lenI [of r] by (auto simp: scanned_def)
    ultimately show ?thesis by blast
  qed
qed

text \<open>The buffer after a chunk that covers \<open>X\<close> and ends at \<open>e\<close> has been placed.\<close>

definition placed :: "(nat \<Rightarrow> u8 \<Rightarrow> bool) \<Rightarrow> nat \<Rightarrow> recv_buf \<Rightarrow> recv_buf \<Rightarrow> nat set \<Rightarrow> bool" where
  "placed src e st st' X \<longleftrightarrow>
     st' = st\<lparr>rv_data := rv_data st', rv_len := rv_len st'\<rparr> \<and> chunks_ok src (rv_off st) (rv_data st') \<and>
     {..< rv_off st} \<union> spans (map snd (rv_data st')) = {..< rv_off st} \<union> spans (map snd (rv_data st)) \<union> X \<and>
     rv_len st \<le> rv_len st' \<and> rv_len st' \<le> max (rv_len st) e \<and> (\<forall>x \<in> set (rv_data st'). fst x \<le> rv_len st') \<and>
     (\<forall>x \<in> set (rv_data st'). buf_len (snd x) = 0 \<longrightarrow> x \<in> set (rv_data st))"

lemma placed_trans:
  assumes "placed src e st st' X" "placed src e st' st'' Y"
  shows "placed src e st st'' (X \<union> Y)"
proof -
  have st': "st' = st\<lparr>rv_data := rv_data st', rv_len := rv_len st'\<rparr>" and st'': "st'' = st'\<lparr>rv_data := rv_data st'', rv_len := rv_len st''\<rparr>"
    using assms by (auto simp: placed_def)
  have "st'' = st\<lparr>rv_data := rv_data st'', rv_len := rv_len st''\<rparr>"
    by (subst st'', subst st') simp
  moreover have "rv_off st' = rv_off st" by (subst st') simp
  ultimately show ?thesis using assms by (auto simp: placed_def)
qed

lemma store_placed:
  assumes "chunks_ok src (rv_off st) (rv_data st)" "\<forall>x \<in> set (rv_data st). fst x \<le> rv_len st" "\<not> rv_drain st"
    "holds src b" "rv_off st \<le> buf_off b" "0 < buf_len b"
    "\<forall>x \<in> set (map snd (rv_data st)). buf_max_off x \<le> buf_off b \<or> buf_max_off b \<le> buf_off x" "buf_max_off b \<le> e"
  shows "placed src e st (store b st) (span b)"
proof -
  have "\<forall>x \<in> set (rv_data st). fst x \<le> buf_off b \<or> buf_max_off b \<le> buf_off (snd x)"
    using assms(1,7) by (auto simp: chunks_ok_def)
  then have i: "chunks_ok src (rv_off st) (bt_insert (buf_max_off b) b (rv_data st))"
      "spans (map snd (bt_insert (buf_max_off b) b (rv_data st))) = spans (map snd (rv_data st)) \<union> span b"
      "set (bt_insert (buf_max_off b) b (rv_data st)) \<subseteq> insert (buf_max_off b, b) (set (rv_data st))"
    using bt_insert_chunks [OF assms(1,4,5)] assms(6) by auto
  have "fst x \<le> max (rv_len st) (buf_max_off b)" "buf_len (snd x) = 0 \<longrightarrow> x \<in> set (rv_data st)"
    if "x \<in> set (bt_insert (buf_max_off b) b (rv_data st))" for x
    using that i(3) assms(2,6) by fastforce+
  then show ?thesis using i(1,2) assms(3,8) by (auto simp: placed_def store_def Let_def)
qed

lemma chunks_sorted:
  assumes "chunks_ok src off data"
  shows "sorted_wrt (\<lambda>x y. buf_max_off x \<le> buf_off y) (map snd data)"
proof -
  have "sorted_wrt (\<lambda>x y. fst x < fst y \<and> fst x \<le> buf_off (snd y)) data" "\<forall>x \<in> set data. fst x = buf_max_off (snd x)"
    using assms by (auto simp: chunks_ok_def)
  then show ?thesis by (induction data) auto
qed

lemma chunks_filter: "chunks_ok src off data \<Longrightarrow> chunks_ok src off (filter P data)"
  by (auto simp: chunks_ok_def sorted_wrt_filter)

lemma scanned_more:
  assumes "scanned src buf bs kept pushed" "set bs \<subseteq> set cs" "\<forall>x \<in> set cs - set bs. buf_max_off x \<le> buf_off buf"
  shows "scanned src buf cs kept pushed"
proof -
  have "spans bs \<subseteq> spans cs" using assms(2) by (auto simp: spans_def)
  moreover have "buf_max_off x \<le> buf_off b" if "x \<in> set cs" "x \<notin> set bs" "buf_off buf \<le> buf_off b" for x b
    using that assms(3) by (metis DiffI order_trans)
  ultimately show ?thesis using assms(1) by (fastforce simp: scanned_def split: option.splits)
qed

text \<open>One turn of the loop: what is scanned is the part above what has been read.\<close>

lemma write_turn:
  assumes "chunks_ok src (rv_off st) (rv_data st)" "\<forall>x \<in> set (rv_data st). fst x \<le> rv_len st"
    "fresh buf" "holds src buf" "0 < buf_len buf" "rv_off st < buf_max_off buf"
  obtains b kept pushed where
    "write_loop (Suc n) [buf] st = write_loop n pushed (case kept of None \<Rightarrow> st | Some x \<Rightarrow> store x st)"
    "buf_off b = max (rv_off st) (buf_off buf)" "buf_max_off b = buf_max_off buf"
    "scanned src b (map snd (rv_data st)) kept pushed"
proof -
  obtain b where b: "(if rv_off st > buf_off buf then bnd (split_off (rv_off st - buf_off buf) buf) (\<lambda>(_, r). Ok r) else Ok buf) = Ok b"
      "fresh b" "holds src b" "buf_off b = max (rv_off st) (buf_off buf)" "buf_max_off b = buf_max_off buf"
  proof (cases "rv_off st > buf_off buf")
    case True
    then obtain l r where "split_off (rv_off st - buf_off buf) buf = Ok (l, r)" "fresh r" "holds src r"
        "buf_off r = rv_off st" "buf_max_off r = buf_max_off buf"
      using assms(6) by (metis holds_split_at [OF assms(3,4)] less_imp_le)
    then show ?thesis using that [of r] True by simp
  qed (use that [of buf] assms(3,4) in auto)
  have pos: "0 < buf_len b" using b(4,5) assms(5,6) by (auto intro!: buf_lenI simp: max_def) (simp add: buf_max_off_def)
  let ?near = "filter (\<lambda>(k, _). buf_off b \<le> k) (rv_data st)"
  have far: "\<forall>x \<in> set (map snd (rv_data st)) - set (map snd ?near). buf_max_off x \<le> buf_off b"
    using assms(1) by (force simp: chunks_ok_def not_le)
  obtain kept pushed where s: "(if buf_off b < rv_len st \<or> buf_is_empty b then scan b (map snd ?near) [] else Ok (Some b, [])) = Ok (kept, pushed)"
      "scanned src b (map snd (rv_data st)) kept pushed"
  proof (cases "buf_off b < rv_len st")
    case True
    have "\<forall>x \<in> set (map snd ?near). buf_off b \<le> buf_max_off x" using assms(1) by (auto simp: chunks_ok_def)
    then obtain kept pushed where k: "scan b (map snd ?near) [] = Ok (kept, pushed)" "scanned src b (map snd ?near) kept pushed"
      using scan_scanned [OF b(2,3) pos chunks_sorted [OF chunks_filter [OF assms(1)]]] by blast
    have "scanned src b (map snd (rv_data st)) kept pushed" by (rule scanned_more [OF k(2) _ far]) auto
    then show ?thesis using that k(1) True by simp
  next
    case False
    have "scanned src b (map snd (rv_data st)) (Some b) []"
      using False assms(1,2) b(2,3) pos by (fastforce simp: scanned_def chunks_ok_def)
    then show ?thesis using that [of "Some b" "[]"] False pos by (simp add: buf_is_empty_def)
  qed
  show ?thesis using that [OF _ b(4,5) s(2)] b(1) s(1) by (simp add: write_loop.simps(3))
qed

lemma write_loop_placed:
  assumes "chunks_ok src (rv_off st) (rv_data st)" "\<forall>x \<in> set (rv_data st). fst x \<le> rv_len st" "\<not> rv_drain st"
    "fresh buf" "holds src buf" "0 < buf_len buf" "rv_off st < buf_max_off buf" "buf_len buf < n"
  shows "\<exists>st'. write_loop n [buf] st = Ok st' \<and> placed src (buf_max_off buf) st st' (span buf)"
  using assms
proof (induction n arbitrary: buf st)
  case 0
  then show ?case by simp
next
  case (Suc n)
  obtain b kept pushed where t:
      "write_loop (Suc n) [buf] st = write_loop n pushed (case kept of None \<Rightarrow> st | Some x \<Rightarrow> store x st)"
      "buf_off b = max (rv_off st) (buf_off buf)" "buf_max_off b = buf_max_off buf"
      "scanned src b (map snd (rv_data st)) kept pushed"
    using write_turn [OF Suc.prems(1,2,4-7)] by blast
  have whole: "span buf \<subseteq> {..< rv_off st} \<union> span b" "span b \<subseteq> span buf" using t(2,3) by (auto simp: span_def)
  show ?case
  proof (cases kept)
    case None
    then have "pushed = []" "span b \<subseteq> spans (map snd (rv_data st))" using t(4) by (auto simp: scanned_def)
    then have "placed src (buf_max_off buf) st st (span buf)"
      using Suc.prems(1,2) whole by (auto simp: placed_def)
    then show ?thesis using t(1) None \<open>pushed = []\<close> by simp
  next
    case (Some x)
    then have x: "fresh x" "holds src x" "buf_off b \<le> buf_off x" "0 < buf_len x"
        "\<forall>y \<in> set (map snd (rv_data st)). buf_max_off y \<le> buf_off x \<or> buf_max_off x \<le> buf_off y"
        "{buf_off b ..< buf_off x} \<subseteq> spans (map snd (rv_data st))"
        "pushed = [] \<and> buf_max_off x = buf_max_off buf \<or>
         (\<exists>r. pushed = [r] \<and> fresh r \<and> holds src r \<and> buf_off r = buf_max_off x \<and> buf_max_off r = buf_max_off buf \<and> 0 < buf_len r)"
      using t(3,4) by (auto simp: scanned_def)
    have "buf_max_off x \<le> buf_max_off buf" using x(7) by (auto simp: buf_max_off_def)
    moreover have "rv_off st \<le> buf_off x" using x(3) t(2) by simp
    ultimately have p: "placed src (buf_max_off buf) st (store x st) (span x)"
      using store_placed [OF Suc.prems(1-3) x(2) _ x(4,5)] by blast
    have cover: "placed src (buf_max_off buf) st st' (span buf)"
      if "placed src (buf_max_off buf) st st' ({buf_off x ..< buf_max_off buf})" for st'
    proof -
      have "span buf \<subseteq> {..< rv_off st} \<union> spans (map snd (rv_data st)) \<union> {buf_off x ..< buf_max_off buf}"
        using x(6) t(2) by (force simp: span_def)
      moreover have "{buf_off x ..< buf_max_off buf} \<subseteq> span buf" using x(3) t(2) by (auto simp: span_def)
      ultimately show ?thesis using that by (auto simp: placed_def)
    qed
    from x(7) show ?thesis
    proof (elim disjE exE conjE)
      assume "pushed = []" "buf_max_off x = buf_max_off buf"
      then show ?thesis using t(1) Some cover [of "store x st"] p by (simp add: span_def)
    next
      fix r assume r: "pushed = [r]" "fresh r" "holds src r" "buf_off r = buf_max_off x" "buf_max_off r = buf_max_off buf" "0 < buf_len r"
      have s: "rv_off (store x st) = rv_off st" "rv_drain (store x st) = rv_drain st"
        using Suc.prems(3) by (simp_all add: store_def Let_def)
      have "buf_len r < buf_len buf"
        using r(4,5) x(3,4) t(2) by (simp add: buf_max_off_def)
      then obtain st' where st': "write_loop n [r] (store x st) = Ok st'" "placed src (buf_max_off r) (store x st) st' (span r)"
        using Suc.IH [of "store x st" r] p r s Suc.prems(3,7,8) by (auto simp: placed_def)
      have "span x \<union> span r = {buf_off x ..< buf_max_off buf}" using r(4,5) x(4) by (auto simp: span_def buf_max_off_def)
      then have "placed src (buf_max_off buf) st st' (span buf)"
        using placed_trans [OF p, of st' "span r"] st'(2) r(5) by (intro cover) simp
      then show ?thesis using t(1) Some r(1) st'(1) by simp
    qed
  qed
qed

section \<open>Lemmas: the buffer\<close>

text \<open>The buffer of a stream \<open>src\<close> of which the offsets \<open>C\<close> have come in.\<close>

definition recv_inv :: "(nat \<Rightarrow> u8 \<Rightarrow> bool) \<Rightarrow> nat set \<Rightarrow> recv_buf \<Rightarrow> bool" where
  "recv_inv src C st \<longleftrightarrow>
     chunks_ok src (rv_off st) (rv_data st) \<and> {..< rv_off st} \<union> spans (map snd (rv_data st)) = C \<and>
     rv_off st \<le> rv_len st \<and> (\<forall>x \<in> set (rv_data st). fst x \<le> rv_len st) \<and>
     (\<forall>x \<in> set (rv_data st). buf_len (snd x) = 0 \<longrightarrow> rv_fin_off st = Some (fst x)) \<and>
     (\<forall>fin. rv_fin_off st = Some fin \<longrightarrow> rv_len st \<le> fin) \<and> \<not> rv_drain st \<and> rv_error st = None \<and>
     rv_len st \<le> fc_max_data (rv_flow st) \<and> fc_max_data (rv_flow st) < 2 ^ 64 \<and> fc_consumed (rv_flow st) = rv_off st"

lemma recv_inv_new: "max_data < 2 ^ 64 \<Longrightarrow> recv_inv src {} (recv_new max_data w m)"
  by (simp add: recv_inv_def recv_new_def fc_new_def)

lemma recv_inv_below: "recv_inv src C st \<Longrightarrow> x \<in> C \<Longrightarrow> x < rv_len st"
  by (fastforce simp: recv_inv_def spans_def span_def chunks_ok_def)

lemma placed_inv:
  assumes "recv_inv src C st" "placed src e (st\<lparr>rv_fin_off := f\<rparr>) st' X" "e \<le> fc_max_data (rv_flow st)"
    "\<forall>fin. f = Some fin \<longrightarrow> rv_len st \<le> fin \<and> e \<le> fin" "rv_fin_off st = None \<or> f = rv_fin_off st"
  shows "recv_inv src (C \<union> X) st' \<and> rv_fin_off st' = f \<and> rv_off st' = rv_off st \<and> rv_flow st' = rv_flow st \<and>
    rv_len st' \<le> max (rv_len st) e"
proof -
  have st': "st' = st\<lparr>rv_fin_off := f, rv_data := rv_data st', rv_len := rv_len st'\<rparr>"
    using assms(2) by (simp add: placed_def)
  have "rv_off st' = rv_off st" "rv_fin_off st' = f" "rv_flow st' = rv_flow st" "rv_drain st' = rv_drain st" "rv_error st' = rv_error st"
    by (subst st', simp)+
  moreover have "f = Some (fst x)" if "x \<in> set (rv_data st')" "buf_len (snd x) = 0" for x
  proof -
    have "x \<in> set (rv_data st)" using that assms(2) by (simp add: placed_def)
    then have "rv_fin_off st = Some (fst x)" using that(2) assms(1) by (simp add: recv_inv_def)
    then show ?thesis using assms(5) by simp
  qed
  moreover have "rv_len st' \<le> fin" if "f = Some fin" for fin
    using that assms(2,4) by (auto simp: placed_def intro: order_trans)
  ultimately show ?thesis using assms by (auto simp: placed_def recv_inv_def)
qed

text \<open>An empty last chunk is kept only when nothing ends where it does.\<close>

lemma write_loop_last:
  assumes "recv_inv src C st" "rv_len st \<le> off" "rv_fin_off st = None" "off \<le> fc_max_data (rv_flow st)"
  shows "\<exists>st'. write_loop (Suc 0) [from_raw [] off True] (st\<lparr>rv_fin_off := Some off\<rparr>) = Ok st' \<and>
    recv_inv src C st' \<and> rv_fin_off st' = Some off \<and> rv_off st' = rv_off st \<and> rv_flow st' = rv_flow st \<and> rv_len st' \<le> off"
proof -
  let ?buf = "from_raw [] off True" and ?near = "filter (\<lambda>(k, _). off \<le> k) (rv_data st)"
  have inv: "chunks_ok src (rv_off st) (rv_data st)" "\<forall>x \<in> set (rv_data st). fst x \<le> rv_len st" "rv_off st \<le> rv_len st"
      "\<not> rv_drain st" "\<forall>x \<in> set (rv_data st). buf_len (snd x) \<noteq> 0"
    using assms(1,3) by (simp_all add: recv_inv_def)
  then have keys: "\<forall>x \<in> set (rv_data st). fst x = buf_max_off (snd x)" by (simp add: chunks_ok_def)
  have loop: "write_loop (Suc 0) [?buf] (st\<lparr>rv_fin_off := Some off\<rparr>) =
      bnd (scan ?buf (map snd ?near) []) (\<lambda>(kept, pushed). write_loop 0 pushed
        (case kept of None \<Rightarrow> st\<lparr>rv_fin_off := Some off\<rparr> | Some buf \<Rightarrow> store buf (st\<lparr>rv_fin_off := Some off\<rparr>)))"
    using inv(3) assms(2) by (simp add: buf_is_empty_def write_loop.simps(3))
  show ?thesis
  proof (cases ?near)
    case Nil
    then have all: "\<forall>x \<in> set (rv_data st). fst x < off" by (fastforce simp: filter_empty_conv)
    have "holds src ?buf" using fresh_from_raw [of "[]" off True] by (auto simp: holds_def fresh_def)
    then have i: "chunks_ok src (rv_off st) (bt_insert off ?buf (rv_data st))"
        "spans (map snd (bt_insert off ?buf (rv_data st))) = spans (map snd (rv_data st)) \<union> span ?buf"
        "set (bt_insert off ?buf (rv_data st)) \<subseteq> insert (off, ?buf) (set (rv_data st))"
      using bt_insert_chunks [OF inv(1), of ?buf] all inv(3) assms(2) by (auto simp: less_imp_le)
    have "span ?buf = {}" by (simp add: span_def)
    moreover have "fst x \<le> off" "buf_len (snd x) = 0 \<longrightarrow> fst x = off" if "x \<in> set (bt_insert off ?buf (rv_data st))" for x
      using that i(3) all inv(5) by fastforce+
    ultimately show ?thesis using loop Nil i assms inv(3,4) by (auto simp: store_def recv_inv_def)
  next
    case (Cons x xs)
    then have "x \<in> set ?near" by (metis list.set_intros(1))
    then have "x \<in> set (rv_data st)" "off \<le> fst x" by auto
    then have "buf_max_off (snd x) = off" using inv(2) keys assms(2) by fastforce
    moreover have "buf_off (snd x) \<le> buf_max_off (snd x)" by simp
    ultimately have "scan ?buf (map snd ?near) [] = Ok (None, [])" using Cons by (simp add: Let_def)
    then show ?thesis using loop assms by (auto simp: recv_inv_def)
  qed
qed

lemma recv_write_inv:
  assumes inv: "recv_inv src C st" and bound: "off + n \<le> fc_max_data (rv_flow st)"
    and data: "length data = n" "list_all2 src [off ..< off + n] data"
    and size: "\<forall>T. rv_fin_off st = Some T \<longrightarrow> off + n \<le> T \<and> (fin \<longrightarrow> off + n = T)" "fin \<longrightarrow> rv_len st \<le> off + n"
  shows "\<exists>st'. recv_write (from_raw data off fin) st = Ok st' \<and> recv_inv src (C \<union> {off ..< off + n}) st' \<and>
    rv_fin_off st' = (if fin then Some (off + n) else rv_fin_off st) \<and> rv_off st' = rv_off st \<and> rv_flow st' = rv_flow st \<and>
    rv_len st' \<le> max (rv_len st) (off + n)"
proof -
  let ?buf = "from_raw data off fin"
  let ?f = "if fin then Some (off + n) else rv_fin_off st"
  let ?st = "st\<lparr>rv_fin_off := ?f\<rparr>"
  have small: "off + n < 2 ^ 64" using bound inv by (simp add: recv_inv_def)
  have guards: "recv_write ?buf st =
      (if rv_fin_off st \<noteq> None \<and> n = 0 then Ok st
       else if \<not> fin \<and> n = 0 then Ok ?st
       else if rv_off st \<ge> off + n \<and> n \<noteq> 0 then Ok ?st
       else write_loop (Suc n) [?buf] ?st)"
  proof -
    define st1 where "st1 = ?st"
    have set: "(if fin then st\<lparr>rv_fin_off := Some (off + n)\<rparr> else st) = st1" by (cases st) (simp add: st1_def)
    have known: "\<not> (case rv_fin_off st of None \<Rightarrow> False | Some fin_off \<Rightarrow> off + n > fin_off \<or> fin \<and> fin_off \<noteq> off + n)"
      "\<not> (fin \<and> off + n < rv_len st)"
      using size by (auto split: option.splits)
    show ?thesis
      unfolding st1_def [symmetric] recv_write_def from_raw_simps buf_is_empty_def Let_def data(1)
        set if_not_P [OF known(1)] if_not_P [OF known(2)]
      using small bound by (simp add: st1_def data(1))
  qed
  have same: "?f = rv_fin_off st" if "rv_fin_off st \<noteq> None" using that size by auto
  have st: "recv_inv src C ?st" using inv size same by (cases "rv_fin_off st") (auto simp: recv_inv_def)
  have upto: "{..< rv_off st} \<subseteq> C" using inv by (auto simp: recv_inv_def)
  consider "n = 0" "rv_fin_off st \<noteq> None \<or> \<not> fin" | "n = 0" "rv_fin_off st = None" fin
    | "n \<noteq> 0" "rv_off st \<ge> off + n" | "n \<noteq> 0" "rv_off st < off + n"
    by linarith
  then show ?thesis
  proof cases
    case 1
    then show ?thesis using guards st same inv by auto
  next
    case 2
    then show ?thesis using guards write_loop_last [OF inv, of off] size bound data(1) by auto
  next
    case 3
    then have "C \<union> {off ..< off + n} = C" using upto by auto
    then show ?thesis using guards st 3 by auto
  next
    case 4
    have b: "fresh ?buf" "holds src ?buf" "buf_len ?buf = n" "span ?buf = {off ..< off + n}"
      using fresh_from_raw [of data off fin] data by (simp_all add: holds_def fresh_def span_def)
    have "chunks_ok src (rv_off ?st) (rv_data ?st)" "\<forall>x \<in> set (rv_data ?st). fst x \<le> rv_len ?st" "\<not> rv_drain ?st"
      using inv by (simp_all add: recv_inv_def)
    then obtain st' where st': "write_loop (Suc n) [?buf] ?st = Ok st'" "placed src (off + n) ?st st' {off ..< off + n}"
      using write_loop_placed [of src ?st ?buf "Suc n"] b 4 data(1) by auto
    have "\<forall>fin. ?f = Some fin \<longrightarrow> rv_len st \<le> fin \<and> off + n \<le> fin"
      using size inv by (auto simp: recv_inv_def)
    moreover have "rv_fin_off st = None \<or> ?f = rv_fin_off st" using same by blast
    ultimately have "recv_inv src (C \<union> {off ..< off + n}) st' \<and> rv_fin_off st' = ?f \<and> rv_off st' = rv_off st \<and> rv_flow st' = rv_flow st \<and>
        rv_len st' \<le> max (rv_len st) (off + n)"
      by (rule placed_inv [OF inv st'(2) bound])
    moreover have "recv_write ?buf st = Ok st'" using guards st'(1) 4 by simp
    ultimately show ?thesis by blast
  qed
qed

text \<open>What is refused: data beyond the flow control limit, and a size that changes.\<close>

lemma recv_write_refused:
  assumes "recv_inv src C st" "off + length data < 2 ^ 64"
  shows "recv_write (from_raw data off fin) st =
    (if off + length data > fc_max_data (rv_flow st) then Err FlowControl
     else if (\<exists>T. rv_fin_off st = Some T \<and> (off + length data > T \<or> fin \<and> off + length data \<noteq> T)) \<or> fin \<and> off + length data < rv_len st
     then Err FinalSize else recv_write (from_raw data off fin) st)"
  using assms by (auto simp: recv_write_def split: option.splits)

lemma head_gap:
  assumes "chunks_ok src off (x # data)" "buf_off (snd x) \<noteq> off"
  shows "off \<notin> spans (map snd (x # data))"
proof -
  have x: "off < buf_off (snd x)" "fst x = buf_max_off (snd x)" "\<forall>y \<in> set data. fst x \<le> buf_off (snd y)"
    using assms by (auto simp: chunks_ok_Cons)
  have "off < fst x" using x(1,2) off_le_max_off [of "snd x"] by linarith
  then have "\<forall>y \<in> set (x # data). off < buf_off (snd y)" using x(1,3) by (auto intro: less_le_trans)
  then have "\<forall>y \<in> set (x # data). off \<notin> span (snd y)" by (auto simp: span_def)
  then show ?thesis by (simp add: spans_def)
qed

lemma emit_loop_spec:
  assumes "chunks_ok src off data"
  shows "\<exists>off' out' data'. emit_loop emit cap off len out data = Ok (off', len + (off' - off), out @ out', data') \<and>
    (if emit then list_all2 src [off ..< off'] out' else out' = []) \<and> off \<le> off' \<and> off' - off \<le> cap \<and> chunks_ok src off' data' \<and>
    {..< off'} \<union> spans (map snd data') = {..< off} \<union> spans (map snd data) \<and> (off' - off = cap \<or> off' \<notin> spans (map snd data')) \<and>
    (\<forall>x \<in> set data'. fst x \<in> fst ` set data \<and> (buf_len (snd x) = 0 \<longrightarrow> x \<in> set data))"
  using assms
proof (induction data arbitrary: cap off len out)
  case Nil
  then show ?case by (auto intro!: exI [of _ off])
next
  case (Cons x data)
  obtain k b where x: "x = (k, b)" by (cases x)
  have b: "k = buf_max_off b" "holds src b" "buf_ok b" "off \<le> buf_off b" "\<forall>y \<in> set data. k < fst y \<and> k \<le> buf_off (snd y)" "chunks_ok src off data"
    using Cons.prems x by (auto simp: chunks_ok_Cons holds_def)
  define n where "n = min (buf_len b) cap"
  have piece: "(if emit then bnd (buf_deref b) (\<lambda>bs. sl bs 0 n) else Ok []) = Ok (if emit then take n (view b) else [])"
    using b(3) by (simp add: buf_deref_view n_def)
  have turn: "emit_loop emit cap off len out (x # data) =
      (if n < buf_len b then Ok (off + n, len + n, out @ (if emit then take n (view b) else []), (k, consume n b) # data)
       else emit_loop emit (cap - n) (off + n) (len + n) (out @ (if emit then take n (view b) else [])) data)"
    if "cap \<noteq> 0" "buf_off b = off" for len out
    unfolding x emit_loop.simps Let_def n_def [symmetric] piece using that by simp
  have part: "list_all2 src [buf_off b ..< buf_off b + n] (take n (view b))"
    using list_all2_takeI [of src "[buf_off b ..< buf_max_off b]" "view b" n] b(2) by (simp add: holds_def n_def buf_max_off_def)
  consider "cap = 0 \<or> buf_off b \<noteq> off" | "cap \<noteq> 0" "buf_off b = off" "n < buf_len b" | "cap \<noteq> 0" "buf_off b = off" "n = buf_len b"
    using n_def by linarith
  then show ?case
  proof cases
    case 1
    have "0 = cap \<or> off \<notin> spans (map snd (x # data))" using 1 head_gap [OF Cons.prems] x by auto
    then show ?thesis using 1 x Cons.prems by (intro exI [of _ off] exI [of _ "[]"] exI [of _ "x # data"]) auto
  next
    case 2
    have "n = cap" using 2(3) by (simp add: n_def)
    have c: "holds src (consume n b)" "buf_off (consume n b) = off + n" "buf_max_off (consume n b) = k"
      using holds_consume [OF b(2), of n] consume_simps [OF b(3), of n] 2 b(1) by simp_all
    have "off + n < k" using 2 b(1) by (simp add: buf_max_off_def)
    moreover have "chunks_ok src (off + n) data"
      using b(5,6) \<open>off + n < k\<close> by (fastforce simp: chunks_ok_def)
    ultimately have "chunks_ok src (off + n) ((k, consume n b) # data)"
      using b(5) c by (simp add: chunks_ok_Cons)
    moreover have "{..< off + n} \<union> span (consume n b) = {..< off} \<union> span b"
      using c 2 b(1) \<open>off + n < k\<close> by (auto simp: span_def)
    moreover have "buf_len (consume n b) \<noteq> 0" using c \<open>off + n < k\<close> by (auto simp: buf_max_off_def)
    ultimately show ?thesis
      using 2 x turn part \<open>n = cap\<close>
      by (intro exI [of _ "off + n"] exI [of _ "if emit then take n (view b) else []"] exI [of _ "(k, consume n b) # data"]) auto
  next
    case 3
    have k: "k = off + n" using 3 b(1) by (simp add: buf_max_off_def)
    then have "chunks_ok src (off + n) data" using b(5,6) by (fastforce simp: chunks_ok_def)
    from Cons.IH [OF this, of "cap - n" "len + n" "out @ (if emit then take n (view b) else [])"]
    obtain off' out' data' where i:
        "emit_loop emit (cap - n) (off + n) (len + n) (out @ (if emit then take n (view b) else [])) data =
          Ok (off', len + n + (off' - (off + n)), (out @ (if emit then take n (view b) else [])) @ out', data')"
        "if emit then list_all2 src [off + n ..< off'] out' else out' = []" "off + n \<le> off'" "off' - (off + n) \<le> cap - n" "chunks_ok src off' data'"
        "{..< off'} \<union> spans (map snd data') = {..< off + n} \<union> spans (map snd data)" "off' - (off + n) = cap - n \<or> off' \<notin> spans (map snd data')"
        "\<forall>x \<in> set data'. fst x \<in> fst ` set data \<and> (buf_len (snd x) = 0 \<longrightarrow> x \<in> set data)"
      by blast
    have "n \<le> cap" by (simp add: n_def)
    have "[off ..< off'] = [off ..< off + n] @ [off + n ..< off']" using upt_add_eq_append [of off "off + n" "off' - (off + n)"] i(3) by simp
    then have "if emit then list_all2 src [off ..< off'] (take n (view b) @ out') else out' = []"
      using i(2) part 3(2) by (auto intro: list_all2_appendI)
    moreover have "span b = {off ..< off + n}" using 3 b(1) k by (simp add: span_def)
    then have "{..< off + n} \<union> spans (map snd data) = {..< off} \<union> spans (map snd (x # data))" using x by auto
    moreover have "emit_loop emit cap off len out (x # data) =
        Ok (off', len + (off' - off), out @ ((if emit then take n (view b) else []) @ out'), data')"
      using 3 turn i(1,3) by simp
    ultimately show ?thesis using i(3-8) \<open>n \<le> cap\<close>
      by (intro exI [of _ off'] exI [of _ "(if emit then take n (view b) else []) @ out'"] exI [of _ data']) auto
  qed
qed

text \<open>A read gives what there is from the offset on, up to the first byte that is missing.\<close>

lemma recv_emit_inv:
  assumes inv: "recv_inv src C st"
  shows "(\<exists>k bs st'. recv_emit n st = (Ok (k, rv_fin_off st = Some (rv_off st + k), bs), st') \<and> length bs = k \<and> k \<le> n \<and>
      list_all2 src [rv_off st ..< rv_off st + k] bs \<and> (k = n \<or> rv_off st + k \<notin> C) \<and>
      recv_inv src C st' \<and> rv_off st' = rv_off st + k \<and> rv_fin_off st' = rv_fin_off st \<and> rv_len st' = rv_len st \<and>
      fc_max_data (rv_flow st') = fc_max_data (rv_flow st)) \<or>
    recv_emit n st = (Err Done, st) \<and> rv_off st \<notin> C"
proof (cases "ready st")
  case False
  have "rv_off st \<notin> spans (map snd (rv_data st))"
  proof (cases "rv_data st")
    case (Cons x data)
    then show ?thesis using head_gap [of src "rv_off st" x data] False inv by (cases x) (simp add: ready_def recv_inv_def)
  qed simp
  then have "rv_off st \<notin> C" using inv by (auto simp: recv_inv_def)
  then show ?thesis using False by (simp add: recv_emit_def emit_or_discard_def)
next
  case True
  have ch: "chunks_ok src (rv_off st) (rv_data st)" using inv by (simp add: recv_inv_def)
  obtain off' out' data' where e: "emit_loop True n (rv_off st) 0 [] (rv_data st) = Ok (off', off' - rv_off st, out', data')"
      "list_all2 src [rv_off st ..< off'] out'" "rv_off st \<le> off'" "off' - rv_off st \<le> n" "chunks_ok src off' data'"
      "{..< off'} \<union> spans (map snd data') = {..< rv_off st} \<union> spans (map snd (rv_data st))"
      "off' - rv_off st = n \<or> off' \<notin> spans (map snd data')"
      "\<forall>x \<in> set data'. fst x \<in> fst ` set (rv_data st) \<and> (buf_len (snd x) = 0 \<longrightarrow> x \<in> set (rv_data st))"
    using emit_loop_spec [OF ch, of True n 0 "[]"] by auto
  define k where "k = off' - rv_off st"
  have off': "off' = rv_off st + k" using e(3) by (simp add: k_def)
  have C: "{..< off'} \<union> spans (map snd data') = C" using e(6) inv by (simp add: recv_inv_def)
  have "off' \<le> rv_len st"
  proof (cases off')
    case (Suc m)
    then have "m \<in> C" using C by auto
    then show ?thesis using recv_inv_below [OF inv] Suc by force
  qed simp
  define st' where "st' = st\<lparr>rv_off := off', rv_data := data', rv_flow := (rv_flow st)\<lparr>fc_consumed := off'\<rparr>\<rparr>"
  have "off' < 2 ^ 64" using \<open>off' \<le> rv_len st\<close> inv by (simp add: recv_inv_def)
  moreover have "emit_loop True n (rv_off st) 0 [] (rv_data st) = Ok (off', k, out', data')" using e(1) by (simp only: k_def)
  moreover have "fc_consumed (rv_flow st) + k = off'" "rv_error st = None" using off' inv by (simp_all add: recv_inv_def)
  ultimately have "recv_emit n st = (Ok (k, rv_fin_off st = Some off', out'), st')"
    using True by (simp add: recv_emit_def emit_or_discard_def add_consumed_def u64_sum_def recv_is_fin_def st'_def)
  moreover have "recv_inv src C st'"
  proof -
    have "\<forall>x \<in> set (rv_data st). fst x \<le> rv_len st" "\<forall>x \<in> set (rv_data st). buf_len (snd x) = 0 \<longrightarrow> rv_fin_off st = Some (fst x)"
      using inv by (simp_all add: recv_inv_def)
    then have "\<forall>x \<in> set data'. fst x \<le> rv_len st" "\<forall>x \<in> set data'. buf_len (snd x) = 0 \<longrightarrow> rv_fin_off st = Some (fst x)"
      using e(8) by (metis imageE)+
    then show ?thesis using inv e(5) C \<open>off' \<le> rv_len st\<close> by (simp add: recv_inv_def st'_def)
  qed
  moreover have "k = n \<or> off' \<notin> C" using e(7) C by (auto simp: k_def)
  moreover have "length out' = k" using e(2) by (simp add: k_def list_all2_lengthD [symmetric])
  ultimately show ?thesis using e(2,4) off' by (auto simp: st'_def)
qed

section \<open>Histories of a stream\<close>

datatype recv_op = Arrive bytes nat bool | Read nat

definition recv_step :: "bytes \<times> recv_buf \<Rightarrow> recv_op \<Rightarrow> (qerror, bytes \<times> recv_buf) run" where
  "recv_step s call = (case call of
     Arrive data off fin \<Rightarrow> bnd (recv_write (from_raw data off fin) (snd s)) (\<lambda>st. Ok (fst s, st))
   | Read n \<Rightarrow> (case recv_emit n (snd s) of
       (Ok (_, _, bs), st) \<Rightarrow> Ok (fst s @ bs, st)
     | (Err e, st) \<Rightarrow> if e = Done then Ok (fst s, st) else Err e
     | (Panic, _) \<Rightarrow> Panic))"

definition recv_run :: "nat \<Rightarrow> nat \<Rightarrow> nat \<Rightarrow> recv_op list \<Rightarrow> (qerror, bytes \<times> recv_buf) run" where
  "recv_run max_data w m calls = foldl (\<lambda>r call. bnd r (\<lambda>s. recv_step s call)) (Ok ([], recv_new max_data w m)) calls"

text \<open>What has come in: the byte \<open>x\<close> at the offset \<open>i\<close>, the offsets, and the size of the stream.\<close>

definition carried :: "recv_op list \<Rightarrow> nat \<Rightarrow> u8 \<Rightarrow> bool" where
  "carried calls i x \<longleftrightarrow> (\<exists>data off fin. Arrive data off fin \<in> set calls \<and> off \<le> i \<and> i < off + length data \<and> data ! (i - off) = x)"

definition arrived :: "recv_op list \<Rightarrow> nat set" where
  "arrived calls = {i. \<exists>x. carried calls i x}"

definition ends_at :: "recv_op list \<Rightarrow> nat \<Rightarrow> bool" where
  "ends_at calls n \<longleftrightarrow> (\<exists>data off. Arrive data off True \<in> set calls \<and> n = off + length data)"

definition in_u64 :: "recv_op \<Rightarrow> bool" where
  "in_u64 call = (case call of Arrive data off _ \<Rightarrow> off + length data < 2 ^ 64 | Read _ \<Rightarrow> True)"

definition fits :: "nat \<Rightarrow> recv_op \<Rightarrow> bool" where
  "fits T call = (case call of
     Arrive data off fin \<Rightarrow> off + length data \<le> T \<and> (fin \<longrightarrow> off + length data = T) | Read _ \<Rightarrow> True)"

lemma carried_append [simp]: "carried (calls @ [call]) i x \<longleftrightarrow> carried calls i x \<or> carried [call] i x"
  by (auto simp: carried_def)

lemma arrived_append: "arrived (calls @ [call]) = arrived calls \<union> arrived [call]"
  by (auto simp: arrived_def)

lemma arrived_Arrive: "arrived [Arrive data off fin] = {off ..< off + length data}"
  by (auto simp: arrived_def carried_def)

lemma carried_Read [simp]: "\<not> carried [Read n] i x" and arrived_Read [simp]: "arrived [Read n] = {}"
  by (auto simp: arrived_def carried_def)

lemma ends_at_append: "ends_at (calls @ [call]) n \<longleftrightarrow> ends_at calls n \<or> ends_at [call] n"
  by (auto simp: ends_at_def)

lemma carried_Arrive: "list_all2 (carried (calls @ [Arrive data off fin])) [off ..< off + length data] data"
proof -
  have "carried [Arrive data off fin] (off + i) (data ! i)" if "i < length data" for i
    using that by (auto simp: carried_def)
  then show ?thesis by (simp add: list_all2_conv_all_nth)
qed

lemma recv_inv_mono: "recv_inv src C st \<Longrightarrow> (\<And>i x. src i x \<Longrightarrow> src' i x) \<Longrightarrow> recv_inv src' C st"
proof -
  assume inv: "recv_inv src C st" and "\<And>i x. src i x \<Longrightarrow> src' i x"
  then have "chunks_ok src' (rv_off st) (rv_data st)"
    using holds_mono [of src _ src'] unfolding recv_inv_def chunks_ok_def by blast
  then show ?thesis using inv unfolding recv_inv_def by blast
qed

definition recv_state :: "nat \<Rightarrow> recv_op list \<Rightarrow> bytes \<times> recv_buf \<Rightarrow> bool" where
  "recv_state max_data calls s \<longleftrightarrow> recv_inv (carried calls) (arrived calls) (snd s) \<and> rv_off (snd s) = length (fst s) \<and>
     list_all2 (carried calls) [0 ..< length (fst s)] (fst s) \<and> fc_max_data (rv_flow (snd s)) = max_data \<and>
     (\<forall>n. rv_fin_off (snd s) = Some n \<longleftrightarrow> ends_at calls n) \<and> (\<forall>T. list_all (fits T) calls \<longrightarrow> rv_len (snd s) \<le> T)"

lemma recv_step_Read:
  assumes "recv_state max_data calls s"
  shows "\<exists>s'. recv_step s (Read n) = Ok s' \<and> recv_state max_data (calls @ [Read n]) s' \<and>
    rv_len (snd s') = rv_len (snd s) \<and> rv_fin_off (snd s') = rv_fin_off (snd s)"
proof -
  have inv: "recv_inv (carried calls) (arrived calls) (snd s)" using assms by (simp add: recv_state_def)
  have more: "ends_at (calls @ [Read n]) = ends_at calls" "carried (calls @ [Read n]) = carried calls" "arrived (calls @ [Read n]) = arrived calls"
    by (auto simp: fun_eq_iff ends_at_def arrived_append)
  consider (some) k bs st' where "recv_emit n (snd s) = (Ok (k, rv_fin_off (snd s) = Some (rv_off (snd s) + k), bs), st')" "length bs = k"
        "list_all2 (carried calls) [rv_off (snd s) ..< rv_off (snd s) + k] bs"
        "recv_inv (carried calls) (arrived calls) st'" "rv_off st' = rv_off (snd s) + k" "rv_fin_off st' = rv_fin_off (snd s)"
        "rv_len st' = rv_len (snd s)" "fc_max_data (rv_flow st') = fc_max_data (rv_flow (snd s))"
    | (none) "recv_emit n (snd s) = (Err Done, snd s)"
    using recv_emit_inv [OF inv, of n] by blast
  then show ?thesis
  proof cases
    case e: some
    have "list_all2 (carried calls) ([0 ..< length (fst s)] @ [length (fst s) ..< length (fst s) + k]) (fst s @ bs)"
      using assms e(3) by (intro list_all2_appendI) (simp_all add: recv_state_def)
    then have "list_all2 (carried calls) [0 ..< length (fst s) + k] (fst s @ bs)"
      using upt_add_eq_append [of 0 "length (fst s)" k] by simp
    then show ?thesis using assms e more by (simp add: recv_step_def recv_state_def)
  next
    case none
    then show ?thesis using assms more by (cases s) (simp add: recv_step_def recv_state_def)
  qed
qed

lemma recv_step_Arrive:
  assumes "recv_state max_data calls s" "off + length data < 2 ^ 64"
  shows "(\<exists>e. recv_step s (Arrive data off fin) = Err e) \<and>
      (off + length data > max_data \<or> (\<exists>T. rv_fin_off (snd s) = Some T \<and> (off + length data > T \<or> fin \<and> off + length data \<noteq> T)) \<or>
        fin \<and> off + length data < rv_len (snd s)) \<or>
    (\<exists>s'. recv_step s (Arrive data off fin) = Ok s' \<and> recv_state max_data (calls @ [Arrive data off fin]) s')"
proof (cases "off + length data > max_data \<or> (\<exists>T. rv_fin_off (snd s) = Some T \<and> (off + length data > T \<or> fin \<and> off + length data \<noteq> T)) \<or>
        fin \<and> off + length data < rv_len (snd s)")
  case True
  have inv: "recv_inv (carried calls) (arrived calls) (snd s)" "fc_max_data (rv_flow (snd s)) = max_data"
    using assms by (simp_all add: recv_state_def)
  have "\<exists>e. recv_write (from_raw data off fin) (snd s) = Err e"
    using recv_write_refused [OF inv(1) assms(2), of fin] True inv(2) by (metis (no_types))
  then show ?thesis using True by (auto simp: recv_step_def)
next
  case False
  let ?calls = "calls @ [Arrive data off fin]"
  have inv: "recv_inv (carried ?calls) (arrived calls) (snd s)" "fc_max_data (rv_flow (snd s)) = max_data"
    using assms(1) recv_inv_mono [of "carried calls" _ _ "carried ?calls"] by (auto simp: recv_state_def)
  obtain st' where st': "recv_write (from_raw data off fin) (snd s) = Ok st'"
      "recv_inv (carried ?calls) (arrived calls \<union> {off ..< off + length data}) st'"
      "rv_fin_off st' = (if fin then Some (off + length data) else rv_fin_off (snd s))" "rv_off st' = rv_off (snd s)" "rv_flow st' = rv_flow (snd s)"
      "rv_len st' \<le> max (rv_len (snd s)) (off + length data)"
  proof -
    have "off + length data \<le> fc_max_data (rv_flow (snd s))" "fin \<longrightarrow> rv_len (snd s) \<le> off + length data"
        "\<forall>T. rv_fin_off (snd s) = Some T \<longrightarrow> off + length data \<le> T \<and> (fin \<longrightarrow> off + length data = T)"
      using False inv(2) by (auto simp: not_less)
    then show ?thesis using recv_write_inv [OF inv(1) _ refl carried_Arrive, of fin] that by blast
  qed
  have "rv_fin_off st' = Some n \<longleftrightarrow> ends_at ?calls n" for n
    using st'(3) assms(1) False by (auto simp: recv_state_def ends_at_append ends_at_def)
  moreover have "list_all2 (carried ?calls) [0 ..< length (fst s)] (fst s)"
    using assms(1) by (auto simp: recv_state_def elim: list_all2_mono)
  moreover have "rv_len st' \<le> T" if "list_all (fits T) ?calls" for T
    using that st'(6) assms(1) by (auto simp: recv_state_def fits_def intro: order_trans)
  ultimately have "recv_state max_data ?calls (fst s, st')"
    using st' assms(1) by (simp add: recv_state_def arrived_append arrived_Arrive)
  then show ?thesis using st'(1) by (auto simp: recv_step_def)
qed

lemma recv_run_snoc: "recv_run max_data w m (calls @ [call]) = bnd (recv_run max_data w m calls) (\<lambda>s. recv_step s call)"
  by (simp add: recv_run_def)

lemma recv_run_state:
  assumes "max_data < 2 ^ 64" "list_all in_u64 calls"
  shows "(\<exists>e. recv_run max_data w m calls = Err e) \<or> (\<exists>s. recv_run max_data w m calls = Ok s \<and> recv_state max_data calls s)"
  using assms(2)
proof (induction calls rule: rev_induct)
  case Nil
  have "recv_inv (carried []) (arrived []) (recv_new max_data w m)"
    using recv_inv_new [OF assms(1)] by (simp add: arrived_def carried_def)
  then show ?case by (auto simp: recv_run_def recv_state_def recv_new_def fc_new_def ends_at_def)
next
  case (snoc call calls)
  then consider (err) e where "recv_run max_data w m calls = Err e"
    | (ok) s where "recv_run max_data w m calls = Ok s" "recv_state max_data calls s" by auto
  then show ?case
  proof cases
    case ok
    have "(\<exists>e. recv_step s call = Err e) \<or> (\<exists>s'. recv_step s call = Ok s' \<and> recv_state max_data (calls @ [call]) s')"
    proof (cases call)
      case (Arrive data off fin)
      then show ?thesis using recv_step_Arrive [OF ok(2), of off data fin] snoc.prems by (simp add: in_u64_def) blast
    next
      case (Read n)
      then show ?thesis using recv_step_Read [OF ok(2), of n] by blast
    qed
    then show ?thesis using ok(1) by (auto simp: recv_run_snoc)
  qed (simp add: recv_run_snoc)
qed

text \<open>Nothing is refused that lies within the size of the stream and within the limit.\<close>

lemma recv_run_fits:
  assumes "T \<le> max_data" "max_data < 2 ^ 64" "list_all (fits T) calls"
  shows "\<exists>s. recv_run max_data w m calls = Ok s \<and> recv_state max_data calls s"
  using assms(3)
proof (induction calls rule: rev_induct)
  case Nil
  then show ?case using recv_run_state [OF assms(2), of "[]" w m] by (simp add: recv_run_def)
next
  case (snoc call calls)
  then obtain s where s: "recv_run max_data w m calls = Ok s" "recv_state max_data calls s" by auto
  have fit: "list_all (fits T) calls" using snoc.prems by simp
  then have len: "rv_len (snd s) \<le> T" using s(2) by (simp add: recv_state_def)
  have fin: "n = T" if "rv_fin_off (snd s) = Some n" for n
  proof -
    have "ends_at calls n" using that s(2) unfolding recv_state_def by blast
    then obtain data off where "Arrive data off True \<in> set calls" "n = off + length data"
      by (auto simp: ends_at_def)
    then show ?thesis using fit by (fastforce simp: list_all_iff fits_def)
  qed
  show ?case
  proof (cases call)
    case (Arrive data off fin)
    have "off + length data \<le> T" "fin \<longrightarrow> off + length data = T" using snoc.prems Arrive by (auto simp: fits_def)
    then have "off + length data < 2 ^ 64" "\<not> off + length data > max_data" "\<not> (fin \<and> off + length data < rv_len (snd s))"
        "\<not> (\<exists>T. rv_fin_off (snd s) = Some T \<and> (off + length data > T \<or> fin \<and> off + length data \<noteq> T))"
      using assms(1,2) len fin by auto
    then show ?thesis
      using recv_step_Arrive [OF s(2), of off data fin] s(1) Arrive unfolding recv_run_snoc by auto
  next
    case (Read n)
    then show ?thesis using recv_step_Read [OF s(2), of n] s(1) by (auto simp: recv_run_snoc)
  qed
qed

section \<open>Properties\<close>

text \<open>C2. The receiving side of a stream puts the stream together again. Whatever arrives, in whatever
order, however often and however it overlaps, and whenever the application reads, nothing panics, and
every byte read is one that arrived for its place in the stream, each place once and in order. A further
read returns all that is there up to the first byte that has not arrived, as far as there is room,
and says that the stream has ended exactly when it has reached the end that was announced; it
finds nothing only when the next byte has not arrived. What lies within the size of the stream and
the limit granted is never refused.\<close>

theorem recv_reassembles:
  assumes "max_data < 2 ^ 64" "list_all in_u64 calls"
  shows "recv_run max_data w m calls \<noteq> Panic \<and>
    (\<forall>T. T \<le> max_data \<and> list_all (fits T) calls \<longrightarrow> (\<exists>s. recv_run max_data w m calls = Ok s)) \<and>
    (\<forall>out st. recv_run max_data w m calls = Ok (out, st) \<longrightarrow>
      list_all2 (carried calls) [0 ..< length out] out \<and>
      (\<forall>n. case fst (recv_emit n st) of
         Ok (k, fin, bs) \<Rightarrow> list_all2 (carried calls) [length out ..< length out + k] bs \<and> k \<le> n \<and>
           (k = n \<or> length out + k \<notin> arrived calls) \<and> (fin \<longleftrightarrow> ends_at calls (length out + k))
       | Err e \<Rightarrow> e = Done \<and> length out \<notin> arrived calls
       | Panic \<Rightarrow> False))"
proof (intro conjI allI impI)
  show "recv_run max_data w m calls \<noteq> Panic" using recv_run_state [OF assms, of w m] by auto
  show "\<exists>s. recv_run max_data w m calls = Ok s" if "T \<le> max_data \<and> list_all (fits T) calls" for T
    using recv_run_fits [of T max_data calls w m] that assms(1) by auto
  fix out st assume run: "recv_run max_data w m calls = Ok (out, st)"
  have s: "recv_state max_data calls (out, st)"
    using recv_run_state [OF assms, of w m] run by auto
  then show "list_all2 (carried calls) [0 ..< length out] out" by (simp add: recv_state_def)
  have inv: "recv_inv (carried calls) (arrived calls) st" "rv_off st = length out" "\<And>n. rv_fin_off st = Some n \<longleftrightarrow> ends_at calls n"
    using s by (simp_all add: recv_state_def)
  fix n
  show "case fst (recv_emit n st) of
         Ok (k, fin, bs) \<Rightarrow> list_all2 (carried calls) [length out ..< length out + k] bs \<and> k \<le> n \<and>
           (k = n \<or> length out + k \<notin> arrived calls) \<and> (fin \<longleftrightarrow> ends_at calls (length out + k))
       | Err e \<Rightarrow> e = Done \<and> length out \<notin> arrived calls
       | Panic \<Rightarrow> False"
    using recv_emit_inv [OF inv(1), of n] inv(2,3) by (elim disjE exE) simp_all
qed

definition demo_arrivals :: "recv_op list" where
  "demo_arrivals = [Arrive [3, 4, 5] 2 False, Arrive [1, 2, 3] 0 False, Read 2, Arrive [5, 6] 4 True]"

theorem recv_reassembles_witness:
  "\<exists>st. recv_run 100 50 50 demo_arrivals = Ok ([1, 2], st) \<and> fst (recv_emit 10 st) = Ok (4, True, [3, 4, 5, 6]) \<and>
     list_all2 (carried demo_arrivals) [0 ..< 2] [1, 2]"
proof -
  have "\<exists>st. recv_run 100 50 50 demo_arrivals = Ok ([1, 2], st) \<and> fst (recv_emit 10 st) = Ok (4, True, [3, 4, 5, 6])"
    by (simp add: demo_arrivals_def recv_run_def recv_step_def recv_write_def recv_emit_def emit_or_discard_def
        recv_new_def fc_new_def from_raw_def buf_off_def buf_len_def buf_max_off_def buf_is_empty_def
        write_loop.simps store_def split_off_def ready_def buf_deref_def sl_def consume_def add_consumed_def u64_sum_def recv_is_fin_def
        Let_def)
  then obtain st where st: "recv_run 100 50 50 demo_arrivals = Ok ([1, 2], st)" "fst (recv_emit 10 st) = Ok (4, True, [3, 4, 5, 6])"
    by blast
  have "list_all in_u64 demo_arrivals" by (simp add: demo_arrivals_def in_u64_def)
  from recv_reassembles [OF _ this, of 100 50 50] have "list_all2 (carried demo_arrivals) [0 ..< length [1, 2 :: u8]] [1, 2]"
    using st(1) by (simp del: list.size)
  then have "list_all2 (carried demo_arrivals) [0 ..< 2] [1, 2]" by (simp add: numeral_2_eq_2)
  then show ?thesis using st by blast
qed

text \<open>The end of a stream can go unnoticed: when the end is announced with bytes that have all been read
already, as a retransmission of the last frame does, or when a reset follows the announced end, nothing is left
in the buffer that would make the stream readable, although the application has been told neither.\<close>

theorem recv_end_unnoticed:
  "(\<exists>st. recv_run 100 50 50 [Arrive [1, 2] 0 False, Read 10, Arrive [1, 2] 0 True] = Ok ([1, 2], st) \<and>
     recv_is_fin st \<and> \<not> ready st \<and> fst (recv_emit 10 st) = Err Done) \<and>
   (\<exists>st. recv_run 100 50 50 [Arrive [1, 2] 0 True] = Ok ([], st) \<and>
     (let st' = snd (recv_reset 7 2 st) in rv_error st' = Some 7 \<and> \<not> ready st' \<and> fst (recv_emit 10 st') = Err Done))"
  by (simp add: recv_run_def recv_step_def recv_write_def recv_emit_def emit_or_discard_def
      recv_new_def fc_new_def from_raw_def buf_off_def buf_len_def buf_max_off_def buf_is_empty_def
      write_loop.simps store_def split_off_def ready_def buf_deref_def sl_def consume_def add_consumed_def u64_sum_def recv_is_fin_def
      recv_reset_def Let_def)

end
