(* ===== verification/QSendBuf.thy ===== *)
theory QSendBuf
  imports QRecvBuf
begin

text \<open>
  The sending side of a QUIC stream (\<^verbatim>\<open>quiche/quiche/src/stream/send_buf.rs\<close>): what the application
  writes is cut into chunks, sent in frames, kept until it is acknowledged and sent again when it is
  lost. \<^verbatim>\<open>VecDeque\<close> is a list; the numbers that are acknowledged are a range set of QRanges with the
  default capacity.
\<close>

section \<open>The buffer\<close>

definition SEND_BUFFER_SIZE :: nat where "SEND_BUFFER_SIZE = 4096"

record send_buf =
  sd_data :: "range_buf list"
  sd_pos :: nat
  sd_off :: nat
  sd_emit_off :: nat
  sd_buffered :: nat
  sd_max_data :: nat
  sd_blocked_at :: "nat option"
  sd_fin_off :: "nat option"
  sd_shutdown :: bool
  sd_acked :: range_set
  sd_error :: "nat option"

definition rs_default :: range_set where
  "rs_default = Inline [] (2 ^ 64 - 1)"

definition send_new :: "nat \<Rightarrow> send_buf" where
  "send_new max_data =
     \<lparr>sd_data = [], sd_pos = 0, sd_off = 0, sd_emit_off = 0, sd_buffered = 0, sd_max_data = max_data, sd_blocked_at = None,
      sd_fin_off = None, sd_shutdown = False, sd_acked = rs_default, sd_error = None\<rparr>"

definition ack_off :: "send_buf \<Rightarrow> nat" where
  "ack_off st = (case rs_iter (sd_acked st) of [] \<Rightarrow> 0 | (start, fin) # _ \<Rightarrow> if start = 0 then fin else 0)"

definition send_cap :: "send_buf \<Rightarrow> (qerror, nat) run" where
  "send_cap st = (case sd_error st of Some e \<Rightarrow> Err (StreamStopped e) | None \<Rightarrow> u64_diff (sd_max_data st) (sd_off st))"

definition off_front :: "send_buf \<Rightarrow> nat" where
  "off_front st = (case filter (\<lambda>b. \<not> buf_is_empty b) (drop (sd_pos st) (sd_data st)) of
     [] \<Rightarrow> sd_off st | b # _ \<Rightarrow> buf_off b)"

definition send_is_fin :: "send_buf \<Rightarrow> bool" where
  "send_is_fin st \<longleftrightarrow> sd_fin_off st = Some (sd_off st)"

text \<open>The comparison of a range set with a range.\<close>

definition rs_eq_range :: "range_set \<Rightarrow> nat \<Rightarrow> nat \<Rightarrow> bool" where
  "rs_eq_range rs s e \<longleftrightarrow> rs_iter rs = [(s, e)]"

definition send_is_complete :: "send_buf \<Rightarrow> bool" where
  "send_is_complete st = (case sd_fin_off st of None \<Rightarrow> False | Some fin_off \<Rightarrow> rs_eq_range (sd_acked st) 0 fin_off)"

section \<open>Writing\<close>

text \<open>The length that may be written and whether it ends the stream. An error leaves the buffer as it was.\<close>

definition reserve_for_write :: "nat \<Rightarrow> bool \<Rightarrow> send_buf \<Rightarrow> (qerror, (nat \<times> bool) \<times> send_buf) run" where
  "reserve_for_write len fin st =
     bnd (u64_sum (sd_off st) len) (\<lambda>max_off.
     bnd (send_cap st) (\<lambda>room.
     let (len, fin) = (if len > room then (room, False) else (len, fin)) in
     if (case sd_fin_off st of None \<Rightarrow> False | Some fin_off \<Rightarrow> max_off > fin_off \<or> max_off = fin_off \<and> \<not> fin)
     then Err FinalSize
     else
       let st = (if fin then st\<lparr>sd_fin_off := Some max_off\<rparr> else st) in
       if ack_off st \<ge> max_off then Ok ((0, fin), st) else Ok ((len, fin), st)))"

definition reserve_append :: "bytes \<Rightarrow> nat \<times> bool \<Rightarrow> send_buf \<Rightarrow> (qerror, (nat \<times> bool) \<times> send_buf) run" where
  "reserve_append buf r st =
     (let len = length buf in
      if len > fst r then Err BufferTooShort
      else
        Ok ((fst r - len, snd r),
            st\<lparr>sd_data := sd_data st @ [from_raw buf (sd_off st) (fst r = len \<and> snd r)],
               sd_off := sd_off st + len, sd_buffered := sd_buffered st + len\<rparr>))"

function send_chunks :: "bytes \<Rightarrow> bytes list" where
  "send_chunks data = (if data = [] then [] else take SEND_BUFFER_SIZE data # send_chunks (drop SEND_BUFFER_SIZE data))"
  by pat_completeness auto
termination
  by (relation "measure length") (auto simp: SEND_BUFFER_SIZE_def)

declare send_chunks.simps [simp del]

fun append_chunks :: "bytes list \<Rightarrow> nat \<times> bool \<Rightarrow> send_buf \<Rightarrow> (qerror, (nat \<times> bool) \<times> send_buf) run" where
  "append_chunks [] r st = Ok (r, st)"
| "append_chunks (chunk # chunks) r st = bnd (reserve_append chunk r st) (\<lambda>(r, st). append_chunks chunks r st)"

text \<open>Dropping the reservation asserts that it has been used up.\<close>

definition send_write :: "bytes \<Rightarrow> bool \<Rightarrow> send_buf \<Rightarrow> (qerror, nat \<times> send_buf) run" where
  "send_write data fin st =
     bnd (reserve_for_write (length data) fin st) (\<lambda>(r, st).
     if fst r = 0 then Ok (0, st)
     else
       bnd (sl data 0 (fst r)) (\<lambda>d.
       bnd (append_chunks (send_chunks d) r st) (\<lambda>(left, st).
       if fst left \<noteq> 0 then Panic else Ok (fst r, st))))"

definition send_append_buf :: "bytes \<Rightarrow> nat \<Rightarrow> bool \<Rightarrow> send_buf \<Rightarrow> (qerror, (nat \<times> bytes option) \<times> send_buf) run" where
  "send_append_buf data room fin st =
     bnd (reserve_for_write (min room (length data)) fin st) (\<lambda>(r, st).
     if fst r = 0 then Ok ((0, Some data), st)
     else
       let remainder = (if fst r < length data then Some (drop (fst r) data) else None);
           data = take (fst r) data
       in bnd (reserve_append data r st) (\<lambda>(left, st).
          if fst left \<noteq> 0 then Panic else Ok ((fst r, remainder), st)))"

section \<open>Sending\<close>

text \<open>\<^verbatim>\<open>out[i..i + n].copy_from_slice(piece)\<close>\<close>

definition put_at :: "bytes \<Rightarrow> nat \<Rightarrow> bytes \<Rightarrow> (qerror, bytes) run" where
  "put_at out i piece =
     (if i + length piece \<le> length out then Ok (take i out @ piece @ drop (i + length piece) out) else Panic)"

function send_loop :: "nat \<Rightarrow> nat \<Rightarrow> nat \<Rightarrow> bytes \<Rightarrow> send_buf \<Rightarrow> (qerror, nat \<times> nat \<times> bytes \<times> send_buf) run" where
  "send_loop out_off out_len next_off out st =
     (if out_len = 0 \<or> sd_data st = [] \<or> off_front st \<ge> sd_off st \<or> off_front st \<noteq> next_off \<or> off_front st \<ge> sd_max_data st \<or>
         sd_pos st \<ge> length (sd_data st)
      then Ok (out_len, next_off, out, st)
      else
        let buf = sd_data st ! sd_pos st in
        if buf_is_empty buf then send_loop out_off out_len next_off out (st\<lparr>sd_pos := sd_pos st + 1\<rparr>)
        else
          let n = min (buf_len buf) out_len in
          bnd (bnd (buf_deref buf) (\<lambda>bs. sl bs 0 n)) (\<lambda>piece.
          bnd (u64_diff next_off out_off) (\<lambda>out_pos.
          bnd (put_at out out_pos piece) (\<lambda>out.
          bnd (u64_diff (sd_buffered st) n) (\<lambda>buffered.
          let st' = st\<lparr>sd_data := (sd_data st)[sd_pos st := consume n buf], sd_buffered := buffered\<rparr> in
          if n < buf_len buf then Ok (out_len - n, buf_off buf + n, out, st')
          else send_loop out_off (out_len - n) (buf_off buf + n) out (st'\<lparr>sd_pos := sd_pos st + 1\<rparr>))))))"
  by pat_completeness auto
termination
  by (relation "measure (\<lambda>(_, _, _, _, st). length (sd_data st) - sd_pos st)") auto

declare send_loop.simps [simp del]

text \<open>The number of bytes and the flag returned, and the output buffer.\<close>

definition send_emit :: "bytes \<Rightarrow> send_buf \<Rightarrow> (qerror, (nat \<times> bool \<times> bytes) \<times> send_buf) run" where
  "send_emit out st =
     bnd (send_loop (off_front st) (length out) (off_front st) out st) (\<lambda>(out_len, next_off, out', st).
     Ok ((length out - out_len, sd_fin_off st = Some next_off, out'),
         st\<lparr>sd_emit_off := max (sd_emit_off st) next_off\<rparr>))"

definition send_update_max_data :: "nat \<Rightarrow> send_buf \<Rightarrow> send_buf" where
  "send_update_max_data max_data st = st\<lparr>sd_max_data := max (sd_max_data st) max_data\<rparr>"

definition update_blocked_at :: "nat option \<Rightarrow> send_buf \<Rightarrow> send_buf" where
  "update_blocked_at blocked_at st = st\<lparr>sd_blocked_at := blocked_at\<rparr>"

section \<open>Acknowledgements and losses\<close>

definition send_ack :: "nat \<Rightarrow> nat \<Rightarrow> send_buf \<Rightarrow> (qerror, send_buf) run" where
  "send_ack off len st =
     bnd (u64_sum off len) (\<lambda>fin.
     case rs_insert (sd_acked st) (off, fin) of Ok acked \<Rightarrow> Ok (st\<lparr>sd_acked := acked\<rparr>) | _ \<Rightarrow> Panic)"

text \<open>The number of chunks at the front that are acknowledged whole.\<close>

fun drop_count :: "nat \<Rightarrow> range_buf list \<Rightarrow> nat" where
  "drop_count acked [] = 0"
| "drop_count acked (buf # data) =
     (if rb_off buf \<ge> acked then 0
      else if rb_off buf < acked \<and> acked < buf_max_off buf then 0
      else Suc (drop_count acked data))"

definition ack_and_drop :: "nat \<Rightarrow> nat \<Rightarrow> send_buf \<Rightarrow> (qerror, nat \<times> send_buf) run" where
  "ack_and_drop off len st =
     bnd (send_ack off len st) (\<lambda>st.
     if sd_data st = [] \<or> off > ack_off st then Ok (0, st)
     else
       let n = drop_count (ack_off st) (sd_data st) in
       if n = 0 then Ok (0, st)
       else
         let dropped_len = sum_list (map buf_len (take n (sd_data st))) in
         Ok (dropped_len,
             st\<lparr>sd_buffered := sd_buffered st - dropped_len, sd_data := drop n (sd_data st), sd_pos := sd_pos st - n\<rparr>))"

text \<open>Reducing the position of a chunk when the range begins past its offset.\<close>

definition rewound :: "nat \<Rightarrow> range_buf \<Rightarrow> nat" where
  "rewound off buf =
     (if off > rb_off buf \<and> off \<le> buf_max_off buf
      then min (rb_pos buf) (rb_start buf + (off - rb_off buf)) else rb_start buf)"

text \<open>The loop over the indices that the queue had at the start.\<close>

fun retransmit_loop :: "nat \<Rightarrow> nat \<Rightarrow> nat \<Rightarrow> nat \<Rightarrow> nat \<Rightarrow> send_buf \<Rightarrow> (qerror, nat \<times> send_buf) run" where
  "retransmit_loop 0 i off max_off resent st = Ok (resent, st)"
| "retransmit_loop (Suc k) i off max_off resent st =
     bnd (ix (sd_data st) i) (\<lambda>buf.
     if rb_off buf \<ge> max_off then Ok (resent, st)
     else if off > buf_max_off buf then retransmit_loop k (i + 1) off max_off resent st
     else
       bnd (if rb_off buf < max_off \<and> max_off < buf_max_off buf
            then bnd (split_off (max_off - rb_off buf) buf) (\<lambda>(l, r). Ok (l, [r])) else Ok (buf, [])) (\<lambda>(buf, new_buf).
       bnd (u64_diff (rb_pos buf) (rewound off buf)) (\<lambda>retransmitted.
       retransmit_loop k (i + 1) off max_off (resent + retransmitted)
         (st\<lparr>sd_data := take i (sd_data st) @ buf\<lparr>rb_pos := rewound off buf\<rparr> # new_buf @ drop (Suc i) (sd_data st),
             sd_pos := min (sd_pos st) i, sd_buffered := sd_buffered st + retransmitted\<rparr>))))"

definition retransmit :: "nat \<Rightarrow> nat \<Rightarrow> send_buf \<Rightarrow> (qerror, nat \<times> send_buf) run" where
  "retransmit off len st =
     bnd (u64_sum off len) (\<lambda>max_off.
     if sd_data st = [] \<or> max_off \<le> ack_off st then Ok (0, st)
     else retransmit_loop (length (sd_data st)) 0 off max_off 0 st)"

section \<open>Ending\<close>

definition send_reset :: "send_buf \<Rightarrow> (qerror, (nat \<times> nat) \<times> send_buf) run" where
  "send_reset st =
     (let unsent_off = max (off_front st) (sd_emit_off st);
          unsent_len = sd_off st - unsent_off
      in bnd (send_ack 0 unsent_off (st\<lparr>sd_fin_off := Some unsent_off, sd_data := [], sd_off := unsent_off\<rparr>)) (\<lambda>st.
         Ok ((sd_emit_off st, unsent_len), st\<lparr>sd_pos := 0, sd_buffered := 0\<rparr>)))"

definition send_stop :: "nat \<Rightarrow> send_buf \<Rightarrow> (qerror, (nat \<times> nat) \<times> send_buf) run" where
  "send_stop error_code st =
     (if sd_error st \<noteq> None then Err Done
      else bnd (send_reset st) (\<lambda>(r, st). Ok (r, st\<lparr>sd_error := Some error_code\<rparr>)))"

definition send_shutdown :: "send_buf \<Rightarrow> (qerror, (nat \<times> nat) \<times> send_buf) run" where
  "send_shutdown st = (if sd_shutdown st then Err Done else send_reset (st\<lparr>sd_shutdown := True\<rparr>))"

section \<open>Lemmas: chunks that keep what they have sent\<close>

definition full :: "(nat \<Rightarrow> u8 \<Rightarrow> bool) \<Rightarrow> range_buf \<Rightarrow> bool" where
  "full src b \<longleftrightarrow> buf_ok b \<and> 0 < rb_len b \<and>
     list_all2 src [rb_off b ..< rb_off b + rb_len b] (take (rb_len b) (drop (rb_start b) (rb_data b)))"

lemma buf_ok_simps:
  assumes "buf_ok b"
  shows "buf_off b = rb_off b + (rb_pos b - rb_start b)" "buf_max_off b = rb_off b + rb_len b"
    "span b = {rb_off b + (rb_pos b - rb_start b) ..< rb_off b + rb_len b}" "buf_len b = rb_len b - (rb_pos b - rb_start b)"
  using assms by (auto simp: buf_ok_def buf_off_def buf_max_off_def buf_len_def span_def)

lemma full_holds: "full src b \<Longrightarrow> holds src b"
proof -
  assume f: "full src b"
  then have ok: "buf_ok b" by (simp add: full_def)
  have "list_all2 src (drop (rb_pos b - rb_start b) [rb_off b ..< rb_off b + rb_len b])
      (drop (rb_pos b - rb_start b) (take (rb_len b) (drop (rb_start b) (rb_data b))))"
    using f by (intro list_all2_dropI) (simp add: full_def)
  moreover have "drop (rb_pos b - rb_start b) (take (rb_len b) (drop (rb_start b) (rb_data b))) = view b"
    using ok by (simp add: view_def drop_take buf_ok_simps buf_ok_def add.commute)
  ultimately show ?thesis using ok by (simp add: holds_def buf_ok_simps)
qed

lemma full_pos: "full src b \<Longrightarrow> rb_start b \<le> p \<Longrightarrow> p \<le> rb_start b + rb_len b \<Longrightarrow> full src (b\<lparr>rb_pos := p\<rparr>)"
  by (auto simp: full_def buf_ok_def)

lemma full_consume: "full src b \<Longrightarrow> n \<le> buf_len b \<Longrightarrow> full src (consume n b)"
  unfolding consume_def by (rule full_pos) (auto simp: full_def buf_ok_def buf_len_def)

lemma full_split:
  assumes "full src b" "0 < at" "at < rb_len b"
  obtains l r where "split_off at b = Ok (l, r)" "full src l" "full src r" "rb_off l = rb_off b" "rb_len l = at"
    "rb_off r = rb_off b + at" "rb_len r = rb_len b - at" "span l \<union> span r = span b" "buf_len l + buf_len r = buf_len b"
proof -
  define l where "l = b\<lparr>rb_pos := min (rb_pos b) (rb_start b + at), rb_len := at, rb_fin := False\<rparr>"
  define r where "r = b\<lparr>rb_start := rb_start b + at, rb_pos := max (rb_pos b) (rb_start b + at), rb_len := rb_len b - at, rb_off := rb_off b + at\<rparr>"
  have ok: "buf_ok b" using assms(1) by (simp add: full_def)
  have okl: "buf_ok l" "buf_ok r" using ok assms(2,3) by (auto simp: buf_ok_def l_def r_def)
  let ?c = "take (rb_len b) (drop (rb_start b) (rb_data b))"
  have "list_all2 src (take at [rb_off b ..< rb_off b + rb_len b]) (take at ?c)"
    "list_all2 src (drop at [rb_off b ..< rb_off b + rb_len b]) (drop at ?c)"
    using assms(1) unfolding full_def by (blast intro: list_all2_takeI list_all2_dropI)+
  moreover have "take at ?c = take at (drop (rb_start b) (rb_data b))" using assms(3) by simp
  moreover have "drop at ?c = take (rb_len b - at) (drop (rb_start b + at) (rb_data b))" by (simp add: drop_take add.commute)
  ultimately have "full src l" "full src r" using okl assms(2,3) by (simp_all add: full_def l_def r_def)
  moreover have "span l \<union> span r = span b" "buf_len l + buf_len r = buf_len b"
    using okl ok assms(2,3) by (auto simp: buf_ok_simps l_def r_def buf_ok_def min_def max_def)
  moreover have "split_off at b = Ok (l, r)" using assms(3) by (simp add: split_off_def l_def r_def)
  ultimately show ?thesis using that [of l r] by (simp add: l_def r_def)
qed

fun linked :: "nat \<Rightarrow> range_buf list \<Rightarrow> nat \<Rightarrow> bool" where
  "linked a [] z \<longleftrightarrow> a = z"
| "linked a (b # bs) z \<longleftrightarrow> rb_off b = a \<and> linked (a + rb_len b) bs z"

lemma linked_append: "linked a (bs @ cs) z \<longleftrightarrow> (\<exists>m. linked a bs m \<and> linked m cs z)"
  by (induction bs arbitrary: a) auto

lemma linked_le: "linked a bs z \<Longrightarrow> a \<le> z"
  by (induction bs arbitrary: a) fastforce+

lemma linked_span:
  "linked a bs z \<Longrightarrow> \<forall>b \<in> set bs. full src b \<Longrightarrow> spans bs \<subseteq> {a ..< z}"
proof (induction bs arbitrary: a)
  case (Cons b bs)
  have "spans bs \<subseteq> {a + rb_len b ..< z}" using Cons by auto
  moreover have "a + rb_len b \<le> z" using Cons.prems(1) linked_le by auto
  moreover have "span b \<subseteq> {a ..< a + rb_len b}" using Cons.prems by (auto simp: full_def buf_ok_simps)
  ultimately show ?case by fastforce
qed simp

lemma empty_span: "buf_len b = 0 \<Longrightarrow> span b = {}"
  by (simp add: span_empty)

lemma spans_empty: "\<forall>b \<in> set bs. buf_len b = 0 \<Longrightarrow> spans bs = {}"
  by (auto simp: spans_def empty_span)

section \<open>Lemmas: the buffer\<close>

text \<open>The bytes still to be sent, and a buffer that holds the stream \<open>src\<close> from \<open>base\<close> on.\<close>

definition pending :: "send_buf \<Rightarrow> nat set" where
  "pending st = spans (sd_data st)"

definition send_inv :: "(nat \<Rightarrow> u8 \<Rightarrow> bool) \<Rightarrow> nat \<Rightarrow> send_buf \<Rightarrow> bool" where
  "send_inv src base st \<longleftrightarrow>
     linked base (sd_data st) (sd_off st) \<and> (\<forall>b \<in> set (sd_data st). full src b) \<and> sd_pos st \<le> length (sd_data st) \<and>
     (\<forall>b \<in> set (take (sd_pos st) (sd_data st)). buf_len b = 0) \<and> sd_buffered st = sum_list (map buf_len (sd_data st)) \<and>
     sd_off st \<le> sd_max_data st \<and> sd_max_data st < 2 ^ 64 - 1"

lemma pending_pos: "send_inv src base st \<Longrightarrow> pending st = spans (drop (sd_pos st) (sd_data st))"
  using spans_simps(3) [of "take (sd_pos st) (sd_data st)" "drop (sd_pos st) (sd_data st)"] spans_empty
  by (simp add: pending_def send_inv_def)

lemma pending_bounds: "send_inv src base st \<Longrightarrow> pending st \<subseteq> {base ..< sd_off st}"
  using linked_span [of base "sd_data st" "sd_off st" src] by (simp add: send_inv_def pending_def)

lemma first_nonempty:
  assumes "linked a bs z" "\<forall>b \<in> set bs. full src b"
  shows "case filter (\<lambda>b. \<not> buf_is_empty b) bs of [] \<Rightarrow> spans bs = {}
    | b # _ \<Rightarrow> b \<in> set bs \<and> buf_off b \<in> spans bs \<and> (\<forall>x \<in> spans bs. buf_off b \<le> x)"
  using assms
proof (induction bs arbitrary: a)
  case (Cons b bs)
  show ?case
  proof (cases "buf_is_empty b")
    case True
    then have "span b = {}" by (simp add: buf_is_empty_def empty_span)
    then show ?thesis using Cons.IH [of "a + rb_len b"] Cons.prems True by (auto split: list.splits)
  next
    case False
    have "spans bs \<subseteq> {a + rb_len b ..< z}" using linked_span [of "a + rb_len b" bs z src] Cons.prems by simp
    moreover have "buf_off b \<le> a + rb_len b" "buf_off b \<in> span b"
      using Cons.prems False by (auto simp: full_def buf_ok_simps buf_ok_def buf_is_empty_def)
    ultimately show ?thesis using False by (fastforce simp: span_def)
  qed
qed simp

lemma off_front_pending:
  assumes "send_inv src base st"
  shows "pending st = {} \<and> off_front st = sd_off st \<or>
    off_front st \<in> pending st \<and> (\<forall>x \<in> pending st. off_front st \<le> x) \<and> off_front st < sd_off st"
proof -
  obtain m where "linked m (drop (sd_pos st) (sd_data st)) (sd_off st)"
    using assms linked_append [of base "take (sd_pos st) (sd_data st)" "drop (sd_pos st) (sd_data st)"] by (auto simp: send_inv_def)
  moreover have "\<forall>b \<in> set (drop (sd_pos st) (sd_data st)). full src b" using assms by (auto simp: send_inv_def dest: in_set_dropD)
  ultimately show ?thesis
    using first_nonempty [of m "drop (sd_pos st) (sd_data st)" "sd_off st" src] pending_pos [OF assms] pending_bounds [OF assms]
    by (auto simp: off_front_def split: list.splits)
qed

lemma consume_inv:
  assumes inv: "send_inv src base st" and pos: "sd_pos st < length (sd_data st)" and b: "b = sd_data st ! sd_pos st" and n: "n \<le> buf_len b"
  defines "st' \<equiv> st\<lparr>sd_data := (sd_data st)[sd_pos st := consume n b], sd_buffered := sd_buffered st - n\<rparr>"
  shows "send_inv src base st' \<and> pending st' = pending st - {buf_off b ..< buf_off b + n} \<and>
    {buf_off b ..< buf_off b + n} \<subseteq> pending st \<and> n \<le> sd_buffered st"
proof -
  obtain pre suf where d: "sd_data st = pre @ b # suf" "length pre = sd_pos st"
    using id_take_nth_drop [OF pos] b pos by (metis length_take less_imp_le min.absorb2)
  have full: "full src b" "\<forall>x \<in> set pre. full src x" "\<forall>x \<in> set suf. full src x" using inv d(1) by (auto simp: send_inv_def)
  have d': "sd_data st' = pre @ consume n b # suf" using d list_update_length [of pre b suf "consume n b"] by (simp add: st'_def)
  obtain m where m: "linked base pre m" "rb_off b = m" "linked (m + rb_len b) suf (sd_off st)"
    using inv d(1) by (auto simp: send_inv_def linked_append)
  have same: "rb_off (consume n b) = rb_off b" "rb_len (consume n b) = rb_len b" by (simp_all add: consume_def)
  have ok: "buf_ok b" using full(1) by (simp add: full_def)
  note c = consume_simps [OF ok n]
  have beside: "spans pre \<subseteq> {base ..< m}" "spans suf \<subseteq> {m + rb_len b ..< sd_off st}"
    using linked_span m(1,3) full(2,3) by blast+
  have sp: "span b = {buf_off b ..< buf_max_off b}" "span (consume n b) = {buf_off b + n ..< buf_max_off b}"
    "m \<le> buf_off b" "buf_max_off b = m + rb_len b" "buf_off b + n \<le> buf_max_off b"
    using c ok m(2) n by (auto simp: span_def buf_ok_simps(1,2)) (auto simp: buf_ok_def buf_len_def)
  have "sum_list (map buf_len (sd_data st)) = sum_list (map buf_len pre) + buf_len b + sum_list (map buf_len suf)" "buf_len (consume n b) = buf_len b - n"
    using d(1) c ok n by (auto simp: buf_max_off_def)
  moreover have "linked base (sd_data st') (sd_off st)" using m same d' by (auto simp: linked_append)
  ultimately have "send_inv src base st'"
    using inv d d' full full_consume [OF full(1) n] n by (auto simp: send_inv_def st'_def)
  moreover have "pending st' = pending st - {buf_off b ..< buf_off b + n}"
  proof -
    have "spans pre \<inter> {buf_off b ..< buf_off b + n} = {}" "spans suf \<inter> {buf_off b ..< buf_off b + n} = {}"
      using beside sp by fastforce+
    moreover have "span (consume n b) = span b - {buf_off b ..< buf_off b + n}" using sp by auto
    ultimately show ?thesis using d(1) d' by (auto simp: pending_def)
  qed
  moreover have "{buf_off b ..< buf_off b + n} \<subseteq> pending st" using sp d(1) by (auto simp: pending_def)
  moreover have "n \<le> sd_buffered st" using inv d(1) n by (simp add: send_inv_def)
  ultimately show ?thesis by blast
qed

lemma skip_inv:
  assumes "send_inv src base st" "sd_pos st < length (sd_data st)" "buf_len (sd_data st ! sd_pos st) = 0"
  shows "send_inv src base (st\<lparr>sd_pos := sd_pos st + 1\<rparr>)" "pending (st\<lparr>sd_pos := sd_pos st + 1\<rparr>) = pending st"
  using assms by (auto simp: send_inv_def take_Suc_conv_app_nth pending_def)

lemma send_loop_spec:
  assumes "send_inv src base st" "out_off \<le> next_off" "next_off - out_off + out_len = length out"
    "list_all2 src [out_off ..< next_off] (take (next_off - out_off) out)" "\<forall>x \<in> pending st. next_off \<le> x"
  shows "\<exists>next_off' out' st'. send_loop out_off out_len next_off out st = Ok (out_len - (next_off' - next_off), next_off', out', st') \<and>
    next_off \<le> next_off' \<and> next_off' - next_off \<le> out_len \<and> length out' = length out \<and>
    list_all2 src [out_off ..< next_off'] (take (next_off' - out_off) out') \<and> send_inv src base st' \<and>
    pending st' = pending st - {next_off ..< next_off'} \<and> {next_off ..< next_off'} \<subseteq> pending st \<and>
    (next_off' - next_off = out_len \<or> next_off' \<notin> pending st) \<and>
    st' = st\<lparr>sd_data := sd_data st', sd_pos := sd_pos st', sd_buffered := sd_buffered st'\<rparr>"
  using assms
proof (induction "length (sd_data st) - sd_pos st" arbitrary: out_len next_off out st rule: less_induct)
  case less
  note front = off_front_pending [OF less.prems(1)]
  have inv: "linked base (sd_data st) (sd_off st)" "\<forall>b \<in> set (sd_data st). full src b" "sd_pos st \<le> length (sd_data st)"
    "\<forall>b \<in> set (take (sd_pos st) (sd_data st)). buf_len b = 0" "sd_buffered st = sum_list (map buf_len (sd_data st))"
    "sd_off st \<le> sd_max_data st" "sd_max_data st < 2 ^ 64 - 1"
    using less.prems(1) by (auto simp: send_inv_def)
  show ?case
  proof (cases "out_len = 0 \<or> sd_data st = [] \<or> off_front st \<ge> sd_off st \<or> off_front st \<noteq> next_off \<or> off_front st \<ge> sd_max_data st \<or>
         sd_pos st \<ge> length (sd_data st)")
    case True
    then have "send_loop out_off out_len next_off out st = Ok (out_len, next_off, out, st)" by (subst send_loop.simps) simp
    moreover have "out_len = 0 \<or> next_off \<notin> pending st"
    proof -
      have "pending st = {}" if "sd_data st = [] \<or> sd_pos st \<ge> length (sd_data st)"
        using that pending_pos [OF less.prems(1)] by auto
      then show ?thesis using True front inv(6) less.prems(5) by (metis empty_iff le_trans not_le order_antisym)
    qed
    ultimately show ?thesis using less.prems by (intro exI [of _ next_off] exI [of _ out] exI [of _ st]) auto
  next
    case False
    define b where "b = sd_data st ! sd_pos st"
    have go: "out_len \<noteq> 0" "off_front st = next_off" "sd_pos st < length (sd_data st)" using False by auto
    show ?thesis
    proof (cases "buf_is_empty b")
      case True
      have "send_loop out_off out_len next_off out st = send_loop out_off out_len next_off out (st\<lparr>sd_pos := sd_pos st + 1\<rparr>)"
        using False True by (subst send_loop.simps) (simp add: b_def)
      moreover have e: "buf_len (sd_data st ! sd_pos st) = 0" using True by (simp add: b_def buf_is_empty_def)
      note skip = skip_inv [OF less.prems(1) go(3) e]
      moreover have "length (sd_data (st\<lparr>sd_pos := sd_pos st + 1\<rparr>)) - sd_pos (st\<lparr>sd_pos := sd_pos st + 1\<rparr>) < length (sd_data st) - sd_pos st"
        using go(3) by simp
      note less.hyps [OF this skip(1) less.prems(2-4)]
      ultimately show ?thesis using less.prems(5) skip(2) by simp
    next
      case nonempty: False
      define n where "n = min (buf_len b) out_len"
      have "drop (sd_pos st) (sd_data st) = b # drop (Suc (sd_pos st)) (sd_data st)"
        using go(3) by (simp add: b_def Cons_nth_drop_Suc)
      then have next_off: "next_off = buf_off b" using nonempty go(2) by (simp add: off_front_def)
      have ok: "buf_ok b" "holds src b" using inv(2) go(3) full_holds by (auto simp: b_def full_def)
      define piece where "piece = take n (view b)"
      have lp: "length piece = n" using ok(1) by (simp add: piece_def n_def)
      define out1 where "out1 = take (next_off - out_off) out @ piece @ drop (next_off - out_off + n) out"
      have room: "next_off - out_off + n \<le> length out" using less.prems(3) by (simp add: n_def)
      define st1 where "st1 = st\<lparr>sd_data := (sd_data st)[sd_pos st := consume n b], sd_buffered := sd_buffered st - n\<rparr>"
      have n: "n \<le> buf_len b" by (simp add: n_def)
      have c: "send_inv src base st1" "pending st1 = pending st - {next_off ..< next_off + n}"
          "{next_off ..< next_off + n} \<subseteq> pending st" "n \<le> sd_buffered st"
        using consume_inv [OF less.prems(1) go(3) b_def n] by (simp_all add: st1_def next_off)
      have read: "bnd (buf_deref b) (\<lambda>bs. sl bs 0 n) = Ok piece" using ok(1) n by (simp add: buf_deref_view piece_def)
      have turn: "send_loop out_off out_len next_off out st =
          (if n < buf_len b then Ok (out_len - n, buf_off b + n, out1, st1)
           else send_loop out_off (out_len - n) (buf_off b + n) out1 (st1\<lparr>sd_pos := sd_pos st + 1\<rparr>))"
        unfolding send_loop.simps [of out_off out_len next_off out st] Let_def b_def [symmetric] n_def [symmetric] read
        using False nonempty less.prems(2) room lp c(4) by (simp add: put_at_def out1_def st1_def)
      have out1: "length out1 = length out" "take (next_off - out_off + n) out1 = take (next_off - out_off) out @ piece"
        using room lp by (simp_all add: out1_def)
      have "list_all2 src [buf_off b ..< buf_off b + n] piece"
        using list_all2_takeI [of src "[buf_off b ..< buf_max_off b]" "view b" n] ok(2) n by (simp add: holds_def piece_def buf_max_off_def)
      then have "list_all2 src ([out_off ..< next_off] @ [next_off ..< next_off + n]) (take (next_off - out_off) out @ piece)"
        using less.prems(4) next_off by (intro list_all2_appendI) simp_all
      then have sent: "list_all2 src [out_off ..< next_off + n] (take (next_off + n - out_off) out1)"
        using upt_add_eq_append [OF less.prems(2), of n] out1(2) less.prems(2) by simp
      have st1: "st1 = st\<lparr>sd_data := sd_data st1, sd_pos := sd_pos st1, sd_buffered := sd_buffered st1\<rparr>" by (simp add: st1_def)
      show ?thesis
      proof (cases "n < buf_len b")
        case True
        then have "n = out_len" by (simp add: n_def)
        then show ?thesis using turn True next_off c out1(1) sent st1
          by (intro exI [of _ "next_off + n"] exI [of _ out1] exI [of _ st1]) simp
      next
        case whole: False
        have pos1: "sd_pos st1 = sd_pos st" "sd_pos st1 < length (sd_data st1)" "sd_data st1 ! sd_pos st1 = consume n b"
          using go(3) by (simp_all add: st1_def)
        have "buf_len (consume n b) = 0" using consume_simps [OF ok(1) n] whole n by (simp add: buf_max_off_def)
        then have skip: "send_inv src base (st1\<lparr>sd_pos := sd_pos st + 1\<rparr>)" "pending (st1\<lparr>sd_pos := sd_pos st + 1\<rparr>) = pending st1"
          using skip_inv [OF c(1) pos1(2)] pos1(1,3) by simp_all
        have after: "\<forall>x \<in> pending (st1\<lparr>sd_pos := sd_pos st + 1\<rparr>). next_off + n \<le> x"
          using skip(2) c(2) less.prems(5) by force
        have room1: "next_off + n - out_off + (out_len - n) = length out1" using less.prems(2,3) out1(1) by (simp add: n_def)
        have "length (sd_data (st1\<lparr>sd_pos := sd_pos st + 1\<rparr>)) - sd_pos (st1\<lparr>sd_pos := sd_pos st + 1\<rparr>) < length (sd_data st) - sd_pos st"
          using go(3) by (simp add: st1_def)
        from less.hyps [OF this skip(1) _ room1 sent after] less.prems(2)
        obtain next_off' out' st' where i:
            "send_loop out_off (out_len - n) (next_off + n) out1 (st1\<lparr>sd_pos := sd_pos st + 1\<rparr>) =
              Ok (out_len - n - (next_off' - (next_off + n)), next_off', out', st')"
            "next_off + n \<le> next_off'" "next_off' - (next_off + n) \<le> out_len - n" "length out' = length out1"
            "list_all2 src [out_off ..< next_off'] (take (next_off' - out_off) out')" "send_inv src base st'"
            "pending st' = pending st1 - {next_off + n ..< next_off'}" "{next_off + n ..< next_off'} \<subseteq> pending st1"
            "next_off' - (next_off + n) = out_len - n \<or> next_off' \<notin> pending st1"
            "st' = st1\<lparr>sd_data := sd_data st', sd_pos := sd_pos st', sd_buffered := sd_buffered st'\<rparr>"
          using skip(2) by auto
        have "n \<le> out_len" by (simp add: n_def)
        have "st' = st\<lparr>sd_data := sd_data st', sd_pos := sd_pos st', sd_buffered := sd_buffered st'\<rparr>"
          by (subst i(10)) (simp add: st1_def)
        moreover have "{next_off ..< next_off'} = {next_off ..< next_off + n} \<union> {next_off + n ..< next_off'}" using i(2) by auto
        moreover have "next_off' - next_off = out_len \<or> next_off' \<notin> pending st"
          using i(2,9) c(2) \<open>n \<le> out_len\<close> by auto
        moreover have "send_loop out_off out_len next_off out st = Ok (out_len - (next_off' - next_off), next_off', out', st')"
          using turn whole i(1,2) next_off by simp
        ultimately show ?thesis
          using i(2-8) c(2,3) out1(1) \<open>n \<le> out_len\<close> by (intro exI [of _ next_off'] exI [of _ out'] exI [of _ st']) auto
      qed
    qed
  qed
qed

lemma linked_within: "linked a bs z \<Longrightarrow> b \<in> set bs \<Longrightarrow> rb_off b + rb_len b \<le> z"
  by (induction bs arbitrary: a) (auto dest: linked_le)

lemma send_inv_mono:
  assumes "send_inv src base st" "\<And>i x. i < sd_off st \<Longrightarrow> src i x \<Longrightarrow> src' i x"
  shows "send_inv src' base st"
proof -
  have "full src' b" if "b \<in> set (sd_data st)" for b
  proof -
    have "full src b" "rb_off b + rb_len b \<le> sd_off st" using that assms(1) linked_within by (auto simp: send_inv_def)
    then show ?thesis using assms(2) by (auto simp: full_def list_all2_conv_all_nth)
  qed
  then show ?thesis using assms(1) by (auto simp: send_inv_def)
qed

lemma append_inv:
  fixes fin :: bool
  assumes "send_inv src base st" "buf \<noteq> []" "list_all2 src [sd_off st ..< sd_off st + length buf] buf"
    "sd_off st + length buf \<le> sd_max_data st"
  defines "st' \<equiv> st\<lparr>sd_data := sd_data st @ [from_raw buf (sd_off st) fin], sd_off := sd_off st + length buf, sd_buffered := sd_buffered st + length buf\<rparr>"
  shows "send_inv src base st' \<and> pending st' = pending st \<union> {sd_off st ..< sd_off st + length buf}"
proof -
  let ?b = "from_raw buf (sd_off st) fin"
  have "full src ?b" using assms(2,3) by (simp add: full_def buf_ok_def from_raw_def)
  moreover have "linked base (sd_data st @ [?b]) (sd_off st + length buf)"
    using assms(1) by (auto simp: send_inv_def linked_append from_raw_def)
  moreover have "span ?b = {sd_off st ..< sd_off st + length buf}" by (simp add: span_def)
  ultimately show ?thesis using assms(1,4) by (auto simp: send_inv_def pending_def st'_def)
qed

lemma append_chunks_inv:
  assumes "send_inv src base st" "\<forall>c \<in> set cs. c \<noteq> []" "list_all2 src [sd_off st ..< sd_off st + length (concat cs)] (concat cs)"
    "sd_off st + length (concat cs) \<le> sd_max_data st" "length (concat cs) \<le> fst r"
  shows "\<exists>st'. append_chunks cs r st = Ok ((fst r - length (concat cs), snd r), st') \<and> send_inv src base st' \<and>
    pending st' = pending st \<union> {sd_off st ..< sd_off st + length (concat cs)} \<and>
    st' = st\<lparr>sd_data := sd_data st', sd_off := sd_off st + length (concat cs), sd_buffered := sd_buffered st'\<rparr>"
  using assms
proof (induction cs arbitrary: r st)
  case Nil
  then show ?case by simp
next
  case (Cons c cs)
  let ?fin = "fst r = length c \<and> snd r"
  define st1 where "st1 = st\<lparr>sd_data := sd_data st @ [from_raw c (sd_off st) ?fin], sd_off := sd_off st + length c,
      sd_buffered := sd_buffered st + length c\<rparr>"
  have split: "[sd_off st ..< sd_off st + length (concat (c # cs))] = [sd_off st ..< sd_off st + length c] @ [sd_off st + length c ..< sd_off st + length c + length (concat cs)]"
    using upt_add_eq_append [of "sd_off st" "sd_off st + length c" "length (concat cs)"] by (simp add: add.assoc)
  have both: "list_all2 src [sd_off st ..< sd_off st + length c] c" "list_all2 src [sd_off st1 ..< sd_off st1 + length (concat cs)] (concat cs)"
    using Cons.prems(3) unfolding split by (simp_all add: list_all2_append st1_def)
  have i: "send_inv src base st1" "pending st1 = pending st \<union> {sd_off st ..< sd_off st + length c}"
    using append_inv [OF Cons.prems(1) _ both(1), of ?fin] Cons.prems(2,4) by (simp_all add: st1_def)
  have "append_chunks (c # cs) r st = append_chunks cs (fst r - length c, snd r) st1"
    using Cons.prems(5) by (simp add: reserve_append_def Let_def st1_def)
  moreover obtain st' where st': "append_chunks cs (fst r - length c, snd r) st1 = Ok ((fst r - length c - length (concat cs), snd r), st')"
      "send_inv src base st'" "pending st' = pending st1 \<union> {sd_off st1 ..< sd_off st1 + length (concat cs)}"
      "st' = st1\<lparr>sd_data := sd_data st', sd_off := sd_off st1 + length (concat cs), sd_buffered := sd_buffered st'\<rparr>"
  proof -
    have "\<forall>c \<in> set cs. c \<noteq> []" "sd_off st1 + length (concat cs) \<le> sd_max_data st1" "length (concat cs) \<le> fst (fst r - length c, snd r)"
      using Cons.prems by (simp_all add: st1_def)
    from Cons.IH [OF i(1) this(1) both(2) this(2,3)] show ?thesis using that by auto
  qed
  moreover have "st' = st\<lparr>sd_data := sd_data st', sd_off := sd_off st + length (concat (c # cs)), sd_buffered := sd_buffered st'\<rparr>"
    by (subst st'(4)) (simp add: st1_def add.assoc)
  moreover have "pending st' = pending st \<union> {sd_off st ..< sd_off st + length (concat (c # cs))}"
    using st'(3) i(2) by (auto simp: st1_def)
  ultimately show ?case by (intro exI [of _ st']) simp
qed

lemma send_chunks_concat [simp]: "concat (send_chunks data) = data"
  by (induction data rule: send_chunks.induct) (subst send_chunks.simps, auto)

lemma send_chunks_nonempty: "\<forall>c \<in> set (send_chunks data). c \<noteq> []"
  by (induction data rule: send_chunks.induct) (subst send_chunks.simps, auto simp: SEND_BUFFER_SIZE_def)

text \<open>What a write takes: a first part of the data, all of it when it fits, or nothing.\<close>

lemma send_write_inv:
  assumes inv: "send_inv src base st" and src: "list_all2 src [sd_off st ..< sd_off st + length data] data"
    and size: "\<forall>n. sd_fin_off st = Some n \<longrightarrow> n = sd_off st" "sd_off st + length data < 2 ^ 64" "ack_off st \<le> sd_off st" "sd_error st = None"
  shows "(\<exists>e. send_write data fin st = Err e) \<or>
    (\<exists>n st'. send_write data fin st = Ok (n, st') \<and> n \<le> length data \<and> send_inv src base st' \<and> sd_off st' = sd_off st + n \<and>
      pending st' = pending st \<union> {sd_off st ..< sd_off st + n} \<and> (n < length data \<longrightarrow> sd_off st' = sd_max_data st) \<and>
      (sd_fin_off st' = (if fin \<and> n = length data then Some (sd_off st') else sd_fin_off st)) \<and> (\<forall>k. sd_fin_off st = Some k \<longrightarrow> n = 0) \<and>
      sd_acked st' = sd_acked st \<and> sd_max_data st' = sd_max_data st \<and> sd_error st' = None \<and> sd_emit_off st' = sd_emit_off st)"
proof -
  define room where "room = sd_max_data st - sd_off st"
  define n where "n = min (length data) room"
  define f where "f = (fin \<and> length data \<le> room)"
  define st1 where "st1 = (if f then st\<lparr>sd_fin_off := Some (sd_off st + length data)\<rparr> else st)"
  have cap: "send_cap st = Ok room" using size(4) inv by (simp add: send_cap_def send_inv_def room_def)
  have len: "(if length data > room then (room, False) else (length data, fin)) = (n, f)" by (simp add: n_def f_def)
  have ack: "ack_off st1 = ack_off st" by (simp add: st1_def ack_off_def)
  have reserve: "reserve_for_write (length data) fin st =
      (if \<exists>k. sd_fin_off st = Some k \<and> (length data > 0 \<or> \<not> f) then Err FinalSize
       else if length data = 0 \<and> ack_off st = sd_off st then Ok ((0, f), st1) else Ok ((n, f), st1))"
  proof -
    have known: "(case sd_fin_off st of None \<Rightarrow> False | Some fin_off \<Rightarrow> sd_off st + length data > fin_off \<or> sd_off st + length data = fin_off \<and> \<not> f)
        \<longleftrightarrow> (\<exists>k. sd_fin_off st = Some k \<and> (length data > 0 \<or> \<not> f))"
      using size(1) by (auto split: option.splits)
    have acked: "ack_off st1 \<ge> sd_off st + length data \<longleftrightarrow> length data = 0 \<and> ack_off st = sd_off st"
      using ack size(3) by linarith
    show ?thesis
      unfolding reserve_for_write_def cap u64_Ok(1) [OF size(2)] bnd.simps len Let_def prod.case known st1_def [symmetric] acked ..
  qed
  show ?thesis
  proof (cases "\<exists>k. sd_fin_off st = Some k \<and> (length data > 0 \<or> \<not> f)")
    case True
    then show ?thesis using reserve by (simp add: send_write_def)
  next
    case False
    have inv1: "send_inv src base st1" "pending st1 = pending st" "sd_off st1 = sd_off st" "sd_max_data st1 = sd_max_data st"
        "sd_acked st1 = sd_acked st" "sd_error st1 = None" "sd_emit_off st1 = sd_emit_off st"
      using inv size(4) by (auto simp: st1_def send_inv_def pending_def)
    have r: "\<exists>m. reserve_for_write (length data) fin st = Ok ((m, f), st1) \<and> (m = n)"
      using reserve False by (auto simp: n_def)
    have fin1: "sd_fin_off st1 = (if fin \<and> n = length data then Some (sd_off st + n) else sd_fin_off st)"
      by (auto simp: st1_def f_def n_def min_def)
    show ?thesis
    proof (cases "n = 0")
      case True
      then have "send_write data fin st = Ok (0, st1)" using r by (auto simp: send_write_def)
      moreover have "0 < length data \<longrightarrow> sd_off st = sd_max_data st" using True inv by (auto simp: n_def room_def send_inv_def min_def split: if_splits)
      ultimately show ?thesis using inv1 fin1 True by auto
    next
      case nonzero: False
      have fit: "sd_off st + n \<le> sd_max_data st" "n \<le> length data" using inv by (auto simp: n_def room_def send_inv_def)
      have "list_all2 src (take n [sd_off st ..< sd_off st + length data]) (take n data)" using src by (rule list_all2_takeI)
      then have "list_all2 src [sd_off st1 ..< sd_off st1 + n] (take n data)" using fit(2) inv1(3) by simp
      then obtain st' where st': "append_chunks (send_chunks (take n data)) (n, f) st1 = Ok ((0, f), st')" "send_inv src base st'"
          "pending st' = pending st \<union> {sd_off st ..< sd_off st + n}"
          "st' = st1\<lparr>sd_data := sd_data st', sd_off := sd_off st + n, sd_buffered := sd_buffered st'\<rparr>"
        using append_chunks_inv [OF inv1(1) send_chunks_nonempty [of "take n data"], of "(n, f)"] fit inv1(2-4) by auto
      have "send_write data fin st = Ok (n, st')" using r nonzero st'(1) fit(2) by (auto simp: send_write_def)
      moreover have "sd_off st' = sd_off st + n" "sd_fin_off st' = sd_fin_off st1" "sd_acked st' = sd_acked st" "sd_max_data st' = sd_max_data st"
          "sd_error st' = None" "sd_emit_off st' = sd_emit_off st"
        using inv1 by (subst st'(4), simp)+
      moreover have "n < length data \<longrightarrow> sd_off st + n = sd_max_data st" using inv by (auto simp: n_def room_def min_def send_inv_def)
      moreover have "sd_fin_off st = None" using False nonzero by (cases "sd_fin_off st") (auto simp: n_def)
      ultimately show ?thesis using st'(2,3) fin1 fit(2) by auto
    qed
  qed
qed

section \<open>Lemmas: acknowledgements\<close>

lemma wf_length: "wf_ranges rs \<Longrightarrow> \<forall>r \<in> set rs. a \<le> fst r \<and> snd r \<le> N \<Longrightarrow> rs \<noteq> [] \<Longrightarrow> length rs + a \<le> N + 1"
proof (induction rs arbitrary: a)
  case (Cons r rs)
  obtain s e where r: "r = (s, e)" by (cases r)
  show ?case
  proof (cases rs)
    case Nil
    then show ?thesis using Cons.prems r by auto
  next
    case (Cons r' rs')
    have "length rs + Suc e \<le> N + 1" using Cons.IH [of "Suc e"] Cons.prems r Cons by (fastforce simp: Suc_le_eq)
    then show ?thesis using Cons.prems r by auto
  qed
qed simp

lemma ins_upper: "\<forall>r \<in> set rs. snd r \<le> N \<Longrightarrow> e \<le> N \<Longrightarrow> \<forall>r \<in> set (ins s e rs). snd r \<le> N"
  by (induction s e rs rule: ins.induct) auto

definition acked_ok :: "nat \<Rightarrow> nat set \<Rightarrow> range_set \<Rightarrow> bool" where
  "acked_ok N A rs \<longleftrightarrow> rs_inv (2 ^ 64 - 1) rs \<and> points (rs_iter rs) = A \<and> (\<forall>r \<in> set (rs_iter rs). snd r \<le> N)"

lemma acked_ok_default: "acked_ok N {} rs_default"
  by (simp add: acked_ok_def rs_default_def rs_inv_def rs_capacity_def MAX_INLINE_CAPACITY_def)

lemma acked_ok_mono: "acked_ok N A rs \<Longrightarrow> N \<le> N' \<Longrightarrow> acked_ok N' A rs"
  by (auto simp: acked_ok_def)

text \<open>Ranges that end below the limit are never too many for the default capacity.\<close>

lemma acked_insert:
  assumes "acked_ok N A rs" "s \<le> e" "e \<le> N" "N < 2 ^ 64 - 1"
  shows "\<exists>rs'. rs_insert rs (s, e) = Ok rs' \<and> acked_ok N (A \<union> {s ..< e}) rs'"
proof -
  have w: "wf_ranges (rs_iter rs)" "rs_inv (2 ^ 64 - 1) rs" "\<forall>r \<in> set (rs_iter rs). snd r \<le> N" "points (rs_iter rs) = A"
    using assms(1) by (auto simp: acked_ok_def rs_inv_def)
  have up: "\<forall>r \<in> set (ins s e (rs_iter rs)). snd r \<le> N" using ins_upper [OF w(3) assms(3)] .
  have "length (ins s e (rs_iter rs)) \<le> N + 1"
    using wf_length [OF ins_wf [OF w(1) assms(2)], of 0 N] up by simp
  then have "bounded_ins (2 ^ 64 - 1) s e (rs_iter rs) = ins s e (rs_iter rs)"
    using assms(4) by (simp add: bounded_ins_def)
  then show ?thesis
    using rs_insert_inv [OF w(2) assms(2)] up ins_points [OF w(1) assms(2)] w(4) by (auto simp: acked_ok_def)
qed

lemma ack_off_spec:
  assumes "acked_ok N A (sd_acked st)"
  shows "{..< ack_off st} \<subseteq> A \<and> ack_off st \<notin> A \<and> ack_off st \<le> N"
proof (cases "rs_iter (sd_acked st)")
  case Nil
  then show ?thesis using assms by (auto simp: acked_ok_def ack_off_def)
next
  case (Cons r rs)
  obtain s e where r: "r = (s, e)" by (cases r)
  have w: "s \<le> e" "\<forall>x \<in> set rs. e < fst x" "A = {s ..< e} \<union> points rs" "e \<le> N"
    using assms Cons r by (auto simp: acked_ok_def rs_inv_def)
  have "y \<notin> points rs" if "y \<le> e" for y using w(2) that by (fastforce simp: points_def)
  then show ?thesis using w Cons r by (auto simp: ack_off_def)
qed

lemma complete_acked:
  assumes "acked_ok N A (sd_acked st)"
  shows "send_is_complete st \<longleftrightarrow> (\<exists>n. sd_fin_off st = Some n \<and> A = {..< n} \<and> rs_iter (sd_acked st) = [(0, n)])"
  using assms by (auto simp: send_is_complete_def rs_eq_range_def acked_ok_def split: option.splits)

lemma drop_count_linked:
  assumes "linked a data z" "\<forall>b \<in> set data. full src b"
  shows "\<exists>m. linked a (take (drop_count k data) data) m \<and> linked m (drop (drop_count k data) data) z \<and> (m = a \<or> m \<le> k)"
  using assms
proof (induction data arbitrary: a)
  case (Cons b data)
  then have ok: "buf_max_off b = rb_off b + rb_len b" "rb_off b = a" by (auto simp: full_def buf_ok_simps)
  show ?case
  proof (cases "rb_off b \<ge> k \<or> rb_off b < k \<and> k < buf_max_off b")
    case True
    then show ?thesis using Cons.prems by auto
  next
    case False
    then have "a + rb_len b \<le> k" using ok by auto
    moreover obtain m where "linked (a + rb_len b) (take (drop_count k data) data) m" "linked m (drop (drop_count k data) data) z"
        "m = a + rb_len b \<or> m \<le> k"
      using Cons.IH [of "a + rb_len b"] Cons.prems by auto
    moreover have "drop_count k (b # data) = Suc (drop_count k data)" using False by auto
    ultimately show ?thesis using ok(2) by auto
  qed
qed simp

lemma ack_and_drop_inv:
  assumes inv: "send_inv src base st" and acked: "acked_ok (sd_off st) A (sd_acked st)" and len: "off + len \<le> sd_off st"
  shows "\<exists>n st' base'. ack_and_drop off len st = Ok (n, st') \<and> send_inv src base' st' \<and>
    acked_ok (sd_off st) (A \<union> {off ..< off + len}) (sd_acked st') \<and> base \<le> base' \<and>
    {..< base'} \<subseteq> {..< base} \<union> (A \<union> {off ..< off + len}) \<and> pending st' = pending st \<inter> {base' ..} \<and>
    sd_off st' = sd_off st \<and> sd_fin_off st' = sd_fin_off st \<and> sd_error st' = sd_error st \<and> sd_max_data st' = sd_max_data st"
proof -
  have lim: "sd_off st < 2 ^ 64 - 1" using inv by (auto simp: send_inv_def)
  then obtain rs where rs: "rs_insert (sd_acked st) (off, off + len) = Ok rs" "acked_ok (sd_off st) (A \<union> {off ..< off + len}) rs"
    using acked_insert [OF acked, of off "off + len"] len by auto
  define st1 where "st1 = st\<lparr>sd_acked := rs\<rparr>"
  have ack: "send_ack off len st = Ok st1" using rs(1) len lim by (simp add: send_ack_def st1_def)
  have inv1: "send_inv src base st1" "pending st1 = pending st" using inv by (auto simp: send_inv_def pending_def st1_def)
  define k where "k = ack_off st1"
  have k: "{..< k} \<subseteq> A \<union> {off ..< off + len}" using ack_off_spec [of "sd_off st" _ st1] rs(2) by (simp add: k_def st1_def)
  define n where "n = drop_count k (sd_data st)"
  obtain m where m: "linked base (take n (sd_data st)) m" "linked m (drop n (sd_data st)) (sd_off st)" "m = base \<or> m \<le> k"
    using drop_count_linked [of base "sd_data st" "sd_off st" src k] inv by (auto simp: send_inv_def n_def)
  show ?thesis
  proof (cases "sd_data st = [] \<or> off > k \<or> n = 0")
    case True
    then have "ack_and_drop off len st = Ok (0, st1)" by (auto simp: ack_and_drop_def ack k_def n_def st1_def Let_def)
    then show ?thesis using inv1 rs(2) pending_bounds [OF inv]
      by (intro exI [of _ 0] exI [of _ st1] exI [of _ base]) (auto simp: st1_def)
  next
    case False
    define st' where "st' = st1\<lparr>sd_buffered := sd_buffered st1 - sum_list (map buf_len (take n (sd_data st))), sd_data := drop n (sd_data st), sd_pos := sd_pos st - n\<rparr>"
    have res: "ack_and_drop off len st = Ok (sum_list (map buf_len (take n (sd_data st))), st')"
    proof -
      have "drop_count (ack_off st1) (sd_data st1) = n" "sd_data st1 = sd_data st" "sd_pos st1 = sd_pos st"
        by (simp_all add: n_def k_def st1_def)
      then show ?thesis using False by (simp add: ack_and_drop_def ack k_def st'_def Let_def)
    qed
    have sum: "sum_list (map buf_len (sd_data st)) = sum_list (map buf_len (take n (sd_data st))) + sum_list (map buf_len (drop n (sd_data st)))"
      by (metis append_take_drop_id map_append sum_list_append)
    have "set (take (sd_pos st - n) (drop n (sd_data st))) \<subseteq> set (take (sd_pos st) (sd_data st))"
    proof (cases "n \<le> sd_pos st")
      case True
      then have "take (sd_pos st) (sd_data st) = take n (sd_data st) @ take (sd_pos st - n) (drop n (sd_data st))"
        using take_add [of n "sd_pos st - n" "sd_data st"] by simp
      then show ?thesis by auto
    qed simp
    moreover have "full src b" if "b \<in> set (drop n (sd_data st))" for b using that inv by (auto simp: send_inv_def dest: in_set_dropD)
    ultimately have "send_inv src m st'"
      using inv m(2) sum by (auto simp: send_inv_def st'_def st1_def)
    moreover have "pending st' = pending st \<inter> {m ..}"
    proof -
      have "spans (take n (sd_data st)) \<subseteq> {base ..< m}" "spans (drop n (sd_data st)) \<subseteq> {m ..< sd_off st}"
        using linked_span [OF m(1), of src] linked_span [OF m(2), of src] inv by (auto simp: send_inv_def dest: in_set_takeD in_set_dropD)
      moreover have "spans (sd_data st) = spans (take n (sd_data st)) \<union> spans (drop n (sd_data st))"
        by (metis append_take_drop_id spans_simps(3))
      ultimately show ?thesis by (auto simp: pending_def st'_def)
    qed
    moreover have "base \<le> m" using linked_le [OF m(1)] .
    moreover have "{..< m} \<subseteq> {..< base} \<union> {..< k}" using m(3) by auto
    then have "{..< m} \<subseteq> {..< base} \<union> (A \<union> {off ..< off + len})" using k by blast
    ultimately show ?thesis using res rs(2)
      by (intro exI [of _ "sum_list (map buf_len (take n (sd_data st)))"] exI [of _ st'] exI [of _ m]) (auto simp: st'_def st1_def)
  qed
qed

section \<open>Lemmas: losses\<close>

text \<open>One chunk that is to be sent again from \<open>off\<close> on.\<close>

lemma rewind:
  assumes "full src b" "off \<le> rb_off b + rb_len b"
  defines "p \<equiv> rewound off b"
  shows "p \<le> rb_pos b \<and> full src (b\<lparr>rb_pos := p\<rparr>) \<and> span (b\<lparr>rb_pos := p\<rparr>) = span b \<union> {max off (rb_off b) ..< rb_off b + rb_len b} \<and>
    buf_len (b\<lparr>rb_pos := p\<rparr>) = buf_len b + (rb_pos b - p)"
proof -
  have ok: "buf_ok b" using assms(1) by (simp add: full_def)
  have p: "p \<le> rb_pos b" "rb_start b \<le> p" "p \<le> rb_start b + rb_len b" using ok by (auto simp: p_def rewound_def buf_ok_def)
  have f: "full src (b\<lparr>rb_pos := p\<rparr>)" by (rule full_pos [OF assms(1) p(2,3)])
  then have ok': "buf_ok (b\<lparr>rb_pos := p\<rparr>)" by (simp add: full_def)
  have "span (b\<lparr>rb_pos := p\<rparr>) = span b \<union> {max off (rb_off b) ..< rb_off b + rb_len b}"
    unfolding buf_ok_simps(3) [OF ok] buf_ok_simps(3) [OF ok'] using ok assms(2) by (auto simp: p_def rewound_def buf_ok_simps(2) [OF ok] buf_ok_def)
  moreover have "buf_len (b\<lparr>rb_pos := p\<rparr>) = buf_len b + (rb_pos b - p)"
    using p ok by (simp add: buf_len_def buf_ok_def)
  ultimately show ?thesis using p(1) f by blast
qed

lemma retransmit_loop_inv:
  assumes "sd_data st = pre @ suf" "linked a suf z" "\<forall>b \<in> set suf. full src b" "off \<le> max_off"
    "sd_pos st \<le> length (sd_data st)" "\<forall>b \<in> set (take (sd_pos st) (sd_data st)). buf_len b = 0"
    "sd_buffered st = sum_list (map buf_len (sd_data st))"
  shows "\<exists>n suf' st'. retransmit_loop (length suf) (length pre) off max_off resent st = Ok (n, st') \<and> sd_data st' = pre @ suf' \<and>
    linked a suf' z \<and> (\<forall>b \<in> set suf'. full src b) \<and> spans suf' = spans suf \<union> ({off ..< max_off} \<inter> {a ..< z}) \<and>
    sd_pos st' \<le> length (sd_data st') \<and> (\<forall>b \<in> set (take (sd_pos st') (sd_data st')). buf_len b = 0) \<and>
    sd_buffered st' = sum_list (map buf_len (sd_data st')) \<and>
    st' = st\<lparr>sd_data := sd_data st', sd_pos := sd_pos st', sd_buffered := sd_buffered st'\<rparr>"
  using assms
proof (induction suf arbitrary: pre a resent st)
  case Nil
  then show ?case by (intro exI [of _ resent] exI [of _ "[]"] exI [of _ st]) auto
next
  case (Cons b suf)
  have b: "full src b" "buf_ok b" "rb_off b = a" "linked (a + rb_len b) suf z" "buf_max_off b = a + rb_len b"
    using Cons.prems(2,3) by (auto simp: full_def buf_ok_simps)
  have above: "a + rb_len b \<le> z" using linked_le [OF b(4)] .
  have at: "(ix (sd_data st) (length pre) :: (qerror, range_buf) run) = Ok b" using Cons.prems(1) by simp
  consider "max_off \<le> a" | "a < max_off" "a + rb_len b < off" | "a < max_off" "off \<le> a + rb_len b" "max_off < a + rb_len b"
    | "a < max_off" "off \<le> a + rb_len b" "a + rb_len b \<le> max_off"
    by linarith
  then show ?case
  proof cases
    case 1
    then have "retransmit_loop (length (b # suf)) (length pre) off max_off resent st = Ok (resent, st)" using at b(3) by simp
    then show ?thesis using Cons.prems 1 by (intro exI [of _ resent] exI [of _ "b # suf"] exI [of _ st]) auto
  next
    case 2
    have "retransmit_loop (length (b # suf)) (length pre) off max_off resent st =
        retransmit_loop (length suf) (length (pre @ [b])) off max_off resent st"
      using at b(3,5) 2 by simp
    moreover have "sd_data st = (pre @ [b]) @ suf" "\<forall>x \<in> set suf. full src x" using Cons.prems(1,3) by simp_all
    from Cons.IH [OF this(1) b(4) this(2) Cons.prems(4-7), of resent]
    obtain n suf' st' where i: "retransmit_loop (length suf) (length (pre @ [b])) off max_off resent st = Ok (n, st')"
        "sd_data st' = (pre @ [b]) @ suf'" "linked (a + rb_len b) suf' z" "\<forall>x \<in> set suf'. full src x"
        "spans suf' = spans suf \<union> ({off ..< max_off} \<inter> {a + rb_len b ..< z})" "sd_pos st' \<le> length (sd_data st')"
        "\<forall>x \<in> set (take (sd_pos st') (sd_data st')). buf_len x = 0" "sd_buffered st' = sum_list (map buf_len (sd_data st'))"
        "st' = st\<lparr>sd_data := sd_data st', sd_pos := sd_pos st', sd_buffered := sd_buffered st'\<rparr>"
      by (elim exE conjE) (rule that)
    moreover have "{off ..< max_off} \<inter> {a + rb_len b ..< z} = {off ..< max_off} \<inter> {a ..< z}" using 2 by auto
    ultimately show ?thesis using b(1,3)
      by (intro exI [of _ n] exI [of _ "b # suf'"] exI [of _ st']) auto
  next
    case 3
    obtain l r where lr: "split_off (max_off - a) b = Ok (l, r)" "full src l" "full src r" "rb_off l = a" "rb_len l = max_off - a"
        "rb_off r = a + (max_off - a)" "rb_len r = rb_len b - (max_off - a)" "span l \<union> span r = span b" "buf_len l + buf_len r = buf_len b"
      using full_split [OF b(1), of "max_off - a"] b(3) 3 by (metis less_diff_conv2 less_imp_le zero_less_diff add.commute)
    define p where "p = rewound off l"
    have w: "p \<le> rb_pos l" "full src (l\<lparr>rb_pos := p\<rparr>)" "span (l\<lparr>rb_pos := p\<rparr>) = span l \<union> {max off a ..< max_off}"
        "buf_len (l\<lparr>rb_pos := p\<rparr>) = buf_len l + (rb_pos l - p)"
      using rewind [OF lr(2), of off] lr(4,5) 3 Cons.prems(4) by (simp_all add: p_def)
    define st1 where "st1 = st\<lparr>sd_data := pre @ l\<lparr>rb_pos := p\<rparr> # r # suf, sd_pos := min (sd_pos st) (length pre),
        sd_buffered := sd_buffered st + (rb_pos l - p)\<rparr>"
    have "retransmit_loop (length (b # suf)) (length pre) off max_off resent st =
        retransmit_loop (length suf) (length pre + 1) off max_off (resent + (rb_pos l - p)) st1"
      using at b(3,5) 3 lr(1) w(1) Cons.prems(1) by (simp add: p_def [symmetric] st1_def)
    also have "\<dots> = Ok (resent + (rb_pos l - p), st1)"
      using 3 lr(6) by (cases suf) (simp_all add: st1_def nth_append)
    finally have run: "retransmit_loop (length (b # suf)) (length pre) off max_off resent st = Ok (resent + (rb_pos l - p), st1)" .
    have "linked a (l\<lparr>rb_pos := p\<rparr> # r # suf) z" using lr(4-7) b(4) 3 by (simp add: add.commute)
    moreover have "spans (l\<lparr>rb_pos := p\<rparr> # r # suf) = spans (b # suf) \<union> ({off ..< max_off} \<inter> {a ..< z})"
      using w(3) lr(8) 3 above by auto
    moreover have "set (take (min (sd_pos st) (length pre)) pre) \<subseteq> set (take (sd_pos st) (sd_data st))"
      using Cons.prems(1) by (auto simp: min_def)
    ultimately show ?thesis using run w(2,4) lr(3,9) Cons.prems
      by (intro exI [of _ "resent + (rb_pos l - p)"] exI [of _ "l\<lparr>rb_pos := p\<rparr> # r # suf"] exI [of _ st1]) (auto simp: st1_def)
  next
    case 4
    define p where "p = rewound off b"
    define b' where "b' = b\<lparr>rb_pos := p\<rparr>"
    have w: "p \<le> rb_pos b" "full src b'" "span b' = span b \<union> {max off a ..< a + rb_len b}" "buf_len b' = buf_len b + (rb_pos b - p)"
        "rb_off b' = a" "rb_len b' = rb_len b"
      using rewind [OF b(1), of off] b(3) 4 by (simp_all add: p_def b'_def)
    define st1 where "st1 = st\<lparr>sd_data := (pre @ [b']) @ suf, sd_pos := min (sd_pos st) (length pre), sd_buffered := sd_buffered st + (rb_pos b - p)\<rparr>"
    have step: "retransmit_loop (length (b # suf)) (length pre) off max_off resent st =
        retransmit_loop (length suf) (length (pre @ [b'])) off max_off (resent + (rb_pos b - p)) st1"
      using at b(3,5) 4 w(1) Cons.prems(1) by (simp add: p_def [symmetric] st1_def b'_def)
    have "set (take (min (sd_pos st) (length pre)) pre) \<subseteq> set (take (sd_pos st) (sd_data st))"
      using Cons.prems(1) by (auto simp: min_def)
    then have "sd_data st1 = (pre @ [b']) @ suf" "\<forall>x \<in> set suf. full src x" "sd_pos st1 \<le> length (sd_data st1)"
        "\<forall>x \<in> set (take (sd_pos st1) (sd_data st1)). buf_len x = 0" "sd_buffered st1 = sum_list (map buf_len (sd_data st1))"
      using Cons.prems w(4) by (auto simp: st1_def)
    from Cons.IH [OF this(1) b(4) this(2) Cons.prems(4) this(3-5), of "resent + (rb_pos b - p)"]
    obtain n suf' st' where i: "retransmit_loop (length suf) (length (pre @ [b'])) off max_off (resent + (rb_pos b - p)) st1 = Ok (n, st')"
        "sd_data st' = (pre @ [b']) @ suf'" "linked (a + rb_len b) suf' z" "\<forall>x \<in> set suf'. full src x"
        "spans suf' = spans suf \<union> ({off ..< max_off} \<inter> {a + rb_len b ..< z})" "sd_pos st' \<le> length (sd_data st')"
        "\<forall>x \<in> set (take (sd_pos st') (sd_data st')). buf_len x = 0" "sd_buffered st' = sum_list (map buf_len (sd_data st'))"
        "st' = st1\<lparr>sd_data := sd_data st', sd_pos := sd_pos st', sd_buffered := sd_buffered st'\<rparr>"
      by (elim exE conjE) (rule that)
    have "st' = st\<lparr>sd_data := sd_data st', sd_pos := sd_pos st', sd_buffered := sd_buffered st'\<rparr>"
      by (subst i(9)) (simp add: st1_def)
    moreover have "span b' \<union> spans suf' = spans (b # suf) \<union> ({off ..< max_off} \<inter> {a ..< z})"
      using w(3) i(5) 4 above by auto
    ultimately show ?thesis using step i w(2,5,6)
      by (intro exI [of _ n] exI [of _ "b' # suf'"] exI [of _ st']) auto
  qed
qed

lemma retransmit_inv:
  assumes inv: "send_inv src base st" and len: "off + len \<le> sd_off st"
  shows "\<exists>n st'. retransmit off len st = Ok (n, st') \<and> send_inv src base st' \<and>
    (off + len \<le> ack_off st \<and> st' = st \<or> pending st' = pending st \<union> ({off ..< off + len} \<inter> {base ..< sd_off st})) \<and>
    sd_off st' = sd_off st \<and> sd_fin_off st' = sd_fin_off st \<and> sd_error st' = sd_error st \<and> sd_acked st' = sd_acked st \<and>
    sd_max_data st' = sd_max_data st"
proof -
  have small: "off + len < 2 ^ 64" using inv len by (simp add: send_inv_def)
  show ?thesis
  proof (cases "sd_data st = [] \<or> off + len \<le> ack_off st")
    case True
    then have "retransmit off len st = Ok (0, st)" using small by (simp add: retransmit_def)
    moreover have "base = sd_off st" if "sd_data st = []" using that inv by (simp add: send_inv_def)
    ultimately show ?thesis using True inv by auto
  next
    case False
    have p: "sd_data st = [] @ sd_data st" "linked base (sd_data st) (sd_off st)" "\<forall>b \<in> set (sd_data st). full src b" "off \<le> off + len"
        "sd_pos st \<le> length (sd_data st)" "\<forall>b \<in> set (take (sd_pos st) (sd_data st)). buf_len b = 0"
        "sd_buffered st = sum_list (map buf_len (sd_data st))"
      using inv by (simp_all add: send_inv_def)
    obtain n suf' st' where i: "retransmit_loop (length (sd_data st)) 0 off (off + len) 0 st = Ok (n, st')" "sd_data st' = suf'"
        "linked base suf' (sd_off st)" "\<forall>b \<in> set suf'. full src b"
        "spans suf' = spans (sd_data st) \<union> ({off ..< off + len} \<inter> {base ..< sd_off st})"
        "sd_pos st' \<le> length (sd_data st')" "\<forall>b \<in> set (take (sd_pos st') (sd_data st')). buf_len b = 0"
        "sd_buffered st' = sum_list (map buf_len (sd_data st'))"
        "st' = st\<lparr>sd_data := sd_data st', sd_pos := sd_pos st', sd_buffered := sd_buffered st'\<rparr>"
      using retransmit_loop_inv [OF p, of 0] by auto
    have same: "sd_off st' = sd_off st" "sd_fin_off st' = sd_fin_off st" "sd_error st' = sd_error st" "sd_acked st' = sd_acked st"
        "sd_max_data st' = sd_max_data st"
      by (subst i(9), simp)+
    have "retransmit off len st = Ok (n, st')" using False small i(1) by (simp add: retransmit_def)
    then show ?thesis using i(2-8) same inv by (auto simp: send_inv_def pending_def)
  qed
qed

end
