(* ===== verification/QStream.thy ===== *)
theory QStream
  imports QSendBuf
begin

text \<open>
  The two sides of a QUIC stream together. A sender is the send buffer with what has been written,
  the frames it has sent, those in flight and those acknowledged; the connection tells it which
  frames were acknowledged and which lost, as \<^verbatim>\<open>on_packet_acked\<close> and \<^verbatim>\<open>on_packet_lost\<close> do. The network
  may drop, repeat and reorder the frames.
\<close>

section \<open>The sender\<close>

type_synonym stream_frame = "nat \<times> bytes \<times> bool"

record sender =
  sn_st :: send_buf
  sn_written :: bytes
  sn_frames :: "stream_frame list"
  sn_flight :: "nat list"
  sn_acks :: "nat list"

datatype send_op = Write bytes bool | Send nat | Acked nat | Lost nat | Grant nat

definition send_call :: "sender \<Rightarrow> send_op \<Rightarrow> (qerror, sender) run" where
  "send_call s call = (case call of
     Write data fin \<Rightarrow>
       (case send_write data fin (sn_st s) of
          Ok (n, st) \<Rightarrow> Ok (s\<lparr>sn_st := st, sn_written := sn_written s @ take n data\<rparr>)
        | Err e \<Rightarrow> Ok s
        | Panic \<Rightarrow> Panic)
   | Send n \<Rightarrow>
       bnd (send_emit (replicate n 0) (sn_st s)) (\<lambda>((len, fin, out), st).
       if len = 0 \<and> \<not> fin then Ok (s\<lparr>sn_st := st\<rparr>)
       else Ok (s\<lparr>sn_st := st, sn_frames := sn_frames s @ [(off_front (sn_st s), take len out, fin)],
                  sn_flight := length (sn_frames s) # sn_flight s\<rparr>))
   | Acked k \<Rightarrow>
       (if k < length (sn_frames s) then
          let (off, bs, fin) = sn_frames s ! k in
          bnd (ack_and_drop off (length bs) (sn_st s)) (\<lambda>(_, st).
          Ok (s\<lparr>sn_st := st, sn_flight := removeAll k (sn_flight s), sn_acks := k # sn_acks s\<rparr>))
        else Ok s)
   | Lost k \<Rightarrow>
       (if k < length (sn_frames s) then
          let (off, bs, fin) = sn_frames s ! k in
          bnd (retransmit off (length bs) (sn_st s)) (\<lambda>(_, st).
          Ok (s\<lparr>sn_st := st, sn_flight := removeAll k (sn_flight s)\<rparr>))
        else Ok s)
   | Grant m \<Rightarrow> Ok (s\<lparr>sn_st := send_update_max_data m (sn_st s)\<rparr>))"

definition sender_new :: "nat \<Rightarrow> sender" where
  "sender_new max_data = \<lparr>sn_st = send_new max_data, sn_written = [], sn_frames = [], sn_flight = [], sn_acks = []\<rparr>"

definition send_run :: "nat \<Rightarrow> send_op list \<Rightarrow> (qerror, sender) run" where
  "send_run max_data calls = foldl (\<lambda>r call. bnd r (\<lambda>s. send_call s call)) (Ok (sender_new max_data)) calls"

text \<open>Limits and lengths as the variable-length integers of the protocol allow them.\<close>

definition small :: "send_op \<Rightarrow> bool" where
  "small call = (case call of Write data _ \<Rightarrow> length data < 2 ^ 62 | Grant m \<Rightarrow> m < 2 ^ 62 | _ \<Rightarrow> True)"

definition at_place :: "bytes \<Rightarrow> nat \<Rightarrow> u8 \<Rightarrow> bool" where
  "at_place w i x \<longleftrightarrow> i < length w \<and> w ! i = x"

definition frame_span :: "stream_frame \<Rightarrow> nat set" where
  "frame_span f = {fst f ..< fst f + length (fst (snd f))}"

definition spans_of :: "sender \<Rightarrow> nat list \<Rightarrow> nat set" where
  "spans_of s ks = (\<Union>k \<in> set ks. if k < length (sn_frames s) then frame_span (sn_frames s ! k) else {})"

text \<open>A frame that carries a piece of what was written, and ends the stream only at its end.\<close>

definition frame_ok :: "sender \<Rightarrow> stream_frame \<Rightarrow> bool" where
  "frame_ok s f = (case f of (off, bs, fin) \<Rightarrow>
     off + length bs \<le> length (sn_written s) \<and>
     list_all2 (at_place (sn_written s)) [off ..< off + length bs] bs \<and> (fin \<longrightarrow> sd_fin_off (sn_st s) = Some (off + length bs)))"

definition holds_all :: "sender \<Rightarrow> nat \<Rightarrow> bool" where
  "holds_all s base \<longleftrightarrow>
     send_inv (at_place (sn_written s)) base (sn_st s) \<and> {..< base} \<subseteq> spans_of s (sn_acks s) \<and>
     acked_ok (length (sn_written s)) (spans_of s (sn_acks s)) (sd_acked (sn_st s)) \<and>
     sd_off (sn_st s) = length (sn_written s) \<and> sd_error (sn_st s) = None \<and> sd_max_data (sn_st s) < 2 ^ 62 \<and>
     (\<forall>n. sd_fin_off (sn_st s) = Some n \<longrightarrow> n = length (sn_written s)) \<and>
     (\<forall>f \<in> set (sn_frames s). frame_ok s f) \<and> set (sn_acks s) \<subseteq> {..< length (sn_frames s)} \<and>
     {..< length (sn_written s)} \<subseteq> pending (sn_st s) \<union> spans_of s (sn_acks s) \<union> spans_of s (sn_flight s)"

definition sender_inv :: "sender \<Rightarrow> bool" where
  "sender_inv s \<longleftrightarrow> (\<exists>base. holds_all s base)"

section \<open>Lemmas\<close>

lemma at_place_slice: "list_all2 (at_place w) [off ..< off + length bs] bs \<longleftrightarrow> off + length bs \<le> length w \<and> bs = take (length bs) (drop off w) \<or> bs = []"
proof
  assume l: "list_all2 (at_place w) [off ..< off + length bs] bs"
  have at: "off + i < length w" "w ! (off + i) = bs ! i" if "i < length bs" for i
    using l that by (auto simp: list_all2_conv_all_nth at_place_def)
  show "off + length bs \<le> length w \<and> bs = take (length bs) (drop off w) \<or> bs = []"
  proof (cases "bs = []")
    case False
    then have "off + (length bs - 1) < length w" by (intro at(1)) simp
    then have "off + length bs \<le> length w" using False by (cases bs) auto
    moreover have "bs = take (length bs) (drop off w)"
      using \<open>off + length bs \<le> length w\<close> by (intro nth_equalityI) (simp_all add: at(2))
    ultimately show ?thesis by blast
  qed simp
next
  assume r: "off + length bs \<le> length w \<and> bs = take (length bs) (drop off w) \<or> bs = []"
  have "at_place w (off + i) (bs ! i)" if "i < length bs" for i
  proof -
    have eq: "bs = take (length bs) (drop off w)" "off + length bs \<le> length w" using r that by auto
    have "bs ! i = w ! (off + i)" by (subst eq(1)) (use that eq(2) in simp)
    then show ?thesis using that eq(2) by (simp add: at_place_def)
  qed
  then show "list_all2 (at_place w) [off ..< off + length bs] bs" by (simp add: list_all2_conv_all_nth)
qed

lemma at_place_grow: "at_place w i x \<Longrightarrow> at_place (w @ v) i x"
  by (auto simp: at_place_def nth_append)

lemma at_place_new: "list_all2 (at_place (w @ v)) [length w ..< length w + length v] v"
  by (auto simp: list_all2_conv_all_nth at_place_def)

lemma spans_of_cong: "sn_frames s' = sn_frames s \<Longrightarrow> spans_of s' ks = spans_of s ks"
  by (simp add: spans_of_def)

lemma spans_of_Nil [simp]: "spans_of s [] = {}" and spans_of_Cons: "spans_of s (k # ks) = spans_of s [k] \<union> spans_of s ks"
  by (auto simp: spans_of_def)

lemma spans_of_remove: "spans_of s ks \<subseteq> spans_of s (removeAll k ks) \<union> spans_of s [k]"
  by (auto simp: spans_of_def)

lemma holds_allD:
  assumes "holds_all s base"
  shows "send_inv (at_place (sn_written s)) base (sn_st s)" "{..< base} \<subseteq> spans_of s (sn_acks s)"
    "acked_ok (length (sn_written s)) (spans_of s (sn_acks s)) (sd_acked (sn_st s))" "sd_off (sn_st s) = length (sn_written s)"
    "sd_error (sn_st s) = None" "sd_max_data (sn_st s) < 2 ^ 62" "\<And>n. sd_fin_off (sn_st s) = Some n \<Longrightarrow> n = length (sn_written s)"
    "\<And>f. f \<in> set (sn_frames s) \<Longrightarrow> frame_ok s f" "set (sn_acks s) \<subseteq> {..< length (sn_frames s)}"
    "{..< length (sn_written s)} \<subseteq> pending (sn_st s) \<union> spans_of s (sn_acks s) \<union> spans_of s (sn_flight s)"
  using assms unfolding holds_all_def by blast+

text \<open>An operation that keeps what was written and sent: what has to be shown of it.\<close>

lemma holds_all_keep:
  assumes "holds_all s base" "sn_written s' = sn_written s" "sn_frames s' = sn_frames s"
    "send_inv (at_place (sn_written s)) base' (sn_st s')" "{..< base'} \<subseteq> spans_of s (sn_acks s')"
    "acked_ok (length (sn_written s)) (spans_of s (sn_acks s')) (sd_acked (sn_st s'))"
    "sd_off (sn_st s') = sd_off (sn_st s)" "sd_error (sn_st s') = sd_error (sn_st s)" "sd_max_data (sn_st s') < 2 ^ 62"
    "sd_fin_off (sn_st s') = sd_fin_off (sn_st s)" "set (sn_acks s') \<subseteq> {..< length (sn_frames s)}"
    "{..< length (sn_written s)} \<subseteq> pending (sn_st s') \<union> spans_of s (sn_acks s') \<union> spans_of s (sn_flight s')"
  shows "sender_inv s'"
proof -
  have "spans_of s' ks = spans_of s ks" for ks by (rule spans_of_cong) (rule assms(3))
  moreover have "frame_ok s' f" if "f \<in> set (sn_frames s)" for f
    using holds_allD(8) [OF assms(1) that] assms(2,10) by (simp add: frame_ok_def)
  ultimately have "holds_all s' base'"
    using assms(2-) holds_allD(4,5,7) [OF assms(1)] unfolding holds_all_def by auto
  then show ?thesis by (auto simp: sender_inv_def)
qed

lemma emit_inv:
  assumes inv: "send_inv src base st"
  shows "\<exists>k fin out st'. send_emit (replicate n 0) st = Ok ((k, fin, out), st') \<and> k \<le> n \<and> length (take k out) = k \<and>
    list_all2 src [off_front st ..< off_front st + k] (take k out) \<and> fin = (sd_fin_off st = Some (off_front st + k)) \<and>
    send_inv src base st' \<and> pending st' = pending st - {off_front st ..< off_front st + k} \<and>
    (k = n \<or> off_front st + k \<notin> pending st) \<and> off_front st + k \<le> sd_off st \<and>
    sd_off st' = sd_off st \<and> sd_fin_off st' = sd_fin_off st \<and> sd_error st' = sd_error st \<and> sd_acked st' = sd_acked st \<and>
    sd_max_data st' = sd_max_data st"
proof -
  have front: "\<forall>x \<in> pending st. off_front st \<le> x" using off_front_pending [OF inv] by auto
  have "send_inv src base st" "off_front st \<le> off_front st" "off_front st - off_front st + n = length (replicate n (0 :: u8))"
      "list_all2 src [off_front st ..< off_front st] (take (off_front st - off_front st) (replicate n 0))"
    using inv by simp_all
  from send_loop_spec [OF this front]
  obtain e out st1 where l: "send_loop (off_front st) n (off_front st) (replicate n 0) st = Ok (n - (e - off_front st), e, out, st1)"
      "off_front st \<le> e" "e - off_front st \<le> n" "length out = length (replicate n (0 :: u8))"
      "list_all2 src [off_front st ..< e] (take (e - off_front st) out)" "send_inv src base st1"
      "pending st1 = pending st - {off_front st ..< e}" "{off_front st ..< e} \<subseteq> pending st"
      "e - off_front st = n \<or> e \<notin> pending st"
      "st1 = st\<lparr>sd_data := sd_data st1, sd_pos := sd_pos st1, sd_buffered := sd_buffered st1\<rparr>"
    by (elim exE conjE) (rule that)
  define k where "k = e - off_front st"
  have e: "e = off_front st + k" using l(2) by (simp add: k_def)
  define st' where "st' = st1\<lparr>sd_emit_off := max (sd_emit_off st1) e\<rparr>"
  have same: "sd_off st1 = sd_off st" "sd_fin_off st1 = sd_fin_off st" "sd_error st1 = sd_error st" "sd_acked st1 = sd_acked st" "sd_max_data st1 = sd_max_data st"
    by (subst l(10), simp)+
  have "e \<le> sd_off st"
  proof (cases k)
    case 0
    then show ?thesis using off_front_pending [OF inv] e by auto
  next
    case (Suc j)
    then have "off_front st + j \<in> pending st" using l(8) e by auto
    then show ?thesis using pending_bounds [OF inv] e Suc by auto
  qed
  moreover have "send_emit (replicate n 0) st = Ok ((k, sd_fin_off st = Some e, out), st')"
    using l(1,3) same by (simp add: send_emit_def st'_def k_def)
  moreover have "send_inv src base st'" "pending st' = pending st1" using l(6) by (simp_all add: send_inv_def pending_def st'_def)
  ultimately show ?thesis
    using l(3-5,7,9) same unfolding e
    by (intro exI [of _ k] exI [of _ "sd_fin_off st = Some e"] exI [of _ out] exI [of _ st']) (auto simp: e st'_def)
qed

lemma send_call_Write:
  assumes inv: "sender_inv s" and len: "length data < 2 ^ 62"
  shows "\<exists>s'. send_call s (Write data fin) = Ok s' \<and> sender_inv s'"
proof -
  let ?w = "sn_written s"
  obtain base where h: "holds_all s base" using inv by (auto simp: sender_inv_def)
  note i = holds_allD [OF h]
  have up: "sd_off (sn_st s) \<le> sd_max_data (sn_st s)" using i(1) by (simp add: send_inv_def)
  let ?src = "at_place (?w @ data)"
  have all: "send_inv ?src base (sn_st s)" using send_inv_mono [OF i(1)] at_place_grow by blast
  have "list_all2 ?src [sd_off (sn_st s) ..< sd_off (sn_st s) + length data] data" "\<forall>n. sd_fin_off (sn_st s) = Some n \<longrightarrow> n = sd_off (sn_st s)"
      "sd_off (sn_st s) + length data < 2 ^ 64" "ack_off (sn_st s) \<le> sd_off (sn_st s)"
    using at_place_new [of ?w data] i(4,6,7) len up ack_off_spec [OF i(3)] by simp_all
  note w = send_write_inv [OF all this i(5), of fin]
  consider (err) e where "send_write data fin (sn_st s) = Err e"
    | (ok) n st' where "send_write data fin (sn_st s) = Ok (n, st')" "n \<le> length data" "send_inv ?src base st'" "sd_off st' = sd_off (sn_st s) + n"
      "pending st' = pending (sn_st s) \<union> {sd_off (sn_st s) ..< sd_off (sn_st s) + n}"
      "sd_fin_off st' = (if fin \<and> n = length data then Some (sd_off st') else sd_fin_off (sn_st s))"
      "\<forall>k. sd_fin_off (sn_st s) = Some k \<longrightarrow> n = 0" "sd_acked st' = sd_acked (sn_st s)" "sd_max_data st' = sd_max_data (sn_st s)" "sd_error st' = None"
    using w by (elim disjE exE conjE) (erule that(1), rule that(2))
  then show ?thesis
  proof cases
    case err
    then show ?thesis using inv by (simp add: send_call_def)
  next
    case ok
    note w = ok [unfolded i(4)]
    define v where "v = ?w @ take n data"
    define s' where "s' = s\<lparr>sn_st := st', sn_written := v\<rparr>"
    have fields: "sn_st s' = st'" "sn_written s' = v" "sn_frames s' = sn_frames s" "sn_acks s' = sn_acks s" "sn_flight s' = sn_flight s"
      by (simp_all add: s'_def)
    have spans: "spans_of s' ks = spans_of s ks" for ks by (rule spans_of_cong) (rule fields)
    have v: "length v = length ?w + n" "\<And>i x. at_place ?w i x \<Longrightarrow> at_place v i x" using w(2) at_place_grow by (simp_all add: v_def)
    have fin: "sd_fin_off st' = sd_fin_off (sn_st s)" if "sd_fin_off (sn_st s) \<noteq> None" using that w(4,6,7) i(7) by auto
    have "send_inv (at_place v) base st'"
      by (rule send_inv_mono [OF w(3)]) (use w(2,4) in \<open>auto simp: at_place_def nth_append v_def\<close>)
    moreover have "acked_ok (length v) (spans_of s (sn_acks s)) (sd_acked st')"
      using acked_ok_mono [OF i(3)] v(1) w(8) by simp
    moreover have "k = length v" if "sd_fin_off st' = Some k" for k
      using that w(4,6,7) i(7) v(1) by (auto split: if_splits)
    moreover have "frame_ok s' f" if "f \<in> set (sn_frames s)" for f
      using i(8) [OF that] v fin by (auto simp: frame_ok_def fields elim: list_all2_mono)
    moreover have "{..< length v} \<subseteq> pending st' \<union> spans_of s (sn_acks s) \<union> spans_of s (sn_flight s)"
    proof -
      have "{..< length v} = {..< length ?w} \<union> {length ?w ..< length ?w + n}" using v(1) by auto
      then show ?thesis using i(10) w(5) by blast
    qed
    ultimately have "holds_all s' base"
      using w(4,9,10) i(2,6,9) v(1) unfolding holds_all_def fields spans by simp
    then show ?thesis using w(1) by (auto simp: send_call_def s'_def v_def sender_inv_def)
  qed
qed

lemma send_call_Send:
  assumes inv: "sender_inv s"
  shows "\<exists>s'. send_call s (Send n) = Ok s' \<and> sender_inv s'"
proof -
  let ?w = "sn_written s" and ?st = "sn_st s"
  obtain base where h: "holds_all s base" using inv by (auto simp: sender_inv_def)
  note i = holds_allD [OF h]
  from emit_inv [OF i(1), of n] obtain k fin out st' where e: "send_emit (replicate n 0) ?st = Ok ((k, fin, out), st')" "length (take k out) = k"
      "list_all2 (at_place ?w) [off_front ?st ..< off_front ?st + k] (take k out)" "fin = (sd_fin_off ?st = Some (off_front ?st + k))"
      "send_inv (at_place ?w) base st'" "pending st' = pending ?st - {off_front ?st ..< off_front ?st + k}" "off_front ?st + k \<le> sd_off ?st"
      "sd_off st' = sd_off ?st" "sd_fin_off st' = sd_fin_off ?st" "sd_error st' = sd_error ?st" "sd_acked st' = sd_acked ?st" "sd_max_data st' = sd_max_data ?st"
    by (elim exE conjE) (rule that)
  show ?thesis
  proof (cases "k = 0 \<and> \<not> fin")
    case True
    have "sender_inv (s\<lparr>sn_st := st'\<rparr>)"
      by (rule holds_all_keep [OF h]) (use True e(5-12) i in \<open>simp_all\<close>)
    then show ?thesis using e(1) True by (simp add: send_call_def)
  next
    case False
    let ?f = "(off_front ?st, take k out, fin)"
    define s' where "s' = s\<lparr>sn_st := st', sn_frames := sn_frames s @ [?f], sn_flight := length (sn_frames s) # sn_flight s\<rparr>"
    have fields: "sn_st s' = st'" "sn_written s' = ?w" "sn_frames s' = sn_frames s @ [?f]" "sn_acks s' = sn_acks s"
        "sn_flight s' = length (sn_frames s) # sn_flight s"
      by (simp_all add: s'_def)
    have acks: "spans_of s' (sn_acks s) = spans_of s (sn_acks s)" unfolding spans_of_def
      by (rule SUP_cong) (use i(9) in \<open>auto simp: fields nth_append\<close>)
    have flight: "spans_of s (sn_flight s) \<union> {off_front ?st ..< off_front ?st + k} \<subseteq> spans_of s' (sn_flight s')"
      using e(2) by (auto simp: spans_of_def fields nth_append frame_span_def split: if_splits)
    have "frame_ok s' f" if "f \<in> set (sn_frames s')" for f
    proof (cases "f = ?f")
      case True
      then show ?thesis using e(2-4,7,9) i(4) by (simp add: frame_ok_def fields)
    next
      case False
      then show ?thesis using that i(8) [of f] e(9) by (auto simp: fields frame_ok_def)
    qed
    moreover have "{..< length ?w} \<subseteq> pending st' \<union> spans_of s (sn_acks s) \<union> spans_of s' (sn_flight s')"
      using i(10) e(6) flight by blast
    moreover have "set (sn_acks s) \<subseteq> {..< length (sn_frames s')}" using i(9) by (auto simp: fields)
    ultimately have "holds_all s' base"
      using i(2-7) e(5,8-12) unfolding holds_all_def fields(1,2,4) acks by auto
    then show ?thesis using e(1) False by (auto simp: send_call_def s'_def sender_inv_def)
  qed
qed

lemma frame_within:
  assumes "holds_all s base" "k < length (sn_frames s)" "sn_frames s ! k = (off, bs, fin)"
  shows "off + length bs \<le> length (sn_written s)" "spans_of s [k] = {off ..< off + length bs}"
proof -
  have "frame_ok s (off, bs, fin)" using holds_allD(8) [OF assms(1)] assms(2,3) by (metis nth_mem)
  then show "off + length bs \<le> length (sn_written s)" by (simp add: frame_ok_def)
  show "spans_of s [k] = {off ..< off + length bs}" using assms(2,3) by (simp add: spans_of_def frame_span_def)
qed

lemma send_call_Acked:
  assumes inv: "sender_inv s"
  shows "\<exists>s'. send_call s (Acked k) = Ok s' \<and> sender_inv s'"
proof (cases "k < length (sn_frames s)")
  case True
  obtain base where h: "holds_all s base" using inv by (auto simp: sender_inv_def)
  note i = holds_allD [OF h]
  obtain off bs fin where f: "sn_frames s ! k = (off, bs, fin)" by (cases "sn_frames s ! k")
  note w = frame_within [OF h True f]
  let ?A = "spans_of s (sn_acks s) \<union> {off ..< off + length bs}"
  have "acked_ok (sd_off (sn_st s)) (spans_of s (sn_acks s)) (sd_acked (sn_st s))" "off + length bs \<le> sd_off (sn_st s)"
    using i(3,4) w(1) by simp_all
  from ack_and_drop_inv [OF i(1) this]
  obtain n st' base' where a: "ack_and_drop off (length bs) (sn_st s) = Ok (n, st')" "send_inv (at_place (sn_written s)) base' st'"
      "acked_ok (sd_off (sn_st s)) ?A (sd_acked st')" "{..< base'} \<subseteq> {..< base} \<union> ?A" "pending st' = pending (sn_st s) \<inter> {base' ..}"
      "sd_off st' = sd_off (sn_st s)" "sd_fin_off st' = sd_fin_off (sn_st s)" "sd_error st' = sd_error (sn_st s)" "sd_max_data st' = sd_max_data (sn_st s)"
    by (elim exE conjE) (rule that)
  let ?s = "s\<lparr>sn_st := st', sn_flight := removeAll k (sn_flight s), sn_acks := k # sn_acks s\<rparr>"
  have A: "spans_of s (k # sn_acks s) = ?A" using w(2) spans_of_Cons [of s k "sn_acks s"] by auto
  have low: "{..< base'} \<subseteq> ?A" by (rule order_trans [OF a(4)]) (rule Un_least [OF le_supI1 [OF i(2)] order_refl])
  have "pending (sn_st s) \<subseteq> pending st' \<union> {..< base'}" unfolding a(5) by auto
  then have "{..< length (sn_written s)} \<subseteq> pending st' \<union> ?A \<union> spans_of s (removeAll k (sn_flight s))"
    using i(10) low spans_of_remove [of s "sn_flight s" k] unfolding w(2) by blast
  then have "sender_inv ?s"
    by (intro holds_all_keep [OF h, of ?s base']) (use a low A True i in \<open>simp_all\<close>)
  then show ?thesis using True f a(1) by (simp add: send_call_def)
qed (use inv in \<open>simp add: send_call_def\<close>)

lemma send_call_Lost:
  assumes inv: "sender_inv s"
  shows "\<exists>s'. send_call s (Lost k) = Ok s' \<and> sender_inv s'"
proof (cases "k < length (sn_frames s)")
  case True
  obtain base where h: "holds_all s base" using inv by (auto simp: sender_inv_def)
  note i = holds_allD [OF h]
  obtain off bs fin where f: "sn_frames s ! k = (off, bs, fin)" by (cases "sn_frames s ! k")
  note w = frame_within [OF h True f]
  have "off + length bs \<le> sd_off (sn_st s)" using i(4) w(1) by simp
  from retransmit_inv [OF i(1) this]
  obtain n st' where r: "retransmit off (length bs) (sn_st s) = Ok (n, st')" "send_inv (at_place (sn_written s)) base st'"
      "off + length bs \<le> ack_off (sn_st s) \<and> st' = sn_st s \<or> pending st' = pending (sn_st s) \<union> ({off ..< off + length bs} \<inter> {base ..< sd_off (sn_st s)})"
      "sd_off st' = sd_off (sn_st s)" "sd_fin_off st' = sd_fin_off (sn_st s)" "sd_error st' = sd_error (sn_st s)" "sd_acked st' = sd_acked (sn_st s)"
      "sd_max_data st' = sd_max_data (sn_st s)"
    by (elim exE conjE) (rule that)
  let ?s = "s\<lparr>sn_st := st', sn_flight := removeAll k (sn_flight s)\<rparr>"
  have "{off ..< off + length bs} \<subseteq> pending st' \<union> spans_of s (sn_acks s)"
  proof -
    have "{..< ack_off (sn_st s)} \<subseteq> spans_of s (sn_acks s)" using ack_off_spec [OF i(3)] by blast
    moreover have "{off ..< off + length bs} \<subseteq> {off ..< off + length bs} \<inter> {base ..< sd_off (sn_st s)} \<union> {..< base}"
      using w(1) i(4) by auto
    moreover have "{off ..< off + length bs} \<subseteq> {..< ack_off (sn_st s)}" if "off + length bs \<le> ack_off (sn_st s)" using that by auto
    ultimately show ?thesis using r(3) i(2) by blast
  qed
  moreover have "pending (sn_st s) \<subseteq> pending st'" using r(3) by auto
  ultimately have "{..< length (sn_written s)} \<subseteq> pending st' \<union> spans_of s (sn_acks s) \<union> spans_of s (removeAll k (sn_flight s))"
    using i(10) spans_of_remove [of s "sn_flight s" k] unfolding w(2) by blast
  then have "sender_inv ?s"
    by (intro holds_all_keep [OF h, of ?s base]) (use r i in simp_all)
  then show ?thesis using True f r(1) by (simp add: send_call_def)
qed (use inv in \<open>simp add: send_call_def\<close>)

lemma send_call_Grant:
  assumes "sender_inv s" "m < 2 ^ 62"
  shows "\<exists>s'. send_call s (Grant m) = Ok s' \<and> sender_inv s'"
proof -
  obtain base where h: "holds_all s base" using assms by (auto simp: sender_inv_def)
  note i = holds_allD [OF h]
  let ?st = "send_update_max_data m (sn_st s)"
  have "send_inv (at_place (sn_written s)) base ?st" "pending ?st = pending (sn_st s)"
    using i(1,6) assms(2) by (auto simp: send_inv_def pending_def send_update_max_data_def)
  then have "sender_inv (s\<lparr>sn_st := ?st\<rparr>)"
    by (intro holds_all_keep [OF h, of _ base]) (use i assms(2) in \<open>simp_all add: send_update_max_data_def\<close>)
  then show ?thesis by (simp add: send_call_def)
qed

lemma sender_inv_new: "max_data < 2 ^ 62 \<Longrightarrow> sender_inv (sender_new max_data)"
  unfolding sender_inv_def
  by (intro exI [of _ 0]) (simp add: holds_all_def sender_new_def send_new_def send_inv_def acked_ok_default)

lemma send_run_inv:
  assumes "max_data < 2 ^ 62" "list_all small calls"
  shows "\<exists>s. send_run max_data calls = Ok s \<and> sender_inv s"
  using assms(2)
proof (induction calls rule: rev_induct)
  case Nil
  then show ?case using sender_inv_new [OF assms(1)] by (simp add: send_run_def)
next
  case (snoc call calls)
  then obtain s where s: "send_run max_data calls = Ok s" "sender_inv s" by auto
  have "\<exists>s'. send_call s call = Ok s' \<and> sender_inv s'"
    using snoc.prems s(2) send_call_Write send_call_Send send_call_Acked send_call_Lost send_call_Grant
    by (cases call) (auto simp: small_def)
  then show ?case using s(1) by (auto simp: send_run_def)
qed

section \<open>Properties\<close>

text \<open>C3. The sending side of a stream forgets nothing and makes nothing up. Whatever is written, sent,
acknowledged and reported lost, in whatever order, nothing panics; every frame holds exactly the bytes that were
written at its offset, and ends the stream only where what was written ends. A byte that is neither
acknowledged nor in a frame still in flight is sent again: the next frame with room is not
empty and begins at that byte or before it. The stream counts as complete only when every
byte has been acknowledged.\<close>

theorem stream_sender_exact:
  assumes "max_data < 2 ^ 62" "list_all small calls"
  shows "\<exists>s. send_run max_data calls = Ok s \<and>
    (\<forall>(off, bs, fin) \<in> set (sn_frames s). off + length bs \<le> length (sn_written s) \<and>
       bs = take (length bs) (drop off (sn_written s)) \<and> (fin \<longrightarrow> off + length bs = length (sn_written s))) \<and>
    (\<forall>x < length (sn_written s). x \<notin> spans_of s (sn_acks s) \<and> x \<notin> spans_of s (sn_flight s) \<longrightarrow> off_front (sn_st s) \<le> x \<and>
       (\<forall>n > 0. \<exists>k fin out st'. send_emit (replicate n 0) (sn_st s) = Ok ((k, fin, out), st') \<and> 0 < k)) \<and>
    (send_is_complete (sn_st s) \<longrightarrow> spans_of s (sn_acks s) = {..< length (sn_written s)})"
proof -
  obtain s where s: "send_run max_data calls = Ok s" "sender_inv s" using send_run_inv [OF assms] by blast
  obtain base where h: "holds_all s base" using s(2) by (auto simp: sender_inv_def)
  note i = holds_allD [OF h]
  have "off + length bs \<le> length (sn_written s) \<and> bs = take (length bs) (drop off (sn_written s)) \<and> (fin \<longrightarrow> off + length bs = length (sn_written s))"
    if "(off, bs, fin) \<in> set (sn_frames s)" for off bs fin
    using i(8) [OF that] i(7) at_place_slice [of "sn_written s" off bs] by (auto simp: frame_ok_def)
  moreover have "off_front (sn_st s) \<le> x \<and>
       (\<forall>n > 0. \<exists>k fin out st'. send_emit (replicate n 0) (sn_st s) = Ok ((k, fin, out), st') \<and> 0 < k)"
    if "x < length (sn_written s)" "x \<notin> spans_of s (sn_acks s)" "x \<notin> spans_of s (sn_flight s)" for x
  proof -
    have "x \<in> pending (sn_st s)" using that i(10) by blast
    then have front: "off_front (sn_st s) \<in> pending (sn_st s)" "off_front (sn_st s) \<le> x" using off_front_pending [OF i(1)] by auto
    have "\<exists>k fin out st'. send_emit (replicate n 0) (sn_st s) = Ok ((k, fin, out), st') \<and> 0 < k" if "0 < n" for n
    proof -
      from emit_inv [OF i(1), of n] obtain k fin out st' where e: "send_emit (replicate n 0) (sn_st s) = Ok ((k, fin, out), st')"
          "k = n \<or> off_front (sn_st s) + k \<notin> pending (sn_st s)"
        by (elim exE conjE) (rule that)
      then have "0 < k" using front(1) \<open>0 < n\<close> by (cases k) auto
      then show ?thesis using e(1) by blast
    qed
    then show ?thesis using front(2) by blast
  qed
  moreover have "spans_of s (sn_acks s) = {..< length (sn_written s)}" if "send_is_complete (sn_st s)"
    using that complete_acked [OF i(3)] i(7) by auto
  ultimately show ?thesis using s(1) by (intro exI [of _ s]) blast
qed

definition demo_calls :: "send_op list" where
  "demo_calls = [Write [1, 2, 3, 4, 5] False, Send 3, Send 5, Lost 0, Acked 1, Write [6] True]"

lemmas send_eval = send_run_def send_call_def sender_new_def send_new_def send_write_def send_cap_def ack_off_def
  rs_default_def send_chunks.simps SEND_BUFFER_SIZE_def reserve_append_def sl_def from_raw_def u64_sum_def u64_diff_def
  send_emit_def off_front_def buf_is_empty_def buf_len_def buf_off_def send_loop.simps buf_deref_def put_at_def consume_def
  ack_and_drop_def send_ack_def rs_insert_def inline_insert_def inline_loop.simps inline_merge.simps fixup_def MAX_INLINE_CAPACITY_def
  retransmit_def ix_def split_off_def rewound_def buf_max_off_def insert_at_def

theorem stream_sender_exact_witness:
  "\<exists>s. send_run 100 demo_calls = Ok s \<and> sn_frames s = [(0, [1, 2, 3], False), (3, [4, 5], False)] \<and> sn_written s = [1, 2, 3, 4, 5, 6] \<and>
    list_all (\<lambda>(off, bs, fin). bs = take (length bs) (drop off (sn_written s))) (sn_frames s) \<and>
    (\<exists>k fin out st'. send_emit (replicate 9 0) (sn_st s) = Ok ((k, fin, out), st') \<and> 0 < k)"
proof -
  have small: "list_all small demo_calls" by (simp add: demo_calls_def small_def)
  from stream_sender_exact [OF _ small, of 100]
  obtain s where s: "send_run 100 demo_calls = Ok s"
      "\<forall>(off, bs, fin) \<in> set (sn_frames s). off + length bs \<le> length (sn_written s) \<and>
         bs = take (length bs) (drop off (sn_written s)) \<and> (fin \<longrightarrow> off + length bs = length (sn_written s))"
      "\<forall>x < length (sn_written s). x \<notin> spans_of s (sn_acks s) \<and> x \<notin> spans_of s (sn_flight s) \<longrightarrow> off_front (sn_st s) \<le> x \<and>
         (\<forall>n > 0. \<exists>k fin out st'. send_emit (replicate n 0) (sn_st s) = Ok ((k, fin, out), st') \<and> 0 < k)"
    by auto
  have run: "sn_frames s = [(0, [1, 2, 3], False), (3, [4, 5], False)]" "sn_written s = [1, 2, 3, 4, 5, 6]" "sn_acks s = [1]" "sn_flight s = []"
    using s(1) by (auto simp: demo_calls_def send_eval reserve_for_write_def Let_def)
  have "\<exists>k fin out st'. send_emit (replicate 9 0) (sn_st s) = Ok ((k, fin, out), st') \<and> 0 < k"
    using s(3) [rule_format, of 0] run by (simp add: spans_of_def frame_span_def)
  moreover have "list_all (\<lambda>(off, bs, fin). bs = take (length bs) (drop off (sn_written s))) (sn_frames s)"
    using s(2) by (auto simp: list_all_iff)
  ultimately show ?thesis using s(1) run(1,2) by blast
qed

text \<open>C1. A stream arrives as it was written. Take any history of the sending side, and let the network
hand any of its frames to the receiving side, in any order and as often as it likes, between reads
of any size. With room for what was written, nothing is refused and nothing panics; what has been
read is the beginning of what was written, and goes on with it at every read; the end is
reported only when all of it has been read. Once frames that cover it have arrived, one read with
enough room completes it.\<close>

theorem stream_end_to_end:
  assumes "max_data < 2 ^ 62" "list_all small calls" "send_run max_data calls = Ok s"
    and "\<forall>data off fin. Arrive data off fin \<in> set arrivals \<longrightarrow> (off, data, fin) \<in> set (sn_frames s)"
    and "length (sn_written s) \<le> limit" "limit < 2 ^ 64"
  shows "\<exists>out st. recv_run limit w m arrivals = Ok (out, st) \<and> out = take (length out) (sn_written s) \<and>
    (\<forall>n. case fst (recv_emit n st) of
       Ok (k, fin, bs) \<Rightarrow> out @ bs = take (length out + k) (sn_written s) \<and> (fin \<longrightarrow> out @ bs = sn_written s) \<and>
         ({..< length (sn_written s)} \<subseteq> arrived arrivals \<and> length (sn_written s) \<le> n \<longrightarrow> out @ bs = sn_written s)
     | Err e \<Rightarrow> e = Done \<and> ({..< length (sn_written s)} \<subseteq> arrived arrivals \<longrightarrow> out = sn_written s)
     | Panic \<Rightarrow> False)"
proof -
  let ?w = "sn_written s"
  obtain s' where "send_run max_data calls = Ok s'" "sender_inv s'" using send_run_inv [OF assms(1,2)] by blast
  then obtain base where h: "holds_all s base" using assms(3) by (auto simp: sender_inv_def)
  note i = holds_allD [OF h]
  have frame: "off + length data \<le> length ?w" "list_all2 (at_place ?w) [off ..< off + length data] data" "fin \<longrightarrow> off + length data = length ?w"
    if "Arrive data off fin \<in> set arrivals" for data off fin
    using i(8) [of "(off, data, fin)"] i(7) assms(4) that by (auto simp: frame_ok_def)
  have same: "at_place ?w j x" if "carried arrivals j x" for j x
  proof -
    obtain data off fin where a: "Arrive data off fin \<in> set arrivals" "off \<le> j" "j < off + length data" "data ! (j - off) = x"
      using \<open>carried arrivals j x\<close> by (auto simp: carried_def)
    then have "at_place ?w ([off ..< off + length data] ! (j - off)) (data ! (j - off))"
      using list_all2_nthD [OF frame(2) [OF a(1)], of "j - off"] a by simp
    then show ?thesis using a by simp
  qed
  have "list_all (fits (length ?w)) arrivals"
    using frame by (auto simp: list_all_iff fits_def split: recv_op.splits)
  then obtain out st where r: "recv_run limit w m arrivals = Ok (out, st)" "recv_state limit arrivals (out, st)"
    using recv_run_fits [OF assms(5,6)] by (metis surj_pair)
  then have inv: "recv_inv (carried arrivals) (arrived arrivals) st" "rv_off st = length out" "list_all2 (carried arrivals) [0 ..< length out] out"
      "\<And>n. rv_fin_off st = Some n \<longleftrightarrow> ends_at arrivals n"
    by (simp_all add: recv_state_def)
  have prefix: "list_all2 (at_place ?w) [0 ..< length v] v \<Longrightarrow> v = take (length v) ?w" for v
    using at_place_slice [of ?w 0 v] by auto
  have pre: "list_all2 (at_place ?w) [0 ..< length out] out" using inv(3) same by (auto elim: list_all2_mono)
  have ends: "n = length ?w" if "ends_at arrivals n" for n using that frame(3) by (auto simp: ends_at_def)
  have full: "length ?w \<le> j" if "j \<notin> arrived arrivals" "{..< length ?w} \<subseteq> arrived arrivals" for j
    using that by (meson lessThan_iff not_le subsetD)
  have "case fst (recv_emit n st) of
       Ok (k, fin, bs) \<Rightarrow> out @ bs = take (length out + k) ?w \<and> (fin \<longrightarrow> out @ bs = ?w) \<and>
         ({..< length ?w} \<subseteq> arrived arrivals \<and> length ?w \<le> n \<longrightarrow> out @ bs = ?w)
     | Err e \<Rightarrow> e = Done \<and> ({..< length ?w} \<subseteq> arrived arrivals \<longrightarrow> out = ?w)
     | Panic \<Rightarrow> False" for n
  proof -
    consider (some) k bs st' where "recv_emit n st = (Ok (k, rv_fin_off st = Some (length out + k), bs), st')" "length bs = k"
          "list_all2 (carried arrivals) [length out ..< length out + k] bs" "k = n \<or> length out + k \<notin> arrived arrivals"
      | (none) "recv_emit n st = (Err Done, st)" "length out \<notin> arrived arrivals"
      using recv_emit_inv [OF inv(1), of n] inv(2) by auto
    then show ?thesis
    proof cases
      case some
      have "list_all2 (at_place ?w) ([0 ..< length out] @ [length out ..< length out + k]) (out @ bs)"
        using pre some(3) same by (intro list_all2_appendI) (auto elim: list_all2_mono)
      then have all: "out @ bs = take (length out + k) ?w"
        using prefix [of "out @ bs"] upt_add_eq_append [of 0 "length out" k] some(2) by simp
      have "out @ bs = ?w" if "length ?w \<le> length out + k" using all that by simp
      moreover have "length ?w \<le> length out + k" if "{..< length ?w} \<subseteq> arrived arrivals" "length ?w \<le> n"
        using some(4) full [of "length out + k"] that by auto
      moreover have "length ?w \<le> length out + k" if "rv_fin_off st = Some (length out + k)"
        using ends [OF iffD1 [OF inv(4) that]] by simp
      ultimately show ?thesis using all some(1) by simp
    next
      case none
      have "out = ?w" if "{..< length ?w} \<subseteq> arrived arrivals" using prefix [OF pre] full [OF none(2) that] by simp
      then show ?thesis using none(1) by simp
    qed
  qed
  then show ?thesis using r(1) prefix [OF pre] by blast
qed

definition demo_writes :: "send_op list" where
  "demo_writes = [Write [1, 2, 3] True, Send 2, Send 5]"

definition demo_network :: "recv_op list" where
  "demo_network = [Arrive [3] 2 True, Read 4, Arrive [1, 2] 0 False, Arrive [3] 2 True]"

theorem stream_end_to_end_witness:
  "\<exists>s. send_run 100 demo_writes = Ok s \<and> sn_written s = [1, 2, 3] \<and>
    (\<exists>out st. recv_run 100 50 50 demo_network = Ok (out, st) \<and> out = take (length out) (sn_written s))"
proof -
  have small: "list_all small demo_writes" by (simp add: demo_writes_def small_def)
  have "\<exists>s. send_run 100 demo_writes = Ok s \<and> sn_written s = [1, 2, 3] \<and> sn_frames s = [(0, [1, 2], False), (2, [3], True)]"
    by (simp add: demo_writes_def send_eval reserve_for_write_def Let_def)
  then obtain s where s: "send_run 100 demo_writes = Ok s" "sn_written s = [1, 2, 3]" "sn_frames s = [(0, [1, 2], False), (2, [3], True)]"
    by blast
  have "\<forall>data off fin. Arrive data off fin \<in> set demo_network \<longrightarrow> (off, data, fin) \<in> set (sn_frames s)"
    by (auto simp: demo_network_def s(3))
  from stream_end_to_end [OF _ small s(1) this, of 100 50 50]
  show ?thesis using s(1,2) by auto
qed

end
