(* ===== verification/Spec2Isabelle.thy ===== *)
theory Spec2Isabelle
  imports Fragment MasqueH2 UdpRelay HttpProxy Relay Listener Lastconn Detour Https QStream
begin

text \<open>
  A verification development for \<^verbatim>\<open>aether\<close> (\<^verbatim>\<open>src/aether/\<close>), a tunnel client: it opens a tunnel to a
  gateway (MASQUE over HTTP/2 or HTTP/3, or WireGuard) and serves it to local programs as a SOCKS5
  and an HTTP proxy. A request is routed by rules: through the tunnel, directly, or nowhere.

  \<^bold>\<open>The parts and their theories.\<close>

  \<^item> Prelude, RustStd, Core: results with panics as values (\<open>run\<close>), checked indexing and slicing,
    machine words, the strings and numbers of Rust's standard library as the sources use them, and
    the errors of \<^verbatim>\<open>error.rs\<close>. Prelude holds the locales: \<open>codec\<close> and \<open>stream_codec\<close> for what is written
    and read back, \<open>machine\<close> for what every run of a step function keeps.
  \<^item> Net, NetText: addresses and their text, as the standard library reads and writes them.
  \<^item> Octets: the cursor of \<^verbatim>\<open>quiche/octets/src/lib.rs\<close>, with its variable-length integers.
  \<^item> Masque: the datagrams and capsules of \<^verbatim>\<open>masque.rs\<close>, the capsule parser and the probe packet.
  \<^item> MasqueH2: the HTTP/2 carrier of \<^verbatim>\<open>masque_h2.rs\<close>: the send task, the draining of capsules, and the
    event loop of \<^verbatim>\<open>run\<close> as a function of the events it waits for.
  \<^item> Sniff, Fragment, Routing: \<^verbatim>\<open>sniff.rs\<close>, \<^verbatim>\<open>fragment.rs\<close> and \<^verbatim>\<open>routing.rs\<close>.
  \<^item> Dns: the messages of \<^verbatim>\<open>dns.rs\<close> and \<^verbatim>\<open>socks.rs\<close>.
  \<^item> Sock: a stream socket: the pieces and faults its reads will meet, what has been written, and the
    faults its writes will meet; handlers are functions on it that return a \<open>run\<close> and the new state.
  \<^item> Socks, Resolver, Connect, UdpRelay, HttpProxy, Relay, Listener: \<^verbatim>\<open>socks.rs\<close> in its order of use:
    the protocol, the lookups through the tunnel, the handler of CONNECT, the UDP associations,
    the HTTP proxy, the relay that follows, and the accept loop. Relay also holds \<^verbatim>\<open>stats.rs\<close>.
  \<^item> Egress, Upstream, Detour: how the tunnel itself reaches the network. \<^verbatim>\<open>egress.rs\<close> with the race of
    connection attempts; the client of \<^verbatim>\<open>upstream.rs\<close> that dials through a SOCKS5 or HTTP proxy; and its
    detours, which carry datagrams through such a proxy.
  \<^item> Lastconn: the file of \<^verbatim>\<open>lastconn.rs\<close>.
  \<^item> Https: the HTTP/1.1 client of \<^verbatim>\<open>https.rs\<close> (\<^verbatim>\<open>over_http1\<close>): the request, the answer as it comes in
    (\<open>push\<close>, \<open>seek_head\<close>), the joining of a chunked body (\<open>advance\<close>) and the end (\<open>answer_finish\<close>).
  \<^item> QRanges, QCore, QRecvBuf, QSendBuf, QStream: the vendored QUIC library (\<^verbatim>\<open>quiche/quiche/src/\<close>): the range sets
    of \<^verbatim>\<open>ranges.rs\<close>; the errors, the flow control and the chunks of \<^verbatim>\<open>error.rs\<close>, \<^verbatim>\<open>flowcontrol.rs\<close> and
    \<^verbatim>\<open>range_buf.rs\<close>; the two buffers of a stream, \<^verbatim>\<open>stream/recv_buf.rs\<close> and \<^verbatim>\<open>stream/send_buf.rs\<close>; and both
    together, with a network between them. A history of calls (\<open>recv_run\<close>, \<open>send_run\<close>) records what was
    written, sent, acknowledged and read.

  \<^bold>\<open>How the code is translated.\<close> A function of the source is a function of the same name. What may
  fail returns a \<open>run\<close>, in which an index out of range, an arithmetic overflow that panics and an
  \<^verbatim>\<open>unwrap\<close> are \<open>Panic\<close>. A handler that awaits is a function of everything the world will answer: for
  a socket the \<open>sock\<close> record, for a connection the \<open>world\<close> record of Connect (the tunnel, the system
  resolver, outside sockets, timeouts) and a trace of the actions it takes (\<open>acts\<close>). A
  \<^verbatim>\<open>select\<close> loop is a step function over the events it selects among, in any order: \<open>h2_turn\<close>,
  \<open>udp_step\<close>, \<open>dns_assoc_step\<close>, \<open>relay_step\<close>, \<open>accept_clients\<close>, \<open>pump_step\<close>. A task
  that runs beside its owner has a step of its own, interleaved with the owner's in any order: the served clients of the
  accept loop, the pump of a detour. Third-party code (regular expressions, network
  ranges, TOML, random draws, the tunnel's channels) is a parameter; where a property relies on it the
  property says so. Byte strings are lists of 8-bit words, a \<^verbatim>\<open>usize\<close> is a natural number, time is in
  milliseconds. Logging has no counterpart.

  \<^bold>\<open>What the properties show.\<close>

  \<^item> Carrier: the capsule parser never panics and never grows past its bound; packets arrive whole and
    in order however the frames are cut; encoders and decoders agree; the tunnel is announced once, and with the
    data check on only when packets have come in twice; a ping that stays unanswered ends it in time.
  \<^item> Front end: exactly the requests of the SOCKS5 protocol are read, in any pieces; one reply is sent,
    a success exactly when the relay starts; what was read ahead is handed on whole, to the tunnel,
    the gateway or the direct connection; an HTTP request is rewritten and forwarded
    with its body complete and its headers unchanged as far as they are UTF-8.
  \<^item> Guards: what is blocked reaches nothing; the loopback of this machine is reached only by its own
    clients; an association serves one client; limits on clients and lookups hold after any
    history, and no place is lost.
  \<^item> Names: a reply is accepted exactly when it answers the question asked, an address comes only
    from such a reply, silent resolvers are passed over, and whatever is read from a reply stands in one of
    its records.
  \<^item> Way out: every address of a name is tried in turn and exactly the first connection taken; a proxy that is set is
    never gone around, and its login is asked for; the proxy client and the proxy server of this
    program understand each other; a socket goes through its newest detour as long as that one works, and a
    detour carries the datagrams of its socket, each once, and nothing else.
  \<^item> HTTPS client: an answer is returned exactly when all of it has come, and one cut short is an error;
    how it is cut into reads makes no difference.
  \<^item> QUIC library: a range set covers the numbers inserted and not removed, in both of its forms; a stream
    is read as it was written, whatever the network does to its frames; the sender keeps what is
    neither acknowledged nor in flight and sends it again.
  \<^item> Obfuscation and sniffing: fragmenting a ClientHello changes no byte of it; the server name of a
    well-formed one is found.
  \<^item> Shortcomings that the model shows are stated as theorems too: the reply after a failed sniffed
    connection, addresses written as names, trailing dots, bare IPv6 rules, range sets with a
    small capacity, the end of a stream that goes unnoticed, a limit on lines that depends on
    how they arrive, and headers of other encodings that are altered.

  \<^bold>\<open>Recursion.\<close> All definitions are total. Loops over the bytes of a message recurse on them, and
  loops over what a peer sends recurse on the arrivals still to come: reaching the end of the list
  is the end of the stream, or the passing of the timeout the loop is under. The fuel of
  \<open>split_ws_acc\<close> is the length of its text and one more, of which every step uses a byte. The fuel of
  \<open>write_loop\<close> is the length of the chunk and one more: every turn places or discards a byte at least, so it
  never runs out (\<open>write_loop_placed\<close>); the property on reassembly excludes the panic that running out would be.

  \<^bold>\<open>Not modelled.\<close> The drivers of quiche (\<^verbatim>\<open>quic.rs\<close>), boringtun (\<^verbatim>\<open>wireguard.rs\<close>), smoltcp
  (\<^verbatim>\<open>netstack.rs\<close>) and BoringSSL (\<^verbatim>\<open>tls.rs\<close>), the handshake and the HTTP/2 exchange of
  \<^verbatim>\<open>https.rs\<close>, the connection, packet and HTTP/3 layers of quiche, the scanning of endpoints, the accounts, the
  external transports, and the program's assembly and command line. Task scheduling is modelled
  as far as the order of the events a loop sees.
\<close>

end
